(* ===== verification/Prelude.thy ===== *)
theory Prelude
  imports Main "HOL-Library.Word"
begin

text \<open>
  The vocabulary the component theories share: the machine integers of the C code, the ways a
  call can fail to return a value, the byte-addressed memory with its little-endian accesses, and
  the macros of \<^verbatim>\<open>src/lib/utils.h\<close>.
  The lemmas reduce every load and store to the single bytes it touches, so that the components
  reason about offsets and not about wrapped addresses.
\<close>

unbundle bit_operations_syntax

section \<open>Machine integers and outcomes\<close>

type_synonym u8 = "8 word"
type_synonym u16 = "16 word"
type_synonym u32 = "32 word"
type_synonym u64 = "64 word"
type_synonym addr = u64

abbreviation (input) LF :: char where "LF \<equiv> CHR 0x0A"
abbreviation (input) CR :: char where "CR \<equiv> CHR 0x0D"

text \<open>
  How a call fails to produce a value. \<open>Assertion_hang\<close>: an \<^verbatim>\<open>ASSERT\<close> spins on
  \<^verbatim>\<open>hlt\<close> for ever. \<open>Endless_loop\<close>: a loop of the code itself never ends.
  \<open>Undefined_shift\<close>, \<open>Signed_overflow\<close>, \<open>Division_by_zero\<close>: C leaves the
  operation undefined.
  \<open>Bad_pointer\<close>: a dereference of an address where no object lives.
  \<open>Out_of_bounds\<close>: an array access outside the array.
  \<open>Wrong_vararg\<close>: \<^verbatim>\<open>va_arg\<close> reads an argument of another type, or none.
\<close>

datatype fault =
    Assertion_hang
  | Endless_loop
  | Undefined_shift
  | Signed_overflow
  | Division_by_zero
  | Bad_pointer
  | Out_of_bounds
  | Wrong_vararg

type_synonym 'a outcome = "fault + 'a"

definition bindR :: "'a outcome \<Rightarrow> ('a \<Rightarrow> 'b outcome) \<Rightarrow> 'b outcome" where
  "bindR r k = (case r of Inl e \<Rightarrow> Inl e | Inr x \<Rightarrow> k x)"

definition of_loop :: "'a option \<Rightarrow> 'a outcome" where
  "of_loop r = (case r of None \<Rightarrow> Inl Endless_loop | Some x \<Rightarrow> Inr x)"

definition ASSERT :: "bool \<Rightarrow> 'a outcome \<Rightarrow> 'a outcome" where
  "ASSERT x k = (if x then k else Inl Assertion_hang)"

text \<open>A counted loop whose body may fault.\<close>

primrec foldR :: "('a \<Rightarrow> 's \<Rightarrow> 's outcome) \<Rightarrow> 'a list \<Rightarrow> 's \<Rightarrow> 's outcome" where
  "foldR f [] s = Inr s"
| "foldR f (x # xs) s = bindR (f x s) (foldR f xs)"

text \<open>
  A C \<open>int\<close> shifted left: undefined from the width on; below it GCC shifts the bit pattern
  (it does not use the latitude C99 gives for a set sign bit).
\<close>

definition int_shl :: "u32 \<Rightarrow> nat \<Rightarrow> u32 outcome" where
  "int_shl x n = (if n < 32 then Inr (push_bit n x) else Inl Undefined_shift)"

definition ROUND_DOWN_TO :: "u64 \<Rightarrow> u64 \<Rightarrow> u64" where
  "ROUND_DOWN_TO x r = x AND NOT (r - 1)"

definition ROUND_UP_TO :: "u64 \<Rightarrow> u64 \<Rightarrow> u64" where
  "ROUND_UP_TO x r = (x + (r - 1)) AND NOT (r - 1)"

section \<open>Byte memory\<close>

type_synonym memory = "addr \<Rightarrow> u8"

abbreviation NULL :: addr where "NULL \<equiv> 0"

primrec load_le :: "nat \<Rightarrow> memory \<Rightarrow> addr \<Rightarrow> 'a::len word" where
  "load_le 0 m a = 0"
| "load_le (Suc n) m a = ucast (m a) OR push_bit 8 (load_le n m (a + 1))"

primrec store_le :: "nat \<Rightarrow> memory \<Rightarrow> addr \<Rightarrow> 'a::len word \<Rightarrow> memory" where
  "store_le 0 m a v = m"
| "store_le (Suc n) m a v = store_le n (m(a := ucast v)) (a + 1) (drop_bit 8 v)"

definition load16 :: "memory \<Rightarrow> addr \<Rightarrow> u16" where
  "load16 m a = load_le 2 m a"

definition load32 :: "memory \<Rightarrow> addr \<Rightarrow> u32" where
  "load32 m a = load_le 4 m a"

definition load64 :: "memory \<Rightarrow> addr \<Rightarrow> u64" where
  "load64 m a = load_le 8 m a"

definition store16 :: "memory \<Rightarrow> addr \<Rightarrow> u16 \<Rightarrow> memory" where
  "store16 m a v = store_le 2 m a v"

definition store32 :: "memory \<Rightarrow> addr \<Rightarrow> u32 \<Rightarrow> memory" where
  "store32 m a v = store_le 4 m a v"

definition store64 :: "memory \<Rightarrow> addr \<Rightarrow> u64 \<Rightarrow> memory" where
  "store64 m a v = store_le 8 m a v"

text \<open>Unfolding at a numeral width, to evaluate accesses on concrete memories.\<close>

lemma load_le_numeral:
  "load_le (numeral k) m a = ucast (m a) OR push_bit 8 (load_le (pred_numeral k) m (a + 1))"
  by (simp add: numeral_eq_Suc)

lemma store_le_numeral:
  "store_le (numeral k) m a v = store_le (pred_numeral k) (m(a := ucast v)) (a + 1) (drop_bit 8 v)"
  by (simp add: numeral_eq_Suc)

lemma load_le_zero: "load_le n (\<lambda>_. 0) a = 0"
  by (induction n arbitrary: a) simp_all

lemmas mem_eval = load16_def load32_def load64_def store16_def store32_def store64_def
  load_le_numeral store_le_numeral

section \<open>Lemmas on outcomes\<close>

lemma bindR_simps [simp]:
  "bindR (Inl e) k = Inl e"
  "bindR (Inr x) k = k x"
  by (simp_all add: bindR_def)

lemma bindR_eq_Inr: "bindR r k = Inr y \<longleftrightarrow> (\<exists>x. r = Inr x \<and> k x = Inr y)"
  by (cases r) auto

lemma bindR_assoc: "bindR (bindR r k) l = bindR r (\<lambda>x. bindR (k x) l)"
  by (cases r) auto

lemma of_loop_simps [simp]:
  "of_loop None = Inl Endless_loop"
  "of_loop (Some x) = Inr x"
  by (simp_all add: of_loop_def)

lemma ASSERT_simps [simp]:
  "ASSERT True k = k"
  "ASSERT False k = Inl Assertion_hang"
  by (simp_all add: ASSERT_def)

lemma ASSERT_eq_Inr: "ASSERT b k = Inr y \<longleftrightarrow> b \<and> k = Inr y"
  by (simp add: ASSERT_def)

lemma foldR_append: "foldR f (xs @ ys) s = bindR (foldR f xs s) (foldR f ys)"
proof (induction xs arbitrary: s)
  case (Cons x xs)
  then have "foldR f (xs @ ys) = (\<lambda>s. bindR (foldR f xs s) (foldR f ys))" by blast
  then show ?case by (simp add: bindR_assoc)
qed simp

lemma foldR_upt_Suc: "k \<le> n \<Longrightarrow> foldR f [k..<Suc n] s = bindR (foldR f [k..<n] s) (f n)"
  by (simp add: foldR_append bindR_def split: sum.split)

section \<open>Lemmas on words\<close>

lemma fold_upt_Suc: "fold f [0..<Suc k] s = f k (fold f [0..<k] s)"
  by simp

lemma unat_u64_less: "unat (x :: u64) < 2 ^ 64"
  using unsigned_less [of x] by simp

lemma unat_of_nat_u64: "i < 2 ^ 64 \<Longrightarrow> unat (of_nat i :: u64) = i"
  by (simp add: unat_of_nat)

lemma of_nat_u64_inj: "i < 2 ^ 64 \<Longrightarrow> j < 2 ^ 64 \<Longrightarrow> (of_nat i :: u64) = of_nat j \<longleftrightarrow> i = j"
  by (metis unat_of_nat_u64)

lemma eq_offset_iff: "k < 2 ^ 64 \<Longrightarrow> x = a + of_nat k \<longleftrightarrow> unat (x - a :: u64) = k"
proof
  assume "unat (x - a) = k"
  moreover have "of_nat (unat (x - a)) = x - a" by simp
  ultimately have "of_nat k = x - a" by simp
  then show "x = a + of_nat k" by simp
qed (simp add: unat_of_nat_u64)

text \<open>The byte \<open>i\<close> of a region at \<open>b\<close> lies in the \<open>n\<close> bytes from its byte \<open>j\<close>.\<close>

lemma unat_of_nat_diff:
  assumes "i < 2 ^ 64" "j + n \<le> 2 ^ 64"
  shows "unat ((b + of_nat i) - (b + of_nat j) :: u64) < n \<longleftrightarrow> j \<le> i \<and> i < j + n"
proof (cases "n = 0")
  case False
  then have j: "j < 2 ^ 64" using assms by simp
  have eq: "(b + of_nat i) - (b + of_nat j) = (of_nat i - of_nat j :: u64)" by simp
  have "unat (of_nat i :: u64) = i" "unat (of_nat j :: u64) = j"
    using assms(1) j by (simp_all add: unat_of_nat)
  then show ?thesis
    unfolding eq unat_sub_if' using assms j by auto
qed simp

section \<open>Lemmas on the byte memory\<close>

lemma bit_load_le:
  "bit (load_le n m a :: 'a::len word) k \<longleftrightarrow>
     k < LENGTH('a) \<and> k < 8 * n \<and> bit (m (a + of_nat (k div 8))) (k mod 8)"
proof (induction n arbitrary: a k)
  case (Suc n)
  show ?case
  proof (cases "k < 8")
    case True
    then show ?thesis
      by (auto simp: bit_or_iff bit_ucast_iff bit_push_bit_iff)
  next
    case False
    define j where "j = k - 8"
    have k: "k = j + 8" using False by (simp add: j_def)
    have "k div 8 = Suc (j div 8)" "k mod 8 = j mod 8" by (simp_all add: k)
    then have "a + of_nat (k div 8) = (a + 1) + of_nat (j div 8)" "k mod 8 = j mod 8"
      by simp_all
    moreover have "\<not> bit (m a) k" using False bit_imp_le_length [of "m a" k] by auto
    ultimately show ?thesis
      using False by (auto simp: bit_or_iff bit_ucast_iff bit_push_bit_iff Suc.IH k add.assoc)
  qed
qed simp

lemma load_le_cong:
  "(\<And>i. i < n \<Longrightarrow> m (a + of_nat i) = m' (a + of_nat i)) \<Longrightarrow>
     (load_le n m a :: 'a::len word) = load_le n m' a"
proof (rule bit_word_eqI)
  fix k
  assume eq: "\<And>i. i < n \<Longrightarrow> m (a + of_nat i) = m' (a + of_nat i)"
  have "k < 8 * n \<Longrightarrow> m (a + of_nat (k div 8)) = m' (a + of_nat (k div 8))"
    by (rule eq) simp
  then show "bit (load_le n m a :: 'a word) k = bit (load_le n m' a :: 'a word) k"
    by (auto simp: bit_load_le)
qed

lemma store_le_apply:
  "n < 2 ^ 64 \<Longrightarrow> store_le n m a v x =
     (if unat (x - a) < n then ucast (drop_bit (8 * unat (x - a)) v) else m x)"
proof (induction n arbitrary: m a v x)
  case (Suc n)
  then have n: "n < 2 ^ 64" by simp
  show ?case
  proof (cases "x = a")
    case True
    have "unat (0 - 1 :: u64) = 2 ^ 64 - 1" unfolding unat_sub_if' by simp
    then have "unat (a - (a + 1)) = 2 ^ 64 - 1" by simp
    then have "\<not> unat (a - (a + 1)) < n" using Suc.prems by simp
    then show ?thesis using True n by (simp add: Suc.IH)
  next
    case False
    define d where "d = x - (a + 1)"
    have d: "x - a = d + 1" by (simp add: d_def)
    have "d \<noteq> - 1" using False d by auto
    then have "unat (x - a) = Suc (unat d)"
      unfolding d by (metis add.commute add.inverse_inverse add_eq_0_iff unatSuc)
    moreover have "store_le n (m(a := ucast v)) (a + 1) (drop_bit 8 v) x =
      (if unat d < n then ucast (drop_bit (8 * unat d) (drop_bit 8 v)) else (m(a := ucast v)) x)"
      unfolding d_def by (rule Suc.IH [OF n])
    ultimately show ?thesis using False by (simp add: add.commute)
  qed
qed simp

lemma store_le_outside: "n < 2 ^ 64 \<Longrightarrow> \<not> unat (x - a) < n \<Longrightarrow> store_le n m a v x = m x"
  by (simp add: store_le_apply)

lemma load_store_same:
  fixes v :: "'a::len word"
  assumes "LENGTH('a) = 8 * n" "n < 2 ^ 64"
  shows "load_le n (store_le n m a v) a = v"
proof (rule bit_word_eqI)
  fix k assume k: "k < LENGTH('a)"
  then have q: "k div 8 < n" using assms(1) by simp
  then have "unat (of_nat (k div 8) :: u64) = k div 8" using assms(2) by (simp add: unat_of_nat)
  then have "store_le n m a v (a + of_nat (k div 8)) = ucast (drop_bit (8 * (k div 8)) v)"
    using q assms(2) by (simp add: store_le_apply)
  then show "bit (load_le n (store_le n m a v) a :: 'a word) k = bit v k"
    using k assms(1) by (simp add: bit_load_le bit_ucast_iff bit_drop_bit_eq)
qed

lemma load_store_other:
  assumes "k < 2 ^ 64" "\<And>i. i < n \<Longrightarrow> \<not> unat (a + of_nat i - b) < k"
  shows "(load_le n (store_le k m b v) a :: 'a::len word) = load_le n m a"
  using assms by (intro load_le_cong store_le_outside)

text \<open>Two accesses relative to the same base.\<close>

lemma load_store_offsets:
  assumes "i + k \<le> j \<or> j + n \<le> i" "i + k \<le> 2 ^ 64" "j + n \<le> 2 ^ 64" "k < 2 ^ 64"
  shows "(load_le n (store_le k m (p + of_nat i) v) (p + of_nat j) :: 'a::len word) =
    load_le n m (p + of_nat j)"
proof (rule load_store_other [OF assms(4)])
  fix t assume t: "t < n"
  have eq: "p + of_nat j + of_nat t = p + of_nat (j + t)" by simp
  show "\<not> unat (p + of_nat j + of_nat t - (p + of_nat i)) < k"
    unfolding eq using assms t by (subst unat_of_nat_diff) auto
qed

lemma store_le_offset_outside:
  assumes "i + k \<le> n" "n < 2 ^ 64" "\<not> unat (x - p) < n"
  shows "store_le k m (p + of_nat i) v x = m x"
proof (rule store_le_outside)
  show "\<not> unat (x - (p + of_nat i)) < k"
  proof
    assume "unat (x - (p + of_nat i)) < k"
    moreover define t where "t = unat (x - (p + of_nat i))"
    ultimately have t: "t < k" "x - (p + of_nat i) = of_nat t" by simp_all
    have "x = p + of_nat i + of_nat t" using t(2) by (simp add: algebra_simps)
    then have "x - p = of_nat (i + t)" by simp
    moreover have "unat (of_nat (i + t) :: u64) = i + t"
      by (rule unat_of_nat_u64) (use assms t in simp)
    ultimately have "unat (x - p) = i + t" by (simp only:)
    then show False using assms t by simp
  qed
qed (use assms in simp)

lemma bytes_after:
  assumes "j + k \<le> 2 ^ 64" "unat (x - b0) < j \<or> j + k \<le> unat (x - b0)"
  shows "\<not> unat (x - (b0 + of_nat j) :: u64) < k"
proof -
  have "x = b0 + of_nat (unat (x - b0))" by simp
  then show ?thesis using unat_of_nat_diff [of "unat (x - b0)" j k b0] assms unat_u64_less [of "x - b0"] by auto
qed

end
