(* ===== verification/Kstring.thy ===== *)
theory Kstring
  imports Prelude
begin

text \<open>
  The memory routines of \<^verbatim>\<open>src/lib/string.c\<close> over the byte memory.
  \<^verbatim>\<open>memcpy\<close>, \<^verbatim>\<open>memmove\<close> and \<^verbatim>\<open>memset\<close> return their first
  argument; the model returns the memory they leave.
  The same file is compiled for the kernel (x86-64) and for the boot loader (\<^verbatim>\<open>-m32\<close>), so
  the word size \<^verbatim>\<open>memcmp\<close> steps by is a parameter.
\<close>

section \<open>Definitions\<close>

datatype arch = X86_64 | I386

fun sizeof_uintptr :: "arch \<Rightarrow> nat" where
  "sizeof_uintptr X86_64 = 8"
| "sizeof_uintptr I386 = 4"

text \<open>The copy loop runs upwards, whatever the order of the two regions.\<close>

definition copy_byte :: "addr \<Rightarrow> addr \<Rightarrow> nat \<Rightarrow> memory \<Rightarrow> memory" where
  "copy_byte d s i m = m(d + of_nat i := m (s + of_nat i))"

definition memmove :: "memory \<Rightarrow> addr \<Rightarrow> addr \<Rightarrow> u64 \<Rightarrow> memory" where
  "memmove m d s n =
     (if d = s \<or> n = 0 then m
      else fold (copy_byte d s) [0..<unat n] m)"

definition memcpy :: "memory \<Rightarrow> addr \<Rightarrow> addr \<Rightarrow> u64 \<Rightarrow> memory" where
  "memcpy m d s n = memmove m d s n"

definition fill_byte :: "addr \<Rightarrow> u8 \<Rightarrow> nat \<Rightarrow> memory \<Rightarrow> memory" where
  "fill_byte a x i m = m(a + of_nat i := x)"

definition memset :: "memory \<Rightarrow> addr \<Rightarrow> u32 \<Rightarrow> u64 \<Rightarrow> memory" where
  "memset m a x n =
     (let x = x AND 0xFF in fold (fill_byte a (ucast x)) [0..<unat n] m)"

text \<open>The word loop: it stops at the last word, or at the first pair of words that differ.\<close>

function memcmp_words :: "arch \<Rightarrow> memory \<Rightarrow> addr \<Rightarrow> addr \<Rightarrow> nat \<Rightarrow> addr \<times> addr \<times> nat" where
  "memcmp_words w m a b n =
     (if n > sizeof_uintptr w \<and>
         (load_le (sizeof_uintptr w) m a :: u64) = load_le (sizeof_uintptr w) m b
      then memcmp_words w m (a + of_nat (sizeof_uintptr w)) (b + of_nat (sizeof_uintptr w))
             (n - sizeof_uintptr w)
      else (a, b, n))"
  by pat_completeness auto
termination
proof (relation "measure (\<lambda>(w, m, a, b, n). n)", goal_cases)
  case (2 w m a b n)
  then show ?case by (cases w) auto
qed simp

text \<open>The byte loop over at most one word; \<open>k\<close> counts the iterations left.\<close>

fun memcmp_bytes :: "nat \<Rightarrow> memory \<Rightarrow> addr \<Rightarrow> addr \<Rightarrow> nat \<Rightarrow> int" where
  "memcmp_bytes 0 m a b n = 0"
| "memcmp_bytes (Suc k) m a b n =
     (if n > 0 then
        (if m a \<noteq> m b then uint (m a) - uint (m b)
         else memcmp_bytes k m (a + 1) (b + 1) (n - 1))
      else 0)"

definition memcmp :: "arch \<Rightarrow> memory \<Rightarrow> addr \<Rightarrow> addr \<Rightarrow> u64 \<Rightarrow> int" where
  "memcmp w m a b n =
     (if n = 0 then 0
      else case memcmp_words w m a b (unat n) of
             (a', b', n') \<Rightarrow> memcmp_bytes (sizeof_uintptr w) m a' b' n')"

declare memcmp_words.simps [simp del]

section \<open>Copying and filling\<close>

lemma copy_byte_apply:
  "copy_byte d s i m x = (if x = d + of_nat i then m (s + of_nat i) else m x)"
  by (simp add: copy_byte_def)

lemma fill_byte_apply: "fill_byte a v i m x = (if x = a + of_nat i then v else m x)"
  by (simp add: fill_byte_def)

lemma fold_fill_apply:
  "k \<le> 2 ^ 64 \<Longrightarrow> fold (fill_byte a v) [0..<k] m x = (if unat (x - a) < k then v else m x)"
proof (induction k)
  case (Suc k)
  have "k < 2 ^ 64" using Suc.prems by simp
  then have "x = a + of_nat k \<longleftrightarrow> unat (x - a) = k" by (rule eq_offset_iff)
  then show ?case using Suc by (auto simp: less_Suc_eq fill_byte_apply)
qed simp

lemma memset_apply:
  "memset m a x n y = (if unat (y - a) < unat n then ucast x else m y)"
proof -
  have "(ucast (x AND 0xFF) :: u8) = ucast x"
  proof -
    have eq: "(0xFF :: u32) = mask 8" by (simp add: mask_eq_exp_minus_1)
    show ?thesis
      unfolding eq by (rule bit_word_eqI) (simp add: bit_ucast_iff bit_and_iff bit_mask_iff)
  qed
  moreover have "unat n \<le> 2 ^ 64" using unat_u64_less [of n] by simp
  ultimately show ?thesis by (simp add: memset_def Let_def fold_fill_apply)
qed

text \<open>
  The upward copy is a copy whenever no byte is read after it has been overwritten: the
  destination does not start inside the source.
\<close>

definition copy_safe :: "addr \<Rightarrow> addr \<Rightarrow> nat \<Rightarrow> bool" where
  "copy_safe d s n \<longleftrightarrow> d = s \<or> n \<le> unat (d - s)"

lemma copy_safe_fresh:
  assumes "copy_safe d s n" "d \<noteq> s" "k < n" "n \<le> 2 ^ 64"
  shows "\<not> unat (s + of_nat k - d) < k"
proof
  assume lt: "unat (s + of_nat k - d) < k"
  define j where "j = unat (s + of_nat k - d)"
  have "s + of_nat k = d + of_nat j"
    unfolding j_def using eq_offset_iff [of j "s + of_nat k" d] lt assms by (simp add: j_def)
  moreover have "j \<le> k" using lt by (simp add: j_def)
  ultimately have "d - s = of_nat (k - j)"
    using lt by (simp add: j_def [symmetric] algebra_simps)
  then have "unat (d - s) = k - j" using assms by (simp add: unat_of_nat_u64)
  with assms show False by (simp add: copy_safe_def)
qed

lemma fold_copy_apply:
  assumes "copy_safe d s n" "d \<noteq> s" "n \<le> 2 ^ 64" "k \<le> n"
  shows "fold (copy_byte d s) [0..<k] m x =
    (if unat (x - d) < k then m (s + (x - d)) else m x)"
  using assms(4)
proof (induction k arbitrary: x)
  case (Suc k)
  let ?c = "\<lambda>k. fold (copy_byte d s) [0..<k] m"
  have k: "k < 2 ^ 64" using Suc.prems assms(3) by simp
  have read: "?c k (s + of_nat k) = m (s + of_nat k)"
    using Suc.prems copy_safe_fresh [OF assms(1,2) _ assms(3), of k] by (simp add: Suc.IH)
  show ?case
  proof (cases "x = d + of_nat k")
    case True
    then have "?c (Suc k) x = m (s + of_nat k)"
      by (simp only: fold_upt_Suc copy_byte_apply read simp_thms if_True)
    then show ?thesis using True k by (simp add: unat_of_nat_u64)
  next
    case False
    then have "unat (x - d) \<noteq> k" using k eq_offset_iff by blast
    then show ?thesis using Suc False by (simp add: less_Suc_eq copy_byte_apply)
  qed
qed simp

lemma memmove_apply:
  assumes "copy_safe d s (unat n)"
  shows "memmove m d s n x = (if unat (x - d) < unat n then m (s + (x - d)) else m x)"
proof (cases "d = s \<or> n = 0")
  case False
  have "unat n \<le> 2 ^ 64" using unat_u64_less [of n] by simp
  with False assms show ?thesis by (simp add: memmove_def fold_copy_apply)
qed (auto simp: memmove_def)

lemma memmove_outside:
  "\<not> unat (x - d) < unat n \<Longrightarrow> memmove m d s n x = m x"
proof -
  assume out: "\<not> unat (x - d) < unat n"
  have "k \<le> unat n \<Longrightarrow> fold (copy_byte d s) [0..<k] m x = m x" for k
  proof (induction k)
    case (Suc k)
    have "k < 2 ^ 64" using Suc.prems unat_u64_less [of n] by simp
    then have "x \<noteq> d + of_nat k" using out Suc.prems eq_offset_iff [of k x d] by auto
    then show ?case using Suc by (simp add: copy_byte_apply)
  qed simp
  then show ?thesis by (simp add: memmove_def)
qed

section \<open>Comparing\<close>

definition bytes :: "memory \<Rightarrow> addr \<Rightarrow> nat \<Rightarrow> u8 list" where
  "bytes m a n = map (\<lambda>i. m (a + of_nat i)) [0..<n]"

lemma bytes_Suc: "bytes m a (Suc n) = m a # bytes m (a + 1) n"
  by (simp add: bytes_def upt_rec [of 0 "Suc n"] map_Suc_upt [symmetric] comp_def add.assoc
      del: upt_Suc)

lemma bytes_eq_iff: "bytes m a n = bytes m b n \<longleftrightarrow> (\<forall>i<n. m (a + of_nat i) = m (b + of_nat i))"
  by (auto simp: bytes_def list_eq_iff_nth_eq)

text \<open>The sign of the first difference, byte by byte: what \<^verbatim>\<open>memcmp\<close> is specified to return.\<close>

fun first_diff :: "u8 list \<Rightarrow> u8 list \<Rightarrow> int" where
  "first_diff (x # xs) (y # ys) = (if x \<noteq> y then uint x - uint y else first_diff xs ys)"
| "first_diff _ _ = 0"

lemma memcmp_bytes_eq:
  "memcmp_bytes k m a b n = first_diff (bytes m a (min k n)) (bytes m b (min k n))"
proof (induction k arbitrary: a b n)
  case (Suc k)
  show ?case
  proof (cases n)
    case (Suc n')
    then show ?thesis by (simp add: bytes_Suc Suc.IH)
  qed (simp add: bytes_def)
qed (simp add: bytes_def)

lemma bytes_append: "bytes m a (k + n) = bytes m a k @ bytes m (a + of_nat k) n"
proof (rule nth_equalityI)
  fix i assume "i < length (bytes m a (k + n))"
  then have i: "i < k + n" by (simp add: bytes_def)
  show "bytes m a (k + n) ! i = (bytes m a k @ bytes m (a + of_nat k) n) ! i"
  proof (cases "i < k")
    case False
    then have "[0..<n] ! (i - k) = i - k" using i by simp
    with False i show ?thesis by (simp add: bytes_def nth_append)
  qed (simp add: bytes_def nth_append)
qed (simp add: bytes_def)

lemma length_bytes [simp]: "length (bytes m a n) = n"
  by (simp add: bytes_def)

lemma first_diff_append:
  "length xs = length ys \<Longrightarrow>
   first_diff (xs @ us) (ys @ vs) = (if xs = ys then first_diff us vs else first_diff xs ys)"
  by (induction xs ys rule: list_induct2) auto

lemma first_diff_eq_0: "length xs = length ys \<Longrightarrow> first_diff xs ys = 0 \<longleftrightarrow> xs = ys"
  by (induction xs ys rule: list_induct2) (auto simp: word_uint_eq_iff)

lemma load_le_eq_bytes:
  assumes "8 * n \<le> LENGTH('a)"
  shows "(load_le n m a :: 'a::len word) = load_le n m b \<longleftrightarrow> bytes m a n = bytes m b n"
proof
  assume eq: "(load_le n m a :: 'a word) = load_le n m b"
  have "m (a + of_nat i) = m (b + of_nat i)" if "i < n" for i
  proof (rule bit_word_eqI)
    fix k assume "k < LENGTH(8)"
    then have "8 * i + k < 8 * n" "(8 * i + k) div 8 = i" "(8 * i + k) mod 8 = k"
      using that by auto
    then show "bit (m (a + of_nat i)) k = bit (m (b + of_nat i)) k"
      using arg_cong [OF eq, of "\<lambda>w. bit w (8 * i + k)"] assms by (simp add: bit_load_le)
  qed
  then show "bytes m a n = bytes m b n" by (simp add: bytes_eq_iff)
next
  assume "bytes m a n = bytes m b n"
  then have eq: "m (a + of_nat i) = m (b + of_nat i)" if "i < n" for i
    using that by (simp add: bytes_eq_iff)
  have "k < 8 * n \<Longrightarrow> k div 8 < n" for k by auto
  then show "(load_le n m a :: 'a word) = load_le n m b"
    by (intro bit_word_eqI) (auto simp: bit_load_le eq)
qed

lemma sizeof_uintptr_bounds: "0 < sizeof_uintptr w" "8 * sizeof_uintptr w \<le> 64"
  by (cases w; simp)+

lemma memcmp_words_eq:
  assumes "memcmp_words w m a b n = (a', b', n')"
  shows "first_diff (bytes m a n) (bytes m b n) =
    first_diff (bytes m a' (min (sizeof_uintptr w) n')) (bytes m b' (min (sizeof_uintptr w) n'))"
  using assms
proof (induction w m a b n rule: memcmp_words.induct)
  case (1 w m a b n)
  let ?k = "sizeof_uintptr w"
  have word: "(load_le ?k m a :: u64) = load_le ?k m b \<longleftrightarrow> bytes m a ?k = bytes m b ?k"
    using sizeof_uintptr_bounds [of w] by (intro load_le_eq_bytes) simp
  have split: "n > ?k \<Longrightarrow> first_diff (bytes m a n) (bytes m b n) =
      (if bytes m a ?k = bytes m b ?k
       then first_diff (bytes m (a + of_nat ?k) (n - ?k)) (bytes m (b + of_nat ?k) (n - ?k))
       else first_diff (bytes m a ?k) (bytes m b ?k))"
    using bytes_append [of m a ?k "n - ?k"] bytes_append [of m b ?k "n - ?k"]
    by (simp add: first_diff_append)
  show ?case
  proof (cases "n > ?k \<and> bytes m a ?k = bytes m b ?k")
    case True
    then show ?thesis
      using "1.IH" "1.prems" word split by (simp add: memcmp_words.simps [of w m a b n])
  next
    case False
    then have "(a', b', n') = (a, b, n)"
      using "1.prems" word by (auto simp: memcmp_words.simps [of w m a b n] split: if_splits)
    then show ?thesis using False split by (cases "n > ?k") simp_all
  qed
qed

text \<open>C24: \<^verbatim>\<open>memcmp\<close>, which compares word by word and finishes with a byte loop, returns
  the difference of the first pair of bytes that differ, and 0 when all \<open>n\<close> bytes agree,
  for both word sizes it is compiled for.\<close>

theorem memcmp_first_diff:
  "memcmp w m a b n = first_diff (bytes m a (unat n)) (bytes m b (unat n))"
proof (cases "n = 0")
  case False
  obtain a' b' n' where "memcmp_words w m a b (unat n) = (a', b', n')" by (metis prod_cases3)
  with False show ?thesis
    using memcmp_words_eq by (simp add: memcmp_def memcmp_bytes_eq)
qed (simp add: memcmp_def bytes_def)

end
