(* ===== verification/Bitmap.thy ===== *)
theory Bitmap
  imports Kstring
begin

text \<open>
  The bitmap of \<^verbatim>\<open>src/kernel/drivers/bitmap.c\<close>: an array of 64-bit words in the byte memory.
  The abstraction \<open>bmp_bit\<close> reads bit \<open>i\<close> off byte \<open>i div 8\<close>; every operation is
  characterised by what it does to these bits, and the search by the leftmost run it finds.
\<close>

section \<open>Definitions\<close>

record bitmap_t =
  bmp_buf :: addr
  bmp_size :: u64

definition bitmap_init_buf :: "memory \<Rightarrow> addr \<Rightarrow> u64 \<Rightarrow> (bitmap_t \<times> memory) outcome" where
  "bitmap_init_buf m buf num_idx =
     ASSERT (buf \<noteq> NULL)
       (Inr (\<lparr>bmp_buf = buf, bmp_size = num_idx\<rparr>, memset m buf 0 (num_idx div 8)))"

text \<open>The word of the array with the given index: \<^verbatim>\<open>bmp_arr[idx]\<close>.\<close>

definition bmp_word :: "bitmap_t \<Rightarrow> u64 \<Rightarrow> addr" where
  "bmp_word bmp idx = bmp_buf bmp + 8 * idx"

text \<open>
  \<^verbatim>\<open>value & 0x1\<close> has type \<open>int\<close>, so the second shift is a 32-bit one whose result is
  sign-extended when it is or-ed into the 64-bit word.
\<close>

definition bitmap_set :: "memory \<Rightarrow> bitmap_t \<Rightarrow> u64 \<Rightarrow> bool \<Rightarrow> memory outcome" where
  "bitmap_set m bmp bit_index value =
     ASSERT (bit_index < bmp_size bmp)
       (let idx = drop_bit 6 bit_index;
            ofs = bit_index AND 63;
            w = bmp_word bmp idx;
            m = store64 m w (load64 m w AND NOT (push_bit (unat ofs) 1))
        in bindR (int_shl (of_bool value AND 1) (unat ofs))
             (\<lambda>v. Inr (store64 m w (load64 m w OR scast v))))"

definition bitmap_get :: "memory \<Rightarrow> bitmap_t \<Rightarrow> u64 \<Rightarrow> bool outcome" where
  "bitmap_get m bmp bit_index =
     ASSERT (bit_index < bmp_size bmp)
       (let idx = drop_bit 6 bit_index;
            ofs = (ucast (bit_index AND 63) :: u8)
        in Inr ((load64 m (bmp_word bmp idx) AND push_bit (unat ofs) 1) \<noteq> 0))"

definition xor_word :: "bitmap_t \<Rightarrow> u64 \<Rightarrow> u64 \<Rightarrow> memory \<Rightarrow> memory" where
  "xor_word bmp idx msk m =
     store64 m (bmp_word bmp idx) (load64 m (bmp_word bmp idx) XOR msk)"

definition bitmap_flip :: "memory \<Rightarrow> bitmap_t \<Rightarrow> u64 \<Rightarrow> u64 \<Rightarrow> memory outcome" where
  "bitmap_flip m bmp start_idx end_idx =
     ASSERT (start_idx \<le> bmp_size bmp)
     (ASSERT (end_idx \<le> bmp_size bmp)
     (ASSERT (start_idx \<le> end_idx)
       (let start_word = drop_bit 6 start_idx;
            end_word = drop_bit 6 end_idx;
            start_idx_in_word = (ucast (start_idx AND 63) :: u8);
            end_idx_in_word = (ucast (end_idx AND 63) :: u8)
        in if start_word = end_word
           then let num_bits = (ucast (end_idx - start_idx + 1) :: u8);
                    msk = (if num_bits = 64 then - 1
                            else push_bit (unat start_idx_in_word)
                                   (push_bit (unat num_bits) 1 - 1))
                in Inr (xor_word bmp start_word msk m)
           else let m = xor_word bmp start_word (push_bit (unat start_idx_in_word) (- 1)) m;
                    m = fold (\<lambda>word_idx. xor_word bmp (of_nat word_idx) (- 1))
                          [Suc (unat start_word)..<unat end_word] m;
                    msk = (if end_idx_in_word = 63 then - 1
                            else push_bit (unat end_idx_in_word + 1) 1 - 1)
                in Inr (xor_word bmp end_word msk m))))"

text \<open>The search loop: \<open>i\<close> runs up to \<open>end_idx\<close> or until the run is long enough.\<close>

function bitmap_test_loop ::
  "memory \<Rightarrow> bitmap_t \<Rightarrow> bool \<Rightarrow> nat \<Rightarrow> nat \<Rightarrow> nat \<Rightarrow> nat \<Rightarrow> nat \<Rightarrow> (nat \<times> nat) outcome" where
  "bitmap_test_loop m bmp value end_idx num_bits i num_bits_iter candidate_idx =
     (if i \<le> end_idx \<and> num_bits_iter < num_bits
      then bindR (bitmap_get m bmp (of_nat i))
             (\<lambda>b. if b = value
                  then bitmap_test_loop m bmp value end_idx num_bits (Suc i) (Suc num_bits_iter)
                         (if num_bits_iter = 0 then i else candidate_idx)
                  else bitmap_test_loop m bmp value end_idx num_bits (Suc i) 0 candidate_idx)
      else Inr (num_bits_iter, candidate_idx))"
  by pat_completeness auto
termination
  by (relation "measure (\<lambda>(m, bmp, value, end_idx, num_bits, i, n, c). Suc end_idx - i)") auto

text \<open>
  The result is an \<^verbatim>\<open>int64_t\<close>: \<open>-1\<close>, or the index converted from \<^verbatim>\<open>uint64_t\<close>.
\<close>

definition bitmap_test ::
  "memory \<Rightarrow> bitmap_t \<Rightarrow> bool \<Rightarrow> u64 \<Rightarrow> u64 \<Rightarrow> u64 \<Rightarrow> u64 outcome" where
  "bitmap_test m bmp value start_idx end_idx num_bits =
     ASSERT (start_idx < bmp_size bmp)
     (ASSERT (end_idx < bmp_size bmp)
     (ASSERT (start_idx \<le> end_idx)
     (ASSERT (start_idx + num_bits - 1 \<le> end_idx)
     (ASSERT (num_bits > 0)
       (bindR (bitmap_test_loop m bmp value (unat end_idx) (unat num_bits)
                 (unat start_idx) 0 (unat start_idx))
          (\<lambda>(num_bits_iter, candidate_idx).
             Inr (if num_bits_iter = unat num_bits then of_nat candidate_idx else - 1)))))))"

definition bitmap_test_and_flip ::
  "memory \<Rightarrow> bitmap_t \<Rightarrow> bool \<Rightarrow> u64 \<Rightarrow> u64 \<Rightarrow> u64 \<Rightarrow> (u64 \<times> memory) outcome" where
  "bitmap_test_and_flip m bmp value start_idx end_idx num_bits =
     ASSERT (start_idx < bmp_size bmp)
     (ASSERT (end_idx < bmp_size bmp)
     (ASSERT (start_idx \<le> end_idx)
     (ASSERT (start_idx + num_bits - 1 \<le> end_idx)
     (ASSERT (num_bits > 0)
       (bindR (bitmap_test m bmp value start_idx end_idx num_bits)
          (\<lambda>ret. if ret \<noteq> - 1
                 then bindR (bitmap_flip m bmp ret (ret + num_bits - 1)) (\<lambda>m. Inr (ret, m))
                 else Inr (ret, m)))))))"

definition bitmap_clear :: "memory \<Rightarrow> bitmap_t \<Rightarrow> memory" where
  "bitmap_clear m bmp = memset m (bmp_buf bmp) 0 (bmp_size bmp div 8)"

declare bitmap_test_loop.simps [simp del]

section \<open>The bits a bitmap holds\<close>

definition bmp_bit :: "memory \<Rightarrow> bitmap_t \<Rightarrow> nat \<Rightarrow> bool" where
  "bmp_bit m bmp i \<longleftrightarrow> bit (m (bmp_buf bmp + of_nat (i div 8))) (i mod 8)"

text \<open>The bytes a bitmap of the given size reaches into: whole 64-bit words.\<close>

definition bmp_extent :: "bitmap_t \<Rightarrow> nat" where
  "bmp_extent bmp = 8 * ((unat (bmp_size bmp) + 63) div 64)"

lemma unat_drop_bit_6: "unat (drop_bit 6 (x :: u64)) = unat x div 64"
  by (simp add: drop_bit_eq_div unat_div)

lemma unat_and_63: "unat ((x :: u64) AND 63) = unat x mod 64"
proof -
  have "x AND 63 = take_bit 6 x" by (simp add: take_bit_eq_mask mask_eq_exp_minus_1)
  then show ?thesis by (simp add: take_bit_eq_mod unat_mod)
qed

lemma unat_and_63_u8: "unat (ucast ((x :: u64) AND 63) :: u8) = unat x mod 64"
proof -
  have "unat (ucast (x AND 63) :: u8) = unat (x AND 63) mod 256"
    by (simp add: unsigned_ucast_eq take_bit_eq_mod)
  then show ?thesis by (simp add: unat_and_63)
qed

lemma bmp_word_offset: "bmp_word bmp idx = bmp_buf bmp + of_nat (8 * unat idx)"
  by (simp add: bmp_word_def)

lemma bit_load64_word:
  "bit (load64 m (bmp_word bmp idx)) k \<longleftrightarrow> k < 64 \<and> bmp_bit m bmp (64 * unat idx + k)"
proof -
  have "bmp_word bmp idx + of_nat (k div 8) = bmp_buf bmp + of_nat ((64 * unat idx + k) div 8)"
  proof -
    have "(64 * unat idx + k) div 8 = 8 * unat idx + k div 8" by simp
    then show ?thesis by (simp only: bmp_word_offset of_nat_add add.assoc)
  qed
  moreover have "(64 * unat idx + k) mod 8 = k mod 8"
    using mod_mult_self2 [of k 8 "8 * unat idx"] by (simp add: add.commute)
  ultimately show ?thesis by (auto simp: load64_def bit_load_le bmp_bit_def)
qed

lemma bmp_bit_store64_word:
  assumes "unat idx < 2 ^ 58" "i < 2 ^ 64"
  shows "bmp_bit (store64 m (bmp_word bmp idx) v) bmp i =
    (if i div 64 = unat idx then bit v (i mod 64) else bmp_bit m bmp i)"
proof -
  define o' where "o' = unat (bmp_buf bmp + of_nat (i div 8) - bmp_word bmp idx)"
  have iff: "o' < 8 \<longleftrightarrow> 8 * unat idx \<le> i div 8 \<and> i div 8 < 8 * unat idx + 8"
    unfolding o'_def bmp_word_offset using assms by (intro unat_of_nat_diff) auto
  also have "\<dots> \<longleftrightarrow> i div 64 = unat idx" by linarith
  finally have *: "o' < 8 \<longleftrightarrow> i div 64 = unat idx" .
  show ?thesis
  proof (cases "i div 64 = unat idx")
    case True
    then have "o' < 8" using * by simp
    then have "bmp_buf bmp + of_nat (i div 8) = bmp_word bmp idx + of_nat o'"
      using eq_offset_iff [of o' "bmp_buf bmp + of_nat (i div 8)" "bmp_word bmp idx"]
      by (simp add: o'_def)
    then have "(of_nat (i div 8) :: u64) = of_nat (8 * unat idx + o')"
      by (simp add: bmp_word_offset)
    moreover have "i div 8 < 2 ^ 64" "8 * unat idx + o' < 2 ^ 64"
      using assms \<open>o' < 8\<close> by simp_all
    ultimately have "i div 8 = 8 * unat idx + o'"
      by (metis of_nat_u64_inj)
    moreover have "64 * unat idx + i mod 64 = i" "8 * (i div 8) + i mod 8 = i"
      using mult_div_mod_eq [of 64 i] by (simp_all add: True)
    ultimately have "8 * o' + i mod 8 = i mod 64" by linarith
    then show ?thesis
      using True \<open>o' < 8\<close>
      by (simp add: bmp_bit_def store64_def store_le_apply o'_def [symmetric] bit_ucast_iff
          bit_drop_bit_eq)
  next
    case False
    then have "\<not> o' < 8" using * by simp
    then show ?thesis
      using False by (simp add: bmp_bit_def store64_def store_le_apply o'_def [symmetric])
  qed
qed

lemma store64_word_outside:
  assumes "unat idx < 2 ^ 58" "8 * unat idx + 8 \<le> n" "n \<le> unat (x - bmp_buf bmp)"
  shows "store64 m (bmp_word bmp idx) v x = m x"
proof -
  define d where "d = unat (x - bmp_buf bmp)"
  have d: "d < 2 ^ 64" unfolding d_def by (rule unat_u64_less)
  then have x: "x = bmp_buf bmp + of_nat d" using eq_offset_iff [OF d, of x] by (simp add: d_def)
  have "unat (x - bmp_word bmp idx) < 8 \<longleftrightarrow> 8 * unat idx \<le> d \<and> d < 8 * unat idx + 8"
    unfolding x bmp_word_offset using assms d by (intro unat_of_nat_diff) auto
  then show ?thesis using assms by (simp add: store64_def store_le_outside d_def)
qed

lemma unat_word_index: "unat (drop_bit 6 (x :: u64)) < 2 ^ 58"
  using unat_u64_less [of x] by (simp add: unat_drop_bit_6)

lemma bit_index_join: "i div 64 = u \<Longrightarrow> 64 * u + i mod 64 = (i :: nat)"
  using mult_div_mod_eq [of 64 i] by simp

lemma bmp_bit_xor_word:
  assumes "unat idx < 2 ^ 58" "i < 2 ^ 64"
  shows "bmp_bit (xor_word bmp idx msk m) bmp i =
    (bmp_bit m bmp i \<noteq> (i div 64 = unat idx \<and> bit msk (i mod 64)))"
  using assms
  by (auto simp: xor_word_def bmp_bit_store64_word bit_xor_iff bit_load64_word bit_index_join)

lemma bmp_bit_or_word:
  assumes "unat idx < 2 ^ 58" "i < 2 ^ 64"
  shows "bmp_bit (store64 m (bmp_word bmp idx) (load64 m (bmp_word bmp idx) OR s)) bmp i =
    (bmp_bit m bmp i \<or> i div 64 = unat idx \<and> bit s (i mod 64))"
  using assms by (auto simp: bmp_bit_store64_word bit_or_iff bit_load64_word bit_index_join)

lemma bmp_bit_clear_word:
  assumes "unat idx < 2 ^ 58" "i < 2 ^ 64"
  shows "bmp_bit (store64 m (bmp_word bmp idx)
            (load64 m (bmp_word bmp idx) AND NOT (push_bit k 1))) bmp i =
    (bmp_bit m bmp i \<and> \<not> (i div 64 = unat idx \<and> i mod 64 = k))"
  using assms
  by (auto simp: bmp_bit_store64_word bit_and_iff bit_not_iff bit_exp_iff bit_load64_word
      bit_index_join)

section \<open>Single bits\<close>

lemma bitmap_get_eq:
  "bitmap_get m bmp i =
     (if i < bmp_size bmp then Inr (bmp_bit m bmp (unat i)) else Inl Assertion_hang)"
proof (cases "i < bmp_size bmp")
  case True
  define w where "w = load64 m (bmp_word bmp (drop_bit 6 i))"
  have "(w AND push_bit k 1) \<noteq> 0 \<longleftrightarrow> bit w k" if "k < 64" for k
    using that by (auto simp: bit_eq_iff [of _ 0] bit_and_iff bit_exp_iff)
  moreover have "bit w (unat i mod 64) \<longleftrightarrow> bmp_bit m bmp (unat i)"
    using mult_div_mod_eq [of 64 "unat i"] by (simp add: w_def bit_load64_word unat_drop_bit_6)
  ultimately show ?thesis
    using True by (simp add: bitmap_get_def Let_def unat_and_63_u8 w_def [symmetric])
qed (simp add: bitmap_get_def ASSERT_def)

lemma bitmap_set_eq:
  assumes "i < bmp_size bmp" "unat i mod 64 < 32"
  shows "bitmap_set m bmp i v =
    (let w = bmp_word bmp (drop_bit 6 i);
         m = store64 m w (load64 m w AND NOT (push_bit (unat i mod 64) 1))
     in Inr (store64 m w (load64 m w OR scast (push_bit (unat i mod 64) (of_bool v :: u32)))))"
  using assms by (simp add: bitmap_set_def Let_def unat_and_63 int_shl_def)

lemma bitmap_set_undefined:
  assumes "i < bmp_size bmp" "32 \<le> unat i mod 64"
  shows "bitmap_set m bmp i v = Inl Undefined_shift"
  using assms by (simp add: bitmap_set_def Let_def unat_and_63 int_shl_def)

text \<open>The bits the second store of \<^verbatim>\<open>bitmap_set\<close> adds: one bit, or the sign extension.\<close>

lemma bit_scast_shifted:
  assumes "k < 32" "j < 64"
  shows "bit (scast (push_bit k (of_bool v :: u32)) :: u64) j \<longleftrightarrow> v \<and> (j = k \<or> k = 31 \<and> 31 \<le> j)"
  using assms by (auto simp: bit_word_scast_iff bit_push_bit_iff bit_1_iff)

lemma bitmap_set_bits:
  assumes "i < bmp_size bmp" "unat i mod 64 < 32" "bitmap_set m bmp i v = Inr m'" "j < 2 ^ 64"
  shows "bmp_bit m' bmp j =
    (if j = unat i then v
     else bmp_bit m bmp j \<or> v \<and> unat i mod 64 = 31 \<and> j div 64 = unat i div 64 \<and> 31 \<le> j mod 64)"
proof -
  define w where "w = bmp_word bmp (drop_bit 6 i)"
  define m1 where "m1 = store64 m w (load64 m w AND NOT (push_bit (unat i mod 64) 1))"
  define s where "s = (scast (push_bit (unat i mod 64) (of_bool v :: u32)) :: u64)"
  have m': "m' = store64 m1 w (load64 m1 w OR s)"
    using assms(3) unfolding bitmap_set_eq [OF assms(1,2)] Let_def m1_def w_def s_def by simp
  have eq: "j = unat i \<longleftrightarrow> j div 64 = unat i div 64 \<and> j mod 64 = unat i mod 64"
    using mult_div_mod_eq [of 64 j] mult_div_mod_eq [of 64 "unat i"] by metis
  have "bmp_bit m1 bmp j \<longleftrightarrow> bmp_bit m bmp j \<and> j \<noteq> unat i"
    unfolding m1_def w_def eq using assms(4)
    by (simp only: bmp_bit_clear_word [OF unat_word_index] unat_drop_bit_6)
  moreover have "bmp_bit m' bmp j \<longleftrightarrow>
      bmp_bit m1 bmp j \<or> j div 64 = unat i div 64 \<and> bit s (j mod 64)"
    unfolding m' w_def using assms(4)
    by (simp only: bmp_bit_or_word [OF unat_word_index] unat_drop_bit_6)
  moreover have "bit s (j mod 64) \<longleftrightarrow>
      v \<and> (j mod 64 = unat i mod 64 \<or> unat i mod 64 = 31 \<and> 31 \<le> j mod 64)"
    unfolding s_def using assms(2) by (intro bit_scast_shifted) simp_all
  ultimately show ?thesis using eq by auto
qed

section \<open>Flipping a range\<close>

lemma bit_mask_shifted:
  "bit (push_bit s (2 ^ n - 1) :: u64) k \<longleftrightarrow> k < 64 \<and> s \<le> k \<and> k < s + n"
proof -
  have "(2 ^ n - 1 :: u64) = mask n" by (simp add: mask_eq_exp_minus_1)
  then show ?thesis by (auto simp: bit_push_bit_iff bit_mask_iff)
qed

lemma bit_ones_shifted: "bit (push_bit s (- 1) :: u64) k \<longleftrightarrow> k < 64 \<and> s \<le> k"
  by (auto simp: bit_not_iff bit_mask_iff)

lemma fold_xor_words:
  assumes "b \<le> 2 ^ 58" "i < 2 ^ 64"
  shows "bmp_bit (fold (\<lambda>w. xor_word bmp (of_nat w) (- 1)) [a..<b] m) bmp i =
    (bmp_bit m bmp i \<noteq> (a \<le> i div 64 \<and> i div 64 < b))"
  using assms(1)
proof (induction b)
  case (Suc b)
  then have "unat (of_nat b :: u64) = b" by (intro unat_of_nat_u64) simp
  with Suc assms(2) show ?case
    by (cases "a \<le> b") (auto simp: bmp_bit_xor_word less_Suc_eq)
qed simp

text \<open>The bits \<open>lo\<close> to \<open>hi\<close> in terms of words and offsets.\<close>

lemma range_by_words:
  fixes lo hi i :: nat
  assumes "lo div 64 < hi div 64"
  shows "lo \<le> i \<and> i \<le> hi \<longleftrightarrow>
    (i div 64 = lo div 64 \<and> lo mod 64 \<le> i mod 64) \<or>
    (lo div 64 < i div 64 \<and> i div 64 < hi div 64) \<or>
    (i div 64 = hi div 64 \<and> i mod 64 \<le> hi mod 64)"
proof -
  have s: "lo = 64 * (lo div 64) + lo mod 64" "hi = 64 * (hi div 64) + hi mod 64"
    "i = 64 * (i div 64) + i mod 64" "lo mod 64 < 64" "hi mod 64 < 64" "i mod 64 < 64"
    by simp_all
  show ?thesis using assms s by linarith
qed

lemma range_in_word:
  fixes lo hi i :: nat
  assumes "lo div 64 = hi div 64" "lo \<le> hi"
  shows "lo \<le> i \<and> i \<le> hi \<longleftrightarrow>
    i div 64 = lo div 64 \<and> lo mod 64 \<le> i mod 64 \<and> i mod 64 < lo mod 64 + (hi - lo + 1)"
proof -
  have s: "lo = 64 * (lo div 64) + lo mod 64" "hi = 64 * (hi div 64) + hi mod 64"
    "i = 64 * (i div 64) + i mod 64" "lo mod 64 < 64" "hi mod 64 < 64" "i mod 64 < 64"
    by simp_all
  have "i div 64 = lo div 64" if "lo \<le> i" "i \<le> hi"
    using assms s that by linarith
  moreover have "lo \<le> i \<and> i \<le> hi \<longleftrightarrow> lo mod 64 \<le> i mod 64 \<and> i mod 64 < lo mod 64 + (hi - lo + 1)"
    if eq: "i div 64 = lo div 64"
  proof -
    have "lo \<le> i \<longleftrightarrow> lo mod 64 \<le> i mod 64" "i \<le> hi \<longleftrightarrow> i mod 64 \<le> hi mod 64"
      "hi - lo = hi mod 64 - lo mod 64" "lo mod 64 \<le> hi mod 64"
      using assms s eq by linarith+
    then show ?thesis by auto
  qed
  ultimately show ?thesis by blast
qed

lemma bitmap_flip_single_word:
  assumes "lo \<le> hi" "hi \<le> bmp_size bmp" "unat lo div 64 = unat hi div 64"
  shows "\<exists>m'. bitmap_flip m bmp lo hi = Inr m' \<and>
    (\<forall>i < 2 ^ 64. bmp_bit m' bmp i = (bmp_bit m bmp i \<noteq> (unat lo \<le> i \<and> i \<le> unat hi)))"
proof -
  define n where "n = unat hi - unat lo + 1"
  have le: "unat lo \<le> unat hi" using assms(1) by (simp add: word_le_nat_alt)
  have n: "n \<le> 64" "unat lo mod 64 + n \<le> 64"
    using assms(3) mult_div_mod_eq [of 64 "unat lo"] mult_div_mod_eq [of 64 "unat hi"] le
    unfolding n_def by (auto simp: algebra_simps)
  have "unat (hi - lo + 1) = n"
    using le n unfolding n_def by (simp add: unat_word_ariths unat_sub_if')
  then have nb: "unat (ucast (hi - lo + 1) :: u8) = n"
    using n by (simp add: unsigned_ucast_eq take_bit_eq_mod)
  define msk where "msk = (if n = 64 then - 1 else push_bit (unat lo mod 64) (push_bit n 1 - 1) :: u64)"
  have msk: "bit msk k \<longleftrightarrow> k < 64 \<and> unat lo mod 64 \<le> k \<and> k < unat lo mod 64 + n" for k
    using n unfolding msk_def by (auto simp: bit_mask_shifted)
  have "(ucast (hi - lo + 1) :: u8) = 64 \<longleftrightarrow> n = 64" "drop_bit 6 lo = drop_bit 6 hi"
    using nb assms(3) by (simp_all add: word_unat_eq_iff unat_drop_bit_6)
  then have "bitmap_flip m bmp lo hi = Inr (xor_word bmp (drop_bit 6 lo) msk m)"
    using assms(1,2) order_trans [OF assms(1,2)] nb
    by (simp add: bitmap_flip_def Let_def unat_and_63_u8 msk_def)
  moreover have "bmp_bit (xor_word bmp (drop_bit 6 lo) msk m) bmp i =
      (bmp_bit m bmp i \<noteq> (unat lo \<le> i \<and> i \<le> unat hi))" if "i < 2 ^ 64" for i
    using that range_in_word [OF assms(3) le, of i]
    by (simp add: bmp_bit_xor_word [OF unat_word_index] unat_drop_bit_6 msk n_def)
  ultimately show ?thesis by blast
qed

lemma bitmap_flip_many_words:
  assumes "lo \<le> hi" "hi \<le> bmp_size bmp" "unat lo div 64 < unat hi div 64"
  shows "\<exists>m'. bitmap_flip m bmp lo hi = Inr m' \<and>
    (\<forall>i < 2 ^ 64. bmp_bit m' bmp i = (bmp_bit m bmp i \<noteq> (unat lo \<le> i \<and> i \<le> unat hi)))"
proof -
  define msk where "msk = (if unat hi mod 64 = 63 then - 1
      else mask (unat hi mod 64 + 1) :: u64)"
  have msk: "bit msk k \<longleftrightarrow> k < 64 \<and> k \<le> unat hi mod 64" for k
    unfolding msk_def by (auto simp: bit_mask_iff)
  define m1 where "m1 = xor_word bmp (drop_bit 6 lo) (push_bit (unat lo mod 64) (- 1)) m"
  define m2 where "m2 = fold (\<lambda>w. xor_word bmp (of_nat w) (- 1))
      [Suc (unat lo div 64)..<unat hi div 64] m1"
  have ne: "drop_bit 6 lo \<noteq> drop_bit 6 hi"
    using assms(3) by (auto simp: word_unat_eq_iff unat_drop_bit_6)
  have "(ucast (hi AND 63) :: u8) = 63 \<longleftrightarrow> unat hi mod 64 = 63"
    by (simp add: word_unat_eq_iff unat_and_63_u8)
  then have flip: "bitmap_flip m bmp lo hi = Inr (xor_word bmp (drop_bit 6 hi) msk m2)"
    using assms(1,2) order_trans [OF assms(1,2)] ne
    by (simp add: bitmap_flip_def Let_def unat_and_63_u8 unat_drop_bit_6 msk_def m1_def m2_def
        mask_eq_exp_minus_1)
  have "bmp_bit (xor_word bmp (drop_bit 6 hi) msk m2) bmp i =
      (bmp_bit m bmp i \<noteq> (unat lo \<le> i \<and> i \<le> unat hi))" if i: "i < 2 ^ 64" for i
  proof -
    have "unat hi div 64 \<le> 2 ^ 58" using unat_word_index [of hi] by (simp add: unat_drop_bit_6)
    then have "bmp_bit m2 bmp i = (bmp_bit m1 bmp i \<noteq>
        (Suc (unat lo div 64) \<le> i div 64 \<and> i div 64 < unat hi div 64))"
      unfolding m2_def using i by (rule fold_xor_words)
    moreover have "bmp_bit m1 bmp i = (bmp_bit m bmp i \<noteq>
        (i div 64 = unat lo div 64 \<and> unat lo mod 64 \<le> i mod 64))"
      unfolding m1_def bmp_bit_xor_word [OF unat_word_index i] bit_ones_shifted unat_drop_bit_6
      by simp
    moreover have "bmp_bit (xor_word bmp (drop_bit 6 hi) msk m2) bmp i =
        (bmp_bit m2 bmp i \<noteq> (i div 64 = unat hi div 64 \<and> i mod 64 \<le> unat hi mod 64))"
      unfolding bmp_bit_xor_word [OF unat_word_index i] msk unat_drop_bit_6 by simp
    moreover have "i div 64 = unat lo div 64 \<Longrightarrow> \<not> Suc (unat lo div 64) \<le> i div 64"
      "i div 64 = unat hi div 64 \<Longrightarrow> \<not> i div 64 < unat hi div 64"
      "i div 64 = unat lo div 64 \<Longrightarrow> i div 64 \<noteq> unat hi div 64"
      using assms(3) by simp_all
    ultimately show ?thesis
      unfolding range_by_words [OF assms(3), of i] Suc_le_eq by argo
  qed
  with flip show ?thesis by blast
qed

text \<open>Every bit between the two indices is inverted and no other bit changes.\<close>

lemma bitmap_flip_bits:
  assumes "lo \<le> hi" "hi \<le> bmp_size bmp"
  shows "\<exists>m'. bitmap_flip m bmp lo hi = Inr m' \<and>
    (\<forall>i < 2 ^ 64. bmp_bit m' bmp i = (bmp_bit m bmp i \<noteq> (unat lo \<le> i \<and> i \<le> unat hi)))"
proof -
  have "unat lo div 64 \<le> unat hi div 64" using assms(1) by (simp add: word_le_nat_alt div_le_mono)
  then show ?thesis
    using assms bitmap_flip_single_word bitmap_flip_many_words by (auto simp: le_less)
qed

section \<open>Searching for a run\<close>

definition run_at :: "memory \<Rightarrow> bitmap_t \<Rightarrow> bool \<Rightarrow> nat \<Rightarrow> nat \<Rightarrow> bool" where
  "run_at m bmp v s n \<longleftrightarrow> (\<forall>j. s \<le> j \<and> j < s + n \<longrightarrow> bmp_bit m bmp j = v)"

text \<open>What one scan promises: the leftmost run in the range, or that there is none.\<close>

definition scan_result :: "memory \<Rightarrow> bitmap_t \<Rightarrow> bool \<Rightarrow> nat \<Rightarrow> nat \<Rightarrow> nat \<Rightarrow> nat option \<Rightarrow> bool" where
  "scan_result m bmp v lo hi n r \<longleftrightarrow>
     (case r of
        None \<Rightarrow> \<forall>s\<ge>lo. s + n \<le> Suc hi \<longrightarrow> \<not> run_at m bmp v s n
      | Some c \<Rightarrow> lo \<le> c \<and> c + n \<le> Suc hi \<and> run_at m bmp v c n \<and>
          (\<forall>s. lo \<le> s \<and> s < c \<longrightarrow> \<not> run_at m bmp v s n))"

lemma run_at_0: "run_at m bmp v s 0"
  by (auto simp: run_at_def)

lemma run_at_extend:
  assumes "run_at m bmp v (i - k) k" "bmp_bit m bmp i = v" "k \<le> i"
  shows "run_at m bmp v (Suc i - Suc k) (Suc k)"
  using assms by (auto simp: run_at_def less_Suc_eq)

lemma bitmap_test_loop_scan:
  assumes "hi < unat (bmp_size bmp)" "0 < n"
    "k \<le> n" "lo + k \<le> i" "i \<le> Suc hi" "run_at m bmp v (i - k) k" "0 < k \<longrightarrow> c = i - k"
    "\<forall>s. lo \<le> s \<and> s < i - k \<longrightarrow> \<not> run_at m bmp v s n"
  shows "\<exists>k' c'. bitmap_test_loop m bmp v hi n i k c = Inr (k', c') \<and>
    scan_result m bmp v lo hi n (if k' = n then Some c' else None)"
  using assms
proof (induction m bmp v hi n i k c rule: bitmap_test_loop.induct)
  case (1 m bmp v hi n i k c)
  note inv = "1.prems"
  show ?case
  proof (cases "i \<le> hi \<and> k < n")
    case False
    then have "bitmap_test_loop m bmp v hi n i k c = Inr (k, c)"
      by (simp only: bitmap_test_loop.simps [of m bmp v hi n i k c] if_False)
    moreover have "scan_result m bmp v lo hi n (if k = n then Some c else None)"
    proof (cases "k = n")
      case False
      with inv \<open>\<not> (i \<le> hi \<and> k < n)\<close> have "i = Suc hi" by simp
      then have "s < i - k" if "s + n \<le> Suc hi" for s using that inv False by simp
      then show ?thesis using inv(8) False by (auto simp: scan_result_def)
    qed (use inv in \<open>auto simp: scan_result_def\<close>)
    ultimately show ?thesis by blast
  next
    case True
    have i: "unat (of_nat i :: u64) = i"
      using True inv(1) unat_u64_less [of "bmp_size bmp"] by (intro unat_of_nat_u64) simp
    then have "of_nat i < bmp_size bmp" using True inv(1) by (simp add: word_less_nat_alt)
    then have get: "bitmap_get m bmp (of_nat i) = Inr (bmp_bit m bmp i)"
      by (simp add: bitmap_get_eq i)
    show ?thesis
    proof (cases "bmp_bit m bmp i = v")
      case eq: True
      then have "run_at m bmp v (Suc i - Suc k) (Suc k)"
        using inv by (intro run_at_extend) auto
      moreover have "bitmap_test_loop m bmp v hi n i k c =
          bitmap_test_loop m bmp v hi n (Suc i) (Suc k) (if k = 0 then i else c)"
        by (simp only: bitmap_test_loop.simps [of m bmp v hi n i k c] True if_True get
            bindR_simps eq simp_thms)
      moreover have "(if k = 0 then i else c) = i - k" using inv(7) by simp
      ultimately show ?thesis using "1.IH"(1) [OF True eq] True inv by simp
    next
      case ne: False
      have "\<not> run_at m bmp v s n" if "lo \<le> s" "s < Suc i" for s
      proof (cases "s < i - k")
        case False
        then have "s \<le> i" "i < s + n" using that True by auto
        then show ?thesis using ne by (auto simp: run_at_def)
      qed (use inv(8) that in blast)
      then show ?thesis
        using "1.IH"(2) [OF True ne] True inv get ne
        by (simp add: bitmap_test_loop.simps [of m bmp v hi n i k c] run_at_0)
    qed
  qed
qed

text \<open>The arguments the five assertions of the search let through.\<close>

definition scan_args :: "bitmap_t \<Rightarrow> u64 \<Rightarrow> u64 \<Rightarrow> u64 \<Rightarrow> bool" where
  "scan_args bmp lo hi n \<longleftrightarrow>
     lo < bmp_size bmp \<and> hi < bmp_size bmp \<and> lo \<le> hi \<and> lo + n - 1 \<le> hi \<and> 0 < n"

lemma bitmap_test_scan:
  assumes "scan_args bmp lo hi n"
  shows "\<exists>r. scan_result m bmp v (unat lo) (unat hi) (unat n) r \<and>
    bitmap_test m bmp v lo hi n = Inr (case r of None \<Rightarrow> - 1 | Some c \<Rightarrow> of_nat c)"
proof -
  have "unat hi < unat (bmp_size bmp)" "0 < unat n" "unat lo \<le> unat hi"
    using assms unfolding scan_args_def word_less_nat_alt word_le_nat_alt by simp_all
  moreover have "\<forall>s. unat lo \<le> s \<and> s < unat lo \<longrightarrow> \<not> run_at m bmp v s (unat n)" by auto
  ultimately obtain k c where loop:
      "bitmap_test_loop m bmp v (unat hi) (unat n) (unat lo) 0 (unat lo) = Inr (k, c)"
    and res: "scan_result m bmp v (unat lo) (unat hi) (unat n) (if k = unat n then Some c else None)"
    using bitmap_test_loop_scan [of "unat hi" bmp "unat n" 0 "unat lo" "unat lo" m v "unat lo"]
    by (auto simp: run_at_0)
  then show ?thesis
    using assms by (intro exI [of _ "if k = unat n then Some c else None"])
      (simp add: bitmap_test_def scan_args_def)
qed

lemma scan_result_bound:
  "scan_result m bmp v (unat lo) (unat hi) n (Some c) \<Longrightarrow> 0 < n \<Longrightarrow> hi < bmp_size bmp \<Longrightarrow>
   c + n \<le> unat (bmp_size bmp) \<and> unat (of_nat c :: u64) = c \<and> (of_nat c :: u64) \<noteq> - 1"
proof -
  assume r: "scan_result m bmp v (unat lo) (unat hi) n (Some c)" and "0 < n" and hi: "hi < bmp_size bmp"
  then have c: "c + n \<le> Suc (unat hi)" "unat hi < unat (bmp_size bmp)"
    by (simp_all add: scan_result_def word_less_nat_alt)
  with \<open>0 < n\<close> have lt: "c < 2 ^ 64 - 1" using unat_u64_less [of "bmp_size bmp"] by simp
  then have u: "unat (of_nat c :: u64) = c" by (intro unat_of_nat_u64) simp
  moreover have "unat (0 - 1 :: u64) = 2 ^ 64 - 1" unfolding unat_sub_if' by simp
  then have "unat (of_nat c :: u64) \<noteq> unat (- 1 :: u64)" using lt u by simp
  ultimately show ?thesis using c by auto
qed

text \<open>The bits after a call: the run found is flipped; with no run, the memory is the old one.\<close>

lemma bitmap_test_and_flip_scan:
  assumes "scan_args bmp lo hi n"
  shows "\<exists>r m'. scan_result m bmp v (unat lo) (unat hi) (unat n) r \<and>
    bitmap_test_and_flip m bmp v lo hi n =
      Inr (case r of None \<Rightarrow> - 1 | Some c \<Rightarrow> of_nat c, m') \<and>
    (case r of None \<Rightarrow> m' = m
     | Some c \<Rightarrow> \<forall>i < 2 ^ 64. bmp_bit m' bmp i = (bmp_bit m bmp i \<noteq> (c \<le> i \<and> i < c + unat n)))"
proof -
  obtain r where res: "scan_result m bmp v (unat lo) (unat hi) (unat n) r"
    and test: "bitmap_test m bmp v lo hi n = Inr (case r of None \<Rightarrow> - 1 | Some c \<Rightarrow> of_nat c)"
    using bitmap_test_scan [OF assms] by blast
  note args = assms [unfolded scan_args_def]
  show ?thesis
  proof (cases r)
    case None
    then show ?thesis
      using res test args
      by (intro exI [of _ None] exI [of _ m]) (simp add: bitmap_test_and_flip_def)
  next
    case (Some c)
    have n: "0 < unat n" using args by (simp add: word_less_nat_alt)
    then have b: "c + unat n \<le> unat (bmp_size bmp)" "unat (of_nat c :: u64) = c"
      "(of_nat c :: u64) \<noteq> - 1"
      using scan_result_bound [of m bmp v lo hi "unat n" c] res args Some by simp_all
    define e where "e = (of_nat c + n - 1 :: u64)"
    have "e = of_nat (c + unat n - 1)"
      using n by (simp add: e_def of_nat_diff)
    then have e: "unat e = c + unat n - 1"
      using b unat_u64_less [of "bmp_size bmp"] by (simp only:) (intro unat_of_nat_u64, simp)
    then have "of_nat c \<le> e" "e \<le> bmp_size bmp"
      using b n unfolding word_le_nat_alt by simp_all
    then obtain m' where flip: "bitmap_flip m bmp (of_nat c) e = Inr m'"
      and bits: "\<forall>i < 2 ^ 64. bmp_bit m' bmp i = (bmp_bit m bmp i \<noteq> (c \<le> i \<and> i \<le> unat e))"
      using bitmap_flip_bits [of "of_nat c" e bmp m] b by auto
    have "i \<le> unat e \<longleftrightarrow> i < c + unat n" for i using e n by auto
    then show ?thesis
      using res test args Some b flip bits
      by (intro exI [of _ "Some c"] exI [of _ m'])
        (simp add: bitmap_test_and_flip_def e_def [symmetric])
  qed
qed

section \<open>What the operations leave alone\<close>

lemma xor_word_outside:
  assumes "unat idx \<le> k" "k < 2 ^ 58" "8 * k + 8 \<le> unat (x - bmp_buf bmp)"
  shows "xor_word bmp idx msk m x = m x"
  unfolding xor_word_def by (rule store64_word_outside [of idx "8 * k + 8"]) (use assms in auto)

lemma fold_xor_words_outside:
  assumes "b \<le> k" "k < 2 ^ 58" "8 * k + 8 \<le> unat (x - bmp_buf bmp)"
  shows "fold (\<lambda>w. xor_word bmp (of_nat w) msk) [a..<b] m x = m x"
  using assms(1)
proof (induction b)
  case (Suc b)
  then have "unat (of_nat b :: u64) = b" using assms(2) by (intro unat_of_nat_u64) simp
  with Suc assms(2,3) show ?case
    by (cases "a \<le> b") (simp_all add: xor_word_outside [of _ k])
qed simp

lemma bitmap_flip_outside:
  assumes "bitmap_flip m bmp lo hi = Inr m'" "hi < bmp_size bmp"
    "bmp_extent bmp \<le> unat (x - bmp_buf bmp)"
  shows "m' x = m x"
proof -
  define k where "k = unat hi div 64"
  have le: "lo \<le> hi" using assms(1) by (simp add: bitmap_flip_def ASSERT_eq_Inr)
  then have lo: "unat (drop_bit 6 lo) \<le> k"
    by (simp add: k_def unat_drop_bit_6 word_le_nat_alt div_le_mono)
  have hi: "unat (drop_bit 6 hi) = k" "k < 2 ^ 58"
    using unat_word_index [of hi] by (simp_all add: k_def unat_drop_bit_6)
  have x: "8 * k + 8 \<le> unat (x - bmp_buf bmp)"
  proof -
    have "unat hi < unat (bmp_size bmp)" using assms(2) by (simp add: word_less_nat_alt)
    then have "k + 1 \<le> (unat (bmp_size bmp) + 63) div 64" unfolding k_def by linarith
    then show ?thesis using assms(3) by (simp add: bmp_extent_def)
  qed
  note out = xor_word_outside [OF _ hi(2) x] fold_xor_words_outside [OF _ hi(2) x]
  show ?thesis
    using assms(1) lo hi(1)
    by (auto simp: bitmap_flip_def ASSERT_eq_Inr Let_def out split: if_splits)
qed

lemma bitmap_test_and_flip_outside:
  assumes "bitmap_test_and_flip m bmp v lo hi n = Inr (r, m')"
    "bmp_extent bmp \<le> unat (x - bmp_buf bmp)"
  shows "m' x = m x"
proof -
  have args: "scan_args bmp lo hi n"
    using assms(1) by (auto simp: bitmap_test_and_flip_def ASSERT_eq_Inr scan_args_def)
  obtain q where res: "scan_result m bmp v (unat lo) (unat hi) (unat n) q"
    and test: "bitmap_test m bmp v lo hi n = Inr (case q of None \<Rightarrow> - 1 | Some c \<Rightarrow> of_nat c)"
    using bitmap_test_scan [OF args] by blast
  show ?thesis
  proof (cases q)
    case None
    then show ?thesis using assms(1) test by (simp add: bitmap_test_and_flip_def ASSERT_eq_Inr)
  next
    case (Some c)
    have n: "0 < unat n" "hi < bmp_size bmp" using args by (simp_all add: scan_args_def word_less_nat_alt)
    then have b: "c + unat n \<le> unat (bmp_size bmp)" "(of_nat c :: u64) \<noteq> - 1"
      using scan_result_bound [of m bmp v lo hi "unat n" c] res Some by simp_all
    have "(of_nat c + n - 1 :: u64) = of_nat (c + unat n - 1)" using n by (simp add: of_nat_diff)
    moreover have "unat (of_nat (c + unat n - 1) :: u64) = c + unat n - 1"
      using b unat_u64_less [of "bmp_size bmp"] by (intro unat_of_nat_u64) simp
    ultimately have "of_nat c + n - 1 < bmp_size bmp" using b n by (simp only: word_less_nat_alt)
    moreover have "bitmap_flip m bmp (of_nat c) (of_nat c + n - 1) = Inr m'"
      using assms(1) test Some b
      by (auto simp: bitmap_test_and_flip_def ASSERT_eq_Inr bindR_eq_Inr)
    ultimately show ?thesis using assms(2) by (intro bitmap_flip_outside)
  qed
qed

section \<open>First-fit allocation of runs\<close>

text \<open>
  What the page allocator relies on: a store of taken slots from which runs are taken. The locale
  states the contract of one call; the lemmas say what follows for any sequence of calls.
\<close>

locale run_allocator =
  fixes taken :: "'s \<Rightarrow> nat \<Rightarrow> bool"
    and limit :: nat
    and alloc :: "u64 \<Rightarrow> 's \<Rightarrow> (nat option \<times> 's) outcome"
  assumes alloc_hangs: "n = 0 \<or> limit < unat n \<Longrightarrow> alloc n s = Inl Assertion_hang"
    and alloc_returns: "n \<noteq> 0 \<Longrightarrow> unat n \<le> limit \<Longrightarrow> \<exists>r s'. alloc n s = Inr (r, s')"
    and alloc_None: "alloc n s = Inr (None, s') \<Longrightarrow>
      s' = s \<and> (\<forall>c. c + unat n \<le> limit \<longrightarrow> (\<exists>j. c \<le> j \<and> j < c + unat n \<and> taken s j))"
    and alloc_Some: "alloc n s = Inr (Some c, s') \<Longrightarrow>
      c + unat n \<le> limit \<and> (\<forall>j. c \<le> j \<and> j < c + unat n \<longrightarrow> \<not> taken s j) \<and>
      (\<forall>j<limit. taken s' j \<longleftrightarrow> taken s j \<or> c \<le> j \<and> j < c + unat n)"
begin

primrec alloc_seq :: "u64 list \<Rightarrow> 's \<Rightarrow> (nat set list \<times> 's) outcome" where
  "alloc_seq [] s = Inr ([], s)"
| "alloc_seq (n # ns) s = bindR (alloc n s) (\<lambda>(r, s').
     bindR (alloc_seq ns s') (\<lambda>(rs, s'').
       Inr ((case r of None \<Rightarrow> rs | Some c \<Rightarrow> {c..<c + unat n} # rs), s'')))"

lemma alloc_seq_sound:
  assumes "alloc_seq ns s = Inr (rs, s')"
  shows "\<Union> (set rs) \<subseteq> {..<limit} \<and> (\<forall>R \<in> set rs. \<forall>j \<in> R. \<not> taken s j) \<and>
    (\<forall>j<limit. taken s' j \<longleftrightarrow> taken s j \<or> j \<in> \<Union> (set rs)) \<and>
    (\<forall>a b. a < b \<longrightarrow> b < length rs \<longrightarrow> rs ! a \<inter> rs ! b = {})"
  using assms
proof (induction ns arbitrary: s rs)
  case (Cons n ns)
  obtain r s1 where a: "alloc n s = Inr (r, s1)"
    using Cons.prems by (cases "alloc n s") auto
  obtain rs1 where as: "alloc_seq ns s1 = Inr (rs1, s')"
    and rs: "rs = (case r of None \<Rightarrow> rs1 | Some c \<Rightarrow> {c..<c + unat n} # rs1)"
    using Cons.prems a by (auto simp: bindR_eq_Inr)
  note IH = Cons.IH [OF as]
  show ?case
  proof (cases r)
    case None
    then show ?thesis using IH alloc_None [of n s s1] a rs by simp
  next
    case (Some c)
    then have A: "c + unat n \<le> limit" "\<forall>j. c \<le> j \<and> j < c + unat n \<longrightarrow> \<not> taken s j"
      "\<forall>j<limit. taken s1 j \<longleftrightarrow> taken s j \<or> c \<le> j \<and> j < c + unat n"
      using alloc_Some [of n s c s1] a by simp_all
    let ?R = "{c..<c + unat n}"
    have "\<not> taken s1 j" "j < limit" if "R \<in> set rs1" "j \<in> R" for R j
      using IH that by auto
    then have fresh: "?R \<inter> R = {}" "\<forall>j \<in> R. \<not> taken s j" if "R \<in> set rs1" for R
      using that A(3) by auto
    have "({c..<c + unat n} # rs1) ! a \<inter> (?R # rs1) ! b = {}"
      if "a < b" "b < Suc (length rs1)" for a b
      using that IH fresh(1) by (cases a; cases b) auto
    moreover have "\<Union> (set rs1) \<subseteq> {..<limit}" using IH by simp
    then have "\<Union> (set (?R # rs1)) \<subseteq> {..<limit}" using A(1) by auto
    moreover have "taken s' j \<longleftrightarrow> taken s j \<or> j \<in> \<Union> (set (?R # rs1))" if "j < limit" for j
      using IH A(3) that by auto
    ultimately show ?thesis using A(2) fresh(2) rs Some by auto
  qed
qed simp

lemma alloc_seq_returns:
  "if \<forall>n \<in> set ns. n \<noteq> 0 \<and> unat n \<le> limit then \<exists>rs s'. alloc_seq ns s = Inr (rs, s') else alloc_seq ns s = Inl Assertion_hang"
proof (induction ns arbitrary: s)
  case (Cons n ns)
  show ?case
  proof (cases "n \<noteq> 0 \<and> unat n \<le> limit")
    case True
    then obtain r s1 where "alloc n s = Inr (r, s1)" using alloc_returns by blast
    then show ?thesis using Cons.IH [of s1] True by (auto split: if_splits)
  next
    case False
    then show ?thesis using alloc_hangs [of n s] by auto
  qed
qed simp

end

text \<open>An allocator that takes the first run that fits: a single index is the least that is free.\<close>

locale first_fit = run_allocator +
  assumes alloc_first: "alloc n s = Inr (Some c, s') \<Longrightarrow> d < c \<Longrightarrow> \<exists>j. d \<le> j \<and> j < d + unat n \<and> taken s j"
begin

lemma alloc_one_least: "alloc 1 s = Inr (Some c, s') \<Longrightarrow> \<not> taken s j \<Longrightarrow> c \<le> j"
  using alloc_first [of 1 s c s' j] by (cases "j < c") (auto simp: le_less_Suc_eq)

end

text \<open>The call \<^verbatim>\<open>paging_get_pages\<close> makes: any run of clear bits of the whole bitmap.\<close>

definition alloc_run :: "bitmap_t \<Rightarrow> u64 \<Rightarrow> memory \<Rightarrow> (nat option \<times> memory) outcome" where
  "alloc_run bmp n m =
     bindR (bitmap_test_and_flip m bmp False 0 (bmp_size bmp - 1) n)
       (\<lambda>(r, m'). Inr (if r = - 1 then None else Some (unat r), m'))"

lemma scan_args_whole:
  "scan_args bmp 0 (bmp_size bmp - 1) n \<longleftrightarrow> n \<noteq> 0 \<and> unat n \<le> unat (bmp_size bmp)"
proof (cases "bmp_size bmp = 0")
  case False
  then have "unat (bmp_size bmp - 1) = unat (bmp_size bmp) - 1" "0 < unat (bmp_size bmp)"
    by (simp_all add: unat_minus_one word_neq_0_conv word_less_nat_alt)
  moreover have "n \<noteq> 0 \<Longrightarrow> unat (n - 1) = unat n - 1 \<and> 0 < unat n"
    by (simp add: unat_minus_one word_neq_0_conv word_less_nat_alt)
  ultimately show ?thesis
    by (cases "n = 0") (auto simp: scan_args_def word_less_nat_alt word_le_nat_alt)
qed (auto simp: scan_args_def unat_eq_0)

lemma alloc_run_scan:
  assumes "n \<noteq> 0" "unat n \<le> unat (bmp_size bmp)"
  shows "\<exists>r m'. alloc_run bmp n m = Inr (r, m') \<and>
    scan_result m bmp False 0 (unat (bmp_size bmp) - 1) (unat n) r \<and>
    (case r of None \<Rightarrow> m' = m
     | Some c \<Rightarrow> \<forall>i < 2 ^ 64. bmp_bit m' bmp i = (bmp_bit m bmp i \<noteq> (c \<le> i \<and> i < c + unat n)))"
proof -
  have args: "scan_args bmp 0 (bmp_size bmp - 1) n" using assms by (simp add: scan_args_whole)
  have "bmp_size bmp \<noteq> 0" using assms by (auto simp: unat_eq_0)
  then have hi: "unat (bmp_size bmp - 1) = unat (bmp_size bmp) - 1" by (simp add: unat_minus_one)
  obtain r m' where res: "scan_result m bmp False 0 (unat (bmp_size bmp) - 1) (unat n) r"
    and call: "bitmap_test_and_flip m bmp False 0 (bmp_size bmp - 1) n =
      Inr (case r of None \<Rightarrow> - 1 | Some c \<Rightarrow> of_nat c, m')"
    and bits: "case r of None \<Rightarrow> m' = m
      | Some c \<Rightarrow> \<forall>i < 2 ^ 64. bmp_bit m' bmp i = (bmp_bit m bmp i \<noteq> (c \<le> i \<and> i < c + unat n))"
    using bitmap_test_and_flip_scan [OF args, of m False] unfolding hi unat_0 by blast
  have "alloc_run bmp n m = Inr (r, m')"
  proof (cases r)
    case (Some c)
    then have "unat (of_nat c :: u64) = c" "(of_nat c :: u64) \<noteq> - 1"
      using scan_result_bound [of m bmp False 0 "bmp_size bmp - 1" "unat n" c] res args
      by (simp_all add: hi scan_args_def word_less_nat_alt)
    then show ?thesis using call Some by (simp add: alloc_run_def)
  qed (use call in \<open>simp add: alloc_run_def\<close>)
  then show ?thesis using res bits by blast
qed

lemma alloc_run_args:
  assumes "alloc_run bmp n m = Inr x"
  shows "n \<noteq> 0" "unat n \<le> unat (bmp_size bmp)"
    "Suc (unat (bmp_size bmp) - 1) = unat (bmp_size bmp)"
proof -
  have "scan_args bmp 0 (bmp_size bmp - 1) n"
    using assms
    by (auto simp: alloc_run_def bindR_eq_Inr bitmap_test_and_flip_def ASSERT_eq_Inr scan_args_def)
  then show "n \<noteq> 0" "unat n \<le> unat (bmp_size bmp)" by (simp_all add: scan_args_whole)
  then show "Suc (unat (bmp_size bmp) - 1) = unat (bmp_size bmp)"
    by (metis Suc_pred' le_zero_eq neq0_conv unat_eq_zero diff_Suc_1 Suc_diff_1)
qed

interpretation bitmap_runs: first_fit
  "\<lambda>m. bmp_bit m bmp" "unat (bmp_size bmp)" "alloc_run bmp" for bmp
proof (unfold_locales, goal_cases)
  case (1 n s)
  then have "\<not> scan_args bmp 0 (bmp_size bmp - 1) n" by (auto simp: scan_args_whole)
  then show ?case
    by (auto simp: alloc_run_def bitmap_test_and_flip_def scan_args_def ASSERT_def)
next
  case (2 n s)
  then show ?case using alloc_run_scan by blast
next
  case (3 n s s')
  note n = alloc_run_args [OF this]
  then show ?case
    using 3 alloc_run_scan [of n bmp s] by (auto simp: scan_result_def run_at_def)
next
  case (4 n s c s')
  note n = alloc_run_args [OF this]
  moreover have "j < unat (bmp_size bmp) \<Longrightarrow> j < 2 ^ 64" for j
    using unat_u64_less [of "bmp_size bmp"] by simp
  ultimately show ?case
    using 4 alloc_run_scan [of n bmp s] by (fastforce simp: scan_result_def run_at_def)
next
  case (5 n s c s' d)
  note n = alloc_run_args [OF this(1)]
  then show ?case
    using 5 alloc_run_scan [of n bmp s] by (auto simp: scan_result_def run_at_def)
qed

text \<open>Clearing whole bytes of a bitmap.\<close>

lemma memset_bits:
  assumes "j < 2 ^ 64"
  shows "bmp_bit (memset m (bmp_buf bmp) 0 (n div 8)) bmp j \<longleftrightarrow> bmp_bit m bmp j \<and> 8 * (unat n div 8) \<le> j"
proof -
  have "unat (of_nat (j div 8) :: u64) < unat (n div 8) \<longleftrightarrow> j < 8 * (unat n div 8)"
    using assms by (subst unat_of_nat_u64) (auto simp: unat_div)
  then show ?thesis by (auto simp: bmp_bit_def memset_apply)
qed

text \<open>\<^verbatim>\<open>bitmap_init_buf\<close> hangs on a null buffer; otherwise it clears the bits of the whole
  bytes the bitmap covers and leaves the last \<^verbatim>\<open>num_idx % 8\<close> bits of the bitmap as the buffer
  had them.\<close>

lemma bitmap_init_buf_clears_whole_bytes:
  "bitmap_init_buf m NULL n = Inl Assertion_hang \<and>
   (buf = NULL \<or> (\<exists>m'. bitmap_init_buf m buf n = Inr (\<lparr>bmp_buf = buf, bmp_size = n\<rparr>, m') \<and>
      (\<forall>i < 2 ^ 64. bmp_bit m' \<lparr>bmp_buf = buf, bmp_size = n\<rparr> i =
         (bmp_bit m \<lparr>bmp_buf = buf, bmp_size = n\<rparr> i \<and> 8 * (unat n div 8) \<le> i))))"
  using memset_bits [of _ m "\<lparr>bmp_buf = buf, bmp_size = n\<rparr>" n]
  by (cases "buf = NULL") (auto simp: bitmap_init_buf_def)

section \<open>Properties\<close>

text \<open>C19: \<^verbatim>\<open>bitmap_flip\<close> between any two indices of the bitmap returns, inverts every bit from
  the first to the last index inclusive, whether they share a word or span several, and changes
  no other bit.\<close>

theorem bitmap_flip_inverts_range:
  assumes "lo \<le> hi" "hi < bmp_size bmp"
  shows "\<exists>m'. bitmap_flip m bmp lo hi = Inr m' \<and>
    (\<forall>i < 2 ^ 64. bmp_bit m' bmp i = (bmp_bit m bmp i \<noteq> (unat lo \<le> i \<and> i \<le> unat hi))) \<and>
    (\<forall>x. bmp_extent bmp \<le> unat (x - bmp_buf bmp) \<longrightarrow> m' x = m x)"
proof -
  obtain m' where "bitmap_flip m bmp lo hi = Inr m'"
    and "\<forall>i < 2 ^ 64. bmp_bit m' bmp i = (bmp_bit m bmp i \<noteq> (unat lo \<le> i \<and> i \<le> unat hi))"
    using bitmap_flip_bits [OF assms(1) less_imp_le [OF assms(2)]] by blast
  then show ?thesis using bitmap_flip_outside [OF _ assms(2)] by blast
qed

theorem bitmap_flip_inverts_range_witness:
  "\<exists>m'. bitmap_flip (\<lambda>_. 0xAA) \<lparr>bmp_buf = 0x1000, bmp_size = 160\<rparr> 4 130 = Inr m' \<and>
    (\<forall>i < 2 ^ 64. bmp_bit m' \<lparr>bmp_buf = 0x1000, bmp_size = 160\<rparr> i =
       (bmp_bit (\<lambda>_. 0xAA) \<lparr>bmp_buf = 0x1000, bmp_size = 160\<rparr> i \<noteq> (4 \<le> i \<and> i \<le> 130)))"
  using bitmap_flip_inverts_range [of 4 130 "\<lparr>bmp_buf = 0x1000, bmp_size = 160\<rparr>" "\<lambda>_. 0xAA"]
  by auto

text \<open>C20: For every argument the assertions admit, \<^verbatim>\<open>bitmap_test\<close> returns: the index of the
  leftmost run of the wanted length inside the range, or -1 when the range holds no such run.\<close>

theorem bitmap_test_leftmost_run:
  assumes "scan_args bmp lo hi n"
  shows "\<exists>r. bitmap_test m bmp v lo hi n = Inr (case r of None \<Rightarrow> - 1 | Some c \<Rightarrow> of_nat c) \<and>
    scan_result m bmp v (unat lo) (unat hi) (unat n) r"
  using bitmap_test_scan [OF assms] by blast

theorem bitmap_test_leftmost_run_witness:
  "\<exists>r. bitmap_test (\<lambda>_. 0xAA) \<lparr>bmp_buf = 0x1000, bmp_size = 160\<rparr> True 3 159 2 =
      Inr (case r of None \<Rightarrow> - 1 | Some c \<Rightarrow> of_nat c) \<and>
    scan_result (\<lambda>_. 0xAA) \<lparr>bmp_buf = 0x1000, bmp_size = 160\<rparr> True 3 159 2 r"
  using bitmap_test_leftmost_run [of "\<lparr>bmp_buf = 0x1000, bmp_size = 160\<rparr>" 3 159 2 "\<lambda>_. 0xAA" True]
  by (simp add: scan_args_def)



text \<open>C22: \<^verbatim>\<open>bitmap_set\<close> stores the value at an index whose offset in its 64-bit word is below 31
  (or is 31 and the value is false): it returns, \<^verbatim>\<open>bitmap_get\<close> then reads that value back, and
  every other bit reads as before.\<close>

theorem bitmap_set_then_get:
  assumes "i < bmp_size bmp" "unat i mod 64 < 31 \<or> unat i mod 64 = 31 \<and> \<not> v"
  shows "\<exists>m'. bitmap_set m bmp i v = Inr m' \<and>
    (\<forall>j < bmp_size bmp. bitmap_get m' bmp j = (if j = i then Inr v else bitmap_get m bmp j))"
proof -
  have lt: "unat i mod 64 < 32" using assms(2) by auto
  obtain m' where m': "bitmap_set m bmp i v = Inr m'"
    using bitmap_set_eq [OF assms(1) lt] by (simp add: Let_def)
  have "bmp_bit m' bmp (unat j) = (if j = i then v else bmp_bit m bmp (unat j))" for j
    using bitmap_set_bits [OF assms(1) lt m' unat_u64_less, of j] assms(2)
    by (auto simp: word_unat_eq_iff)
  with m' show ?thesis by (simp add: bitmap_get_eq)
qed

theorem bitmap_set_then_get_witness:
  "\<exists>m'. bitmap_set (\<lambda>_. 0) \<lparr>bmp_buf = 0x1000, bmp_size = 160\<rparr> 94 True = Inr m' \<and>
    (\<forall>j < bmp_size \<lparr>bmp_buf = 0x1000, bmp_size = 160\<rparr>.
       bitmap_get m' \<lparr>bmp_buf = 0x1000, bmp_size = 160\<rparr> j =
       (if j = 94 then Inr True else bitmap_get (\<lambda>_. 0) \<lparr>bmp_buf = 0x1000, bmp_size = 160\<rparr> j))"
  using bitmap_set_then_get [of 94 "\<lparr>bmp_buf = 0x1000, bmp_size = 160\<rparr>" True "\<lambda>_. 0"] by simp

text \<open>C23: The upper half of every word is out of reach of \<^verbatim>\<open>bitmap_set\<close>: from offset 32 on its
  32-bit shift is undefined, whatever the value, and setting the bit at offset 31 sets all of
  the bits 31 to 63 of that word through sign extension.\<close>

theorem bitmap_set_upper_half:
  assumes "i < bmp_size bmp"
  shows "(32 \<le> unat i mod 64 \<longrightarrow> bitmap_set m bmp i v = Inl Undefined_shift) \<and>
    (unat i mod 64 = 31 \<longrightarrow> (\<exists>m'. bitmap_set m bmp i True = Inr m' \<and>
       (\<forall>j < 2 ^ 64. bmp_bit m' bmp j =
          (bmp_bit m bmp j \<or> j div 64 = unat i div 64 \<and> 31 \<le> j mod 64))))"
proof (intro conjI impI)
  assume "unat i mod 64 = 31"
  then have lt: "unat i mod 64 < 32" and "unat i mod 64 = 31" by simp_all
  moreover obtain m' where m': "bitmap_set m bmp i True = Inr m'"
    using bitmap_set_eq [OF assms lt] by (simp add: Let_def)
  ultimately show "\<exists>m'. bitmap_set m bmp i True = Inr m' \<and> (\<forall>j < 2 ^ 64. bmp_bit m' bmp j =
      (bmp_bit m bmp j \<or> j div 64 = unat i div 64 \<and> 31 \<le> j mod 64))"
    using bitmap_set_bits [OF assms lt m'] by auto
qed (rule bitmap_set_undefined [OF assms])

theorem bitmap_set_upper_half_witness:
  "bitmap_set (\<lambda>_. 0) \<lparr>bmp_buf = 0x1000, bmp_size = 160\<rparr> 40 True = Inl Undefined_shift \<and>
   (\<exists>m'. bitmap_set (\<lambda>_. 0) \<lparr>bmp_buf = 0x1000, bmp_size = 160\<rparr> 31 True = Inr m' \<and>
      bmp_bit m' \<lparr>bmp_buf = 0x1000, bmp_size = 160\<rparr> 63)"
  using bitmap_set_upper_half [of 40 "\<lparr>bmp_buf = 0x1000, bmp_size = 160\<rparr>" "\<lambda>_. 0" True]
    bitmap_set_upper_half [of 31 "\<lparr>bmp_buf = 0x1000, bmp_size = 160\<rparr>" "\<lambda>_. 0" True]
  by auto

end
