(* ===== verification/Multiboot.thy ===== *)
theory Multiboot
  imports Prelude
begin

text \<open>
  The walk over the boot information of \<^verbatim>\<open>src/kernel/drivers/multiboot_parser.c\<close>, with the tag
  layouts of \<^verbatim>\<open>src/lib/multiboot2.h\<close>: type at offset 0, size at 4, the next tag 8-byte aligned.
  The loop is a partial function: on a malformed chain it runs for ever.
\<close>

section \<open>Definitions\<close>

abbreviation MULTIBOOT_TAG_TYPE_END :: u32 where "MULTIBOOT_TAG_TYPE_END \<equiv> 0"
abbreviation MULTIBOOT_TAG_TYPE_BASIC_MEMINFO :: u32 where "MULTIBOOT_TAG_TYPE_BASIC_MEMINFO \<equiv> 4"
abbreviation MULTIBOOT_TAG_TYPE_MMAP :: u32 where "MULTIBOOT_TAG_TYPE_MMAP \<equiv> 6"
abbreviation MULTIBOOT_MEMORY_AVAILABLE :: u32 where "MULTIBOOT_MEMORY_AVAILABLE \<equiv> 1"
abbreviation (input) MULTIBOOT2_BOOTLOADER_MAGIC :: u32 where "MULTIBOOT2_BOOTLOADER_MAGIC \<equiv> 0x36D76289"

text \<open>\<^verbatim>\<open>struct multiboot_tag\<close>, \<^verbatim>\<open>struct multiboot_tag_mmap\<close>, \<^verbatim>\<open>struct multiboot_mmap_entry\<close>.\<close>

definition tag_type :: "memory \<Rightarrow> addr \<Rightarrow> u32" where
  "tag_type m t = load32 m t"

definition tag_size :: "memory \<Rightarrow> addr \<Rightarrow> u32" where
  "tag_size m t = load32 m (t + 4)"

definition mmap_tag_entry_size :: "memory \<Rightarrow> addr \<Rightarrow> u32" where
  "mmap_tag_entry_size m t = load32 m (t + 8)"

definition mmap_tag_entries :: "addr \<Rightarrow> addr" where
  "mmap_tag_entries t = t + 16"

record mmap_entry =
  entry_addr :: u64
  entry_len :: u64
  entry_type :: u32
  entry_zero :: u32

definition load_mmap_entry :: "memory \<Rightarrow> addr \<Rightarrow> mmap_entry" where
  "load_mmap_entry m a =
     \<lparr>entry_addr = load64 m a, entry_len = load64 m (a + 8), entry_type = load32 m (a + 16),
      entry_zero = load32 m (a + 20)\<rparr>"

definition store_mmap_entry :: "memory \<Rightarrow> addr \<Rightarrow> mmap_entry \<Rightarrow> memory" where
  "store_mmap_entry m a e =
     store32 (store32 (store64 (store64 m a (entry_addr e)) (a + 8) (entry_len e)) (a + 16) (entry_type e))
       (a + 20) (entry_zero e)"

definition next_tag :: "memory \<Rightarrow> addr \<Rightarrow> addr" where
  "next_tag m t = (t + ucast (tag_size m t) + 7) AND NOT 7"

partial_function (option) tag_loop :: "memory \<Rightarrow> u32 \<Rightarrow> addr \<Rightarrow> addr option" where
  "tag_loop m ty t =
     (if tag_type m t \<noteq> 0 then
        (if tag_type m t = ty then Some t else tag_loop m ty (next_tag m t))
      else Some NULL)"

definition multiboot_get_tag :: "memory \<Rightarrow> u32 \<Rightarrow> u32 \<Rightarrow> addr outcome" where
  "multiboot_get_tag m mboot_tags ty = of_loop (tag_loop m ty (ucast mboot_tags + 8))"

section \<open>Entries in memory\<close>

text \<open>The bytes an entry occupies, and the entry back from them.\<close>

lemma store_mmap_entry_outside:
  assumes "24 \<le> unat (x - a)"
  shows "store_mmap_entry m a e x = m x"
proof -
  have out: "store_le k m' (a + of_nat i) v x = m' x" if "i + k \<le> 24" for k m' i and v :: "'a::len word"
    using that assms by (intro store_le_offset_outside [where n = 24]) auto
  note outs = out [of 0 8, simplified] out [of 8 8, simplified] out [of 16 4, simplified] out [of 20 4, simplified]
  show ?thesis by (simp add: store_mmap_entry_def store64_def store32_def outs)
qed

lemma load_store_entry: "load_mmap_entry (store_mmap_entry m a e) a = e"
proof -
  have skip: "(load_le n (store_le k m' (a + of_nat i) v) (a + of_nat j) :: 'b::len word) = load_le n m' (a + of_nat j)"
    if "i + k \<le> j \<or> j + n \<le> i" "i + k \<le> 24" "j + n \<le> 24" for n k m' i j and v :: "'a::len word"
    using that by (intro load_store_offsets) auto
  have same: "load_le 8 (store_le 8 m' b v) b = v" for m' b and v :: u64
    by (rule load_store_same) simp_all
  have same4: "load_le 4 (store_le 4 m' b v) b = v" for m' b and v :: u32
    by (rule load_store_same) simp_all
  note skips = skip [of 8 8 0 8, simplified] skip [of 16 4 0 8, simplified] skip [of 20 4 0 8, simplified]
    skip [of 16 4 8 8, simplified] skip [of 20 4 8 8, simplified] skip [of 20 4 16 4, simplified]
  show ?thesis
    by (simp add: load_mmap_entry_def store_mmap_entry_def store64_def store32_def load64_def load32_def same same4 skips)
qed

section \<open>Chains of tags\<close>

text \<open>The addresses of the tags before the end tag.\<close>

primrec tag_chain :: "memory \<Rightarrow> addr \<Rightarrow> addr list \<Rightarrow> bool" where
  "tag_chain m t [] \<longleftrightarrow> tag_type m t = 0"
| "tag_chain m t (a # as) \<longleftrightarrow> a = t \<and> tag_type m t \<noteq> 0 \<and> tag_chain m (next_tag m t) as"

lemma tag_loop_chain:
  "tag_chain m t as \<Longrightarrow> tag_loop m ty t =
     Some (case filter (\<lambda>a. tag_type m a = ty) as of [] \<Rightarrow> NULL | a # _ \<Rightarrow> a)"
proof (induction as arbitrary: t)
  case Nil
  then show ?case by (simp add: tag_loop.simps)
next
  case (Cons a as)
  then show ?case by (subst tag_loop.simps) simp
qed

text \<open>The walk from one tag to another, over tags that are neither the end nor of the type asked for.\<close>

definition passed_over :: "memory \<Rightarrow> u32 \<Rightarrow> addr \<Rightarrow> bool" where
  "passed_over m ty t \<longleftrightarrow> tag_type m t \<noteq> 0 \<and> tag_type m t \<noteq> ty"

inductive tag_path :: "memory \<Rightarrow> u32 \<Rightarrow> addr \<Rightarrow> addr \<Rightarrow> bool" for m ty where
  path_refl: "tag_path m ty t t"
| path_step: "passed_over m ty t \<Longrightarrow> tag_path m ty (next_tag m t) u \<Longrightarrow> tag_path m ty t u"

lemma tag_path_snoc: "tag_path m ty t u \<Longrightarrow> passed_over m ty u \<Longrightarrow> tag_path m ty t (next_tag m u)"
  by (induction rule: tag_path.induct) (auto intro: tag_path.intros)

lemma tag_loop_path: "tag_path m ty t u \<Longrightarrow> tag_loop m ty t = tag_loop m ty u"
  by (induction rule: tag_path.induct) (simp_all add: tag_loop.simps passed_over_def)

text \<open>A tag to which the walk comes back; the tag behind it is one as well.\<close>

definition on_cycle :: "memory \<Rightarrow> u32 \<Rightarrow> addr \<Rightarrow> bool" where
  "on_cycle m ty t \<longleftrightarrow> passed_over m ty t \<and> tag_path m ty (next_tag m t) t"

lemma on_cycle_next:
  assumes "on_cycle m ty t"
  shows "on_cycle m ty (next_tag m t)"
proof -
  have t: "passed_over m ty t" "tag_path m ty (next_tag m t) t" using assms by (simp_all add: on_cycle_def)
  from t(2) show ?thesis
  proof cases
    case path_refl
    then show ?thesis using assms by simp
  next
    case path_step
    then show ?thesis using t(1) tag_path_snoc by (auto simp: on_cycle_def)
  qed
qed

lemma tag_loop_cycle:
  assumes "on_cycle m ty t"
  shows "tag_loop m ty t = None"
proof -
  have "\<not> on_cycle m ty t" if "tag_loop m ty t = Some r" for r
    using that
  proof (rule tag_loop.raw_induct [where P = "\<lambda>m ty t r. \<not> on_cycle m ty t", rotated])
    fix loop m ty t r
    assume IH: "\<And>m ty t y. loop m ty t = Some y \<Longrightarrow> \<not> on_cycle m ty t"
      and body: "(if tag_type m t \<noteq> 0 then if tag_type m t = ty then Some t else loop m ty (next_tag m t)
        else Some NULL) = Some r"
    show "\<not> on_cycle m ty t"
    proof
      assume c: "on_cycle m ty t"
      then have "loop m ty (next_tag m t) = Some r" using body by (simp add: on_cycle_def passed_over_def)
      then show False using IH on_cycle_next [OF c] by blast
    qed
  qed
  then show ?thesis using assms by (cases "tag_loop m ty t") auto
qed

text \<open>There are finitely many addresses, so a walk that does not end comes back to some tag.\<close>

lemma tag_loop_endless_cycle:
  assumes "tag_loop m ty t = None"
  shows "\<exists>u. tag_path m ty t u \<and> on_cycle m ty u"
proof -
  define at where "at k = (next_tag m ^^ k) t" for k
  have step: "at (Suc k) = next_tag m (at k)" for k by (simp add: at_def)
  have walk: "tag_path m ty t (at k) \<and> passed_over m ty (at k)" for k
  proof (induction k)
    case 0
    have "passed_over m ty t" using assms by (subst (asm) tag_loop.simps) (auto simp: passed_over_def split: if_splits)
    then show ?case by (simp add: at_def tag_path.path_refl)
  next
    case (Suc k)
    then have path: "tag_path m ty t (at (Suc k))" using tag_path_snoc step by simp
    then have "tag_loop m ty (at (Suc k)) = None" using assms tag_loop_path by metis
    then have "passed_over m ty (at (Suc k))" by (subst (asm) tag_loop.simps) (auto simp: passed_over_def split: if_splits)
    then show ?case using path by blast
  qed
  have later: "tag_path m ty (at i) (at (i + k))" for i k
  proof (induction k)
    case (Suc k)
    then show ?case using walk [of "i + k"] tag_path_snoc step [of "i + k"] by simp
  qed (simp add: tag_path.path_refl)
  have "finite (range at)" by (rule finite_subset [of _ UNIV]) simp_all
  then have "\<not> inj at" using finite_imageD [of at UNIV] by auto
  then obtain i j where "at i = at j" "i < j" by (metis injI linorder_neq_iff)
  moreover from this obtain k where "j = Suc i + k" using less_iff_Suc_add [of i j] by auto
  ultimately have "tag_path m ty (next_tag m (at i)) (at i)" using later [of "Suc i" k] step by simp
  then show ?thesis using walk [of i] by (auto simp: on_cycle_def)
qed

section \<open>Properties\<close>

text \<open>C35: over a chain of tags that ends with an end tag, \<^verbatim>\<open>multiboot_get_tag\<close> returns the first
  tag of the type asked for, and NULL when there is none.\<close>

theorem multiboot_get_tag_first:
  assumes "tag_chain m (ucast mboot_tags + 8) as"
  shows "multiboot_get_tag m mboot_tags ty =
    Inr (case filter (\<lambda>a. tag_type m a = ty) as of [] \<Rightarrow> NULL | a # _ \<Rightarrow> a)"
  using tag_loop_chain [OF assms, of ty] by (simp add: multiboot_get_tag_def)

text \<open>A boot information block at 0x1000 with a memory map tag of one entry, then the end tag.\<close>

definition sample_info :: memory where
  "sample_info = store32 (store32 (store32 (\<lambda>_. 0) 0x1008 6) 0x100C 40) 0x1010 24"

lemma sample_info_chain: "tag_chain sample_info (ucast (0x1000 :: u32) + 8) [0x1008]"
  by (simp add: sample_info_def next_tag_def tag_type_def tag_size_def mem_eval)

theorem multiboot_get_tag_first_witness:
  "multiboot_get_tag sample_info 0x1000 6 =
    Inr (case filter (\<lambda>a. tag_type sample_info a = 6) [0x1008] of [] \<Rightarrow> NULL | a # _ \<Rightarrow> a)"
  by (rule multiboot_get_tag_first [OF sample_info_chain])

text \<open>C36: \<^verbatim>\<open>multiboot_get_tag\<close> never returns exactly when the walk, over tags that are neither the end tag nor of the
  type asked for, reaches a tag to which it comes back, in one step (a tag of size 0 at an aligned address) or
  over a longer cycle.\<close>

theorem multiboot_get_tag_endless:
  "multiboot_get_tag m mboot_tags ty = Inl Endless_loop \<longleftrightarrow>
    (\<exists>t. tag_path m ty (ucast mboot_tags + 8) t \<and> passed_over m ty t \<and> tag_path m ty (next_tag m t) t)"
proof -
  have "multiboot_get_tag m mboot_tags ty = Inl Endless_loop \<longleftrightarrow> tag_loop m ty (ucast mboot_tags + 8) = None"
    by (cases "tag_loop m ty (ucast mboot_tags + 8)") (simp_all add: multiboot_get_tag_def)
  also have "\<dots> \<longleftrightarrow> (\<exists>t. tag_path m ty (ucast mboot_tags + 8) t \<and> on_cycle m ty t)"
    using tag_loop_endless_cycle [of m ty "ucast mboot_tags + 8"] tag_loop_path [of m ty "ucast mboot_tags + 8"] tag_loop_cycle [of m ty]
    by auto
  finally show ?thesis by (simp only: on_cycle_def)
qed

theorem multiboot_get_tag_endless_witness:
  "multiboot_get_tag (store32 (\<lambda>_. 0) 0x1008 1) 0x1000 6 = Inl Endless_loop"
  unfolding multiboot_get_tag_endless
proof (intro exI conjI)
  have next_same: "next_tag (store32 (\<lambda>_. 0) 0x1008 1) 0x1008 = 0x1008"
    by (simp add: next_tag_def tag_size_def mem_eval)
  show "tag_path (store32 (\<lambda>_. 0) 0x1008 1) 6 (ucast (0x1000 :: u32) + 8) 0x1008"
    using tag_path.path_refl by simp
  show "passed_over (store32 (\<lambda>_. 0) 0x1008 1) 6 0x1008" by (simp add: passed_over_def tag_type_def mem_eval)
  show "tag_path (store32 (\<lambda>_. 0) 0x1008 1) 6 (next_tag (store32 (\<lambda>_. 0) 0x1008 1) 0x1008) 0x1008"
    unfolding next_same by (rule tag_path.path_refl)
qed

end
