(* ===== verification/Ports.thy ===== *)
theory Ports
  imports Prelude
begin

text \<open>
  Port input and output (\<^verbatim>\<open>src/lib/io.h\<close>) as a trace of accesses. What a read returns is up to
  the devices: the parameter \<open>dev\<close> gives it from the accesses made before. The properties that
  need a device say what they need as a hypothesis on \<open>dev\<close>.
\<close>

datatype io_event = Out u16 u8 | In u16

type_synonym io = "io_event list"
type_synonym device = "io \<Rightarrow> u16 \<Rightarrow> u8"

definition inb :: "device \<Rightarrow> u16 \<Rightarrow> io \<Rightarrow> u8 \<times> io" where
  "inb dev port t = (dev t port, t @ [In port])"

definition outb :: "u16 \<Rightarrow> u8 \<Rightarrow> io \<Rightarrow> io" where
  "outb port val t = t @ [Out port val]"

definition io_wait :: "io \<Rightarrow> io" where
  "io_wait t = outb 0x80 0 t"

section \<open>The last value written to a port\<close>

definition last_out :: "u16 \<Rightarrow> io \<Rightarrow> u8 option" where
  "last_out p t = fold (\<lambda>e r. case e of Out q v \<Rightarrow> if q = p then Some v else r | In _ \<Rightarrow> r) t None"

lemma last_out_Nil [simp]: "last_out p [] = None"
  by (simp add: last_out_def)

lemma last_out_snoc [simp]:
  "last_out p (t @ [Out q v]) = (if q = p then Some v else last_out p t)"
  "last_out p (t @ [In q]) = last_out p t"
  by (simp_all add: last_out_def)

lemma last_out_outb [simp]: "last_out p (outb q v t) = (if q = p then Some v else last_out p t)"
  by (simp add: outb_def)

lemma last_out_io_wait [simp]: "p \<noteq> 0x80 \<Longrightarrow> last_out p (io_wait t) = last_out p t"
  by (simp add: io_wait_def)

lemma last_out_inb [simp]: "last_out p (snd (inb dev q t)) = last_out p t"
  by (simp add: inb_def)

text \<open>A device whose port reads back what was last written to it.\<close>

definition reads_back :: "device \<Rightarrow> u16 \<Rightarrow> bool" where
  "reads_back dev p \<longleftrightarrow> (\<forall>t v. last_out p t = Some v \<longrightarrow> dev t p = v)"

text \<open>Devices whose every port does.\<close>

definition latch :: device where
  "latch t p = (case last_out p t of None \<Rightarrow> 0 | Some v \<Rightarrow> v)"

lemma latch_reads_back [simp]: "reads_back latch p"
  by (simp add: reads_back_def latch_def)

end
