(* ===== verification/Pic.thy ===== *)
theory Pic
  imports Ports
begin

text \<open>
  The driver of the two cascaded 8259 interrupt controllers (\<^verbatim>\<open>src/kernel/drivers/pic.c\<close>).
  The state is the pair of vector offsets and the trace of port accesses. The data port of a
  controller reads back its interrupt mask; this is the hypothesis \<open>reads_back\<close> on the device.
\<close>

section \<open>Definitions\<close>

abbreviation OCW2_EOI :: u8 where "OCW2_EOI \<equiv> 0x20"
abbreviation ICW1_IC4_PRESENT :: u8 where "ICW1_IC4_PRESENT \<equiv> 0x01"
abbreviation ICW1_INIT :: u8 where "ICW1_INIT \<equiv> 0x10"
abbreviation ICW4_8086 :: u8 where "ICW4_8086 \<equiv> 0x01"
abbreviation MASTER_PIC_CMD :: u16 where "MASTER_PIC_CMD \<equiv> 0x20"
abbreviation MASTER_PIC_DATA :: u16 where "MASTER_PIC_DATA \<equiv> 0x21"
abbreviation SLAVE_PIC_CMD :: u16 where "SLAVE_PIC_CMD \<equiv> 0xA0"
abbreviation SLAVE_PIC_DATA :: u16 where "SLAVE_PIC_DATA \<equiv> 0xA1"
abbreviation SLAVE_PIC_CASCADE_IRQ :: u8 where "SLAVE_PIC_CASCADE_IRQ \<equiv> 2"

record pic =
  master_pic_offset :: u8
  slave_pic_offset :: u8
  pic_io :: io

definition pic_out :: "u16 \<Rightarrow> u8 \<Rightarrow> pic \<Rightarrow> pic" where
  "pic_out port val s = s\<lparr>pic_io := outb port val (pic_io s)\<rparr>"

definition pic_wait :: "pic \<Rightarrow> pic" where
  "pic_wait s = s\<lparr>pic_io := io_wait (pic_io s)\<rparr>"

definition pic_in :: "device \<Rightarrow> u16 \<Rightarrow> pic \<Rightarrow> u8 \<times> pic" where
  "pic_in dev port s = (case inb dev port (pic_io s) of (v, t) \<Rightarrow> (v, s\<lparr>pic_io := t\<rparr>))"

definition pic_disable :: "pic \<Rightarrow> pic" where
  "pic_disable s =
     (let s = pic_out MASTER_PIC_DATA 0xFF s;
          s = pic_wait s;
          s = pic_out SLAVE_PIC_DATA 0xFF s
      in pic_wait s)"

definition pic_enable :: "pic \<Rightarrow> pic" where
  "pic_enable s =
     (let s = pic_out MASTER_PIC_DATA 0x00 s;
          s = pic_wait s;
          s = pic_out SLAVE_PIC_DATA 0x00 s
      in pic_wait s)"

definition pic_init :: "u8 \<Rightarrow> pic \<Rightarrow> pic" where
  "pic_init offset1 s =
     (let s = s\<lparr>master_pic_offset := offset1\<rparr>;
          s = s\<lparr>slave_pic_offset := offset1 + 0x08\<rparr>;
          s = pic_wait (pic_out MASTER_PIC_CMD (ICW1_INIT OR ICW1_IC4_PRESENT) s);
          s = pic_wait (pic_out SLAVE_PIC_CMD (ICW1_INIT OR ICW1_IC4_PRESENT) s);
          s = pic_wait (pic_out MASTER_PIC_DATA (master_pic_offset s) s);
          s = pic_wait (pic_out SLAVE_PIC_DATA (slave_pic_offset s) s);
          s = pic_wait (pic_out MASTER_PIC_DATA (push_bit (unat SLAVE_PIC_CASCADE_IRQ) 1) s);
          s = pic_wait (pic_out SLAVE_PIC_DATA SLAVE_PIC_CASCADE_IRQ s);
          s = pic_wait (pic_out MASTER_PIC_DATA ICW4_8086 s);
          s = pic_wait (pic_out SLAVE_PIC_DATA ICW4_8086 s)
      in pic_disable s)"

text \<open>The bounds check compares at the width of \<open>int\<close>: the sum does not wrap.\<close>

definition pic_vector_ok :: "u8 \<Rightarrow> pic \<Rightarrow> bool" where
  "pic_vector_ok vector s \<longleftrightarrow> vector \<ge> master_pic_offset s \<and> unat vector < unat (slave_pic_offset s) + 8"

definition pic_eoi :: "u8 \<Rightarrow> pic \<Rightarrow> pic outcome" where
  "pic_eoi vector s =
     ASSERT (pic_vector_ok vector s)
       (let s = (if vector \<ge> slave_pic_offset s then pic_out SLAVE_PIC_CMD OCW2_EOI s else s)
        in Inr (pic_out MASTER_PIC_CMD OCW2_EOI s))"

text \<open>The port and the line of a vector, and the read-modify-write both mask operations make.\<close>

definition pic_line :: "u8 \<Rightarrow> pic \<Rightarrow> u16 \<times> u8" where
  "pic_line vector s =
     (let vector = vector - master_pic_offset s
      in if vector \<ge> 8 then (SLAVE_PIC_DATA, vector - 8) else (MASTER_PIC_DATA, vector))"

definition pic_set_mask :: "device \<Rightarrow> u8 \<Rightarrow> pic \<Rightarrow> pic outcome" where
  "pic_set_mask dev vector s =
     ASSERT (pic_vector_ok vector s)
       (let (port, vector) = pic_line vector s
        in ASSERT (vector < 8)
          (let (value, s) = pic_in dev port s;
               value = value OR push_bit (unat vector) 1;
               s = pic_wait s;
               s = pic_out port value s
           in Inr (pic_wait s)))"

definition pic_clear_mask :: "device \<Rightarrow> u8 \<Rightarrow> pic \<Rightarrow> pic outcome" where
  "pic_clear_mask dev vector s =
     ASSERT (pic_vector_ok vector s)
       (let (port, vector) = pic_line vector s
        in ASSERT (vector < 8)
          (let (value, s) = pic_in dev port s;
               value = value AND NOT (push_bit (unat vector) 1);
               s = pic_wait s;
               s = pic_out port value s
           in Inr (pic_wait s)))"

definition pic_get_mask :: "device \<Rightarrow> u8 \<Rightarrow> pic \<Rightarrow> u8 \<times> pic" where
  "pic_get_mask dev slave s =
     (let (res, s) = pic_in dev (if slave \<noteq> 0 then SLAVE_PIC_DATA else MASTER_PIC_DATA) s
      in (res, pic_wait s))"

section \<open>Masks\<close>

definition pic_mask :: "u16 \<Rightarrow> pic \<Rightarrow> u8 option" where
  "pic_mask port s = last_out port (pic_io s)"

lemma pic_out_simps [simp]:
  "pic_io (pic_out p v s) = outb p v (pic_io s)"
  "master_pic_offset (pic_out p v s) = master_pic_offset s"
  "slave_pic_offset (pic_out p v s) = slave_pic_offset s"
  by (simp_all add: pic_out_def)

lemma pic_wait_simps [simp]:
  "pic_io (pic_wait s) = io_wait (pic_io s)"
  "master_pic_offset (pic_wait s) = master_pic_offset s"
  "slave_pic_offset (pic_wait s) = slave_pic_offset s"
  by (simp_all add: pic_wait_def)

lemma pic_in_simps [simp]:
  "fst (pic_in dev p s) = dev (pic_io s) p"
  "pic_io (snd (pic_in dev p s)) = snd (inb dev p (pic_io s))"
  "master_pic_offset (snd (pic_in dev p s)) = master_pic_offset s"
  "slave_pic_offset (snd (pic_in dev p s)) = slave_pic_offset s"
  by (simp_all add: pic_in_def inb_def)

lemma pic_init_result:
  "master_pic_offset (pic_init off s) = off" "slave_pic_offset (pic_init off s) = off + 8"
  "pic_mask MASTER_PIC_DATA (pic_init off s) = Some 0xFF" "pic_mask SLAVE_PIC_DATA (pic_init off s) = Some 0xFF"
  by (simp_all add: pic_init_def pic_disable_def Let_def pic_mask_def)

text \<open>The offsets the driver is initialised with: both controllers' vectors below 256.\<close>

definition pic_ready :: "pic \<Rightarrow> bool" where
  "pic_ready s \<longleftrightarrow> unat (slave_pic_offset s) = unat (master_pic_offset s) + 8 \<and>
     unat (slave_pic_offset s) + 8 \<le> 256"

lemma pic_line_eq:
  assumes "pic_ready s" "pic_vector_ok v s" "k = unat v - unat (master_pic_offset s)"
  shows "k < 16" "pic_line v s = (if 8 \<le> k then (SLAVE_PIC_DATA, of_nat (k - 8)) else (MASTER_PIC_DATA, of_nat k))"
    "unat (snd (pic_line v s)) = k mod 8" "v = of_nat (unat (master_pic_offset s) + k)"
proof -
  show k: "k < 16" using assms by (auto simp: pic_ready_def pic_vector_ok_def word_le_nat_alt)
  have le: "unat (master_pic_offset s) \<le> unat v" using assms by (simp add: pic_vector_ok_def word_le_nat_alt)
  have u: "unat (v - master_pic_offset s) = k" using unat_sub_if' [of v "master_pic_offset s"] le assms(3) by simp
  then have w: "v - master_pic_offset s = of_nat k" by (metis of_nat_unat ucast_id)
  have "8 \<le> v - master_pic_offset s \<longleftrightarrow> 8 \<le> k" by (simp add: word_le_nat_alt u)
  then show eq: "pic_line v s = (if 8 \<le> k then (SLAVE_PIC_DATA, of_nat (k - 8)) else (MASTER_PIC_DATA, of_nat k))"
    using k by (simp add: pic_line_def Let_def w of_nat_diff)
  show "unat (snd (pic_line v s)) = k mod 8"
  proof (cases "8 \<le> k")
    case True
    moreover have "unat (of_nat (k - 8) :: u8) = k - 8" using k by (subst unat_of_nat) simp
    moreover have "k mod 8 = k - 8" using k True by (simp add: mod_if)
    ultimately show ?thesis unfolding eq by (simp only: if_True snd_conv)
  next
    case False
    then show ?thesis unfolding eq by (simp add: unat_of_nat)
  qed
  show "v = of_nat (unat (master_pic_offset s) + k)" using le assms(3) by simp
qed

text \<open>A vector of the slave is acknowledged at the slave and then at the master.\<close>

definition eoi_events :: "u8 \<Rightarrow> pic \<Rightarrow> io" where
  "eoi_events v s = (if v \<ge> slave_pic_offset s then [Out SLAVE_PIC_CMD OCW2_EOI, Out MASTER_PIC_CMD OCW2_EOI]
     else [Out MASTER_PIC_CMD OCW2_EOI])"

lemma pic_eoi_eq:
  "pic_eoi v s = (if pic_vector_ok v s then Inr (s\<lparr>pic_io := pic_io s @ eoi_events v s\<rparr>) else Inl Assertion_hang)"
  by (auto simp: pic_eoi_def pic_out_def outb_def ASSERT_def Let_def eoi_events_def)

text \<open>The port of a vector's controller and its line there.\<close>

definition vector_port :: "u8 \<Rightarrow> pic \<Rightarrow> u16" where
  "vector_port v s = (if v \<ge> slave_pic_offset s then SLAVE_PIC_DATA else MASTER_PIC_DATA)"

definition vector_bit :: "u8 \<Rightarrow> pic \<Rightarrow> nat" where
  "vector_bit v s = (unat v - unat (master_pic_offset s)) mod 8"

lemma pic_line_port:
  assumes "pic_ready s" "pic_vector_ok v s"
  shows "fst (pic_line v s) = vector_port v s" "unat (snd (pic_line v s)) = vector_bit v s"
    "vector_port v s \<in> {MASTER_PIC_DATA, SLAVE_PIC_DATA}" "snd (pic_line v s) < 8"
proof -
  note l = pic_line_eq [OF assms refl]
  have "8 \<le> unat v - unat (master_pic_offset s) \<longleftrightarrow> slave_pic_offset s \<le> v"
    using assms by (auto simp: pic_ready_def pic_vector_ok_def word_le_nat_alt)
  then show "fst (pic_line v s) = vector_port v s" by (simp add: l(2) vector_port_def)
  show u: "unat (snd (pic_line v s)) = vector_bit v s" by (simp add: l(3) vector_bit_def)
  show "vector_port v s \<in> {MASTER_PIC_DATA, SLAVE_PIC_DATA}" by (simp add: vector_port_def)
  show "snd (pic_line v s) < 8" by (simp add: word_less_nat_alt u vector_bit_def)
qed

lemma mask_update:
  assumes "pic_ready s" "pic_vector_ok v s" "reads_back dev (vector_port v s)"
    "pic_mask (vector_port v s) s = Some old" "p \<in> {MASTER_PIC_DATA, SLAVE_PIC_DATA}"
  shows "\<exists>s'. pic_clear_mask dev v s = Inr s' \<and> master_pic_offset s' = master_pic_offset s \<and>
      slave_pic_offset s' = slave_pic_offset s \<and>
      pic_mask p s' = (if p = vector_port v s then Some (old AND NOT (push_bit (vector_bit v s) 1)) else pic_mask p s)"
    "\<exists>s'. pic_set_mask dev v s = Inr s' \<and> master_pic_offset s' = master_pic_offset s \<and>
      slave_pic_offset s' = slave_pic_offset s \<and>
      pic_mask p s' = (if p = vector_port v s then Some (old OR push_bit (vector_bit v s) 1) else pic_mask p s)"
proof -
  note l = pic_line_port [OF assms(1,2)]
  obtain port line where pl: "pic_line v s = (port, line)" by (cases "pic_line v s")
  have d: "dev (pic_io s) port = old" using assms(3,4) l(1) pl by (simp add: reads_back_def pic_mask_def)
  obtain t where pin: "pic_in dev port s = (old, s\<lparr>pic_io := t\<rparr>)" "t = snd (inb dev port (pic_io s))"
    using d by (simp add: pic_in_def inb_def)
  have p: "p \<noteq> 0x80" using assms(5) by auto
  show "\<exists>s'. pic_clear_mask dev v s = Inr s' \<and> master_pic_offset s' = master_pic_offset s \<and>
      slave_pic_offset s' = slave_pic_offset s \<and>
      pic_mask p s' = (if p = vector_port v s then Some (old AND NOT (push_bit (vector_bit v s) 1)) else pic_mask p s)"
    using assms(2) l pl pin p by (auto simp: pic_clear_mask_def Let_def pic_mask_def)
  show "\<exists>s'. pic_set_mask dev v s = Inr s' \<and> master_pic_offset s' = master_pic_offset s \<and>
      slave_pic_offset s' = slave_pic_offset s \<and>
      pic_mask p s' = (if p = vector_port v s then Some (old OR push_bit (vector_bit v s) 1) else pic_mask p s)"
    using assms(2) l pl pin p by (auto simp: pic_set_mask_def Let_def pic_mask_def)
qed

section \<open>Properties\<close>

text \<open>The driver after \<^verbatim>\<open>interrupts_init\<close>: vectors 32 to 47, every line masked.\<close>

definition fresh_pic :: pic where
  "fresh_pic = pic_init 0x20 \<lparr>master_pic_offset = 0, slave_pic_offset = 0, pic_io = []\<rparr>"

lemma fresh_pic_facts:
  "master_pic_offset fresh_pic = 32" "slave_pic_offset fresh_pic = 40" "pic_ready fresh_pic"
  "pic_mask MASTER_PIC_DATA fresh_pic = Some 0xFF" "pic_mask SLAVE_PIC_DATA fresh_pic = Some 0xFF"
  by (simp_all add: fresh_pic_def pic_init_result pic_ready_def)

text \<open>C32: \<^verbatim>\<open>pic_clear_mask\<close> and \<^verbatim>\<open>pic_set_mask\<close> of a vector of the two controllers change
  exactly one bit of one mask, the vector's line on its controller, and leave the other controller
  alone; a vector outside the sixteen hangs and writes nothing.\<close>

theorem pic_masks_one_line:
  assumes "pic_ready s" "reads_back dev MASTER_PIC_DATA" "reads_back dev SLAVE_PIC_DATA"
    "pic_mask MASTER_PIC_DATA s = Some m1" "pic_mask SLAVE_PIC_DATA s = Some m2"
    "old = (if v \<ge> slave_pic_offset s then m2 else m1)" "p \<in> {MASTER_PIC_DATA, SLAVE_PIC_DATA}"
  shows "if pic_vector_ok v s
    then (\<exists>s'. pic_clear_mask dev v s = Inr s' \<and>
        pic_mask p s' = (if p = vector_port v s then Some (old AND NOT (push_bit (vector_bit v s) 1)) else pic_mask p s)) \<and>
      (\<exists>s'. pic_set_mask dev v s = Inr s' \<and>
        pic_mask p s' = (if p = vector_port v s then Some (old OR push_bit (vector_bit v s) 1) else pic_mask p s))
    else pic_clear_mask dev v s = Inl Assertion_hang \<and> pic_set_mask dev v s = Inl Assertion_hang"
proof (cases "pic_vector_ok v s")
  case True
  have "reads_back dev (vector_port v s)" "pic_mask (vector_port v s) s = Some old"
    using assms(2-6) by (simp_all add: vector_port_def)
  from mask_update [OF assms(1) True this assms(7)] True show ?thesis by auto
next
  case False
  then show ?thesis by (simp add: pic_clear_mask_def pic_set_mask_def)
qed

theorem pic_masks_one_line_witness:
  "if pic_vector_ok 33 fresh_pic
    then (\<exists>s'. pic_clear_mask latch 33 fresh_pic = Inr s' \<and>
        pic_mask MASTER_PIC_DATA s' = (if MASTER_PIC_DATA = vector_port 33 fresh_pic
          then Some (0xFF AND NOT (push_bit (vector_bit 33 fresh_pic) 1)) else pic_mask MASTER_PIC_DATA fresh_pic)) \<and>
      (\<exists>s'. pic_set_mask latch 33 fresh_pic = Inr s' \<and>
        pic_mask MASTER_PIC_DATA s' = (if MASTER_PIC_DATA = vector_port 33 fresh_pic
          then Some (0xFF OR push_bit (vector_bit 33 fresh_pic) 1) else pic_mask MASTER_PIC_DATA fresh_pic))
    else pic_clear_mask latch 33 fresh_pic = Inl Assertion_hang \<and> pic_set_mask latch 33 fresh_pic = Inl Assertion_hang"
  by (rule pic_masks_one_line [where ?m1.0 = "0xFF" and ?m2.0 = "0xFF"]) (simp_all add: fresh_pic_facts)

text \<open>C33: after \<^verbatim>\<open>pic_init\<close> every line is masked, and clearing the mask of a vector of the slave
  leaves line 2 of the master, the one the slave is wired to, masked: the interrupt stays
  blocked.\<close>

theorem slave_lines_stay_blocked:
  assumes "reads_back dev SLAVE_PIC_DATA" "off < 240" "unat off + 8 \<le> unat v" "unat v < unat off + 16"
  shows "\<exists>s'. pic_clear_mask dev v (pic_init off s) = Inr s' \<and> pic_mask MASTER_PIC_DATA s' = Some 0xFF \<and>
    bit (0xFF :: u8) (unat SLAVE_PIC_CASCADE_IRQ)"
proof -
  let ?s = "pic_init off s"
  have o: "unat off < 240" using assms(2) by (simp add: word_less_nat_alt)
  then have o8: "unat (off + 8) = unat off + 8" using unat_add_lem [of off 8] by simp
  have ready: "pic_ready ?s" using o o8 by (simp add: pic_ready_def pic_init_result)
  have ok: "pic_vector_ok v ?s" using assms(3,4) o8 by (simp add: pic_vector_ok_def pic_init_result word_le_nat_alt)
  have port: "vector_port v ?s = SLAVE_PIC_DATA"
    using assms(3) o8 by (simp add: vector_port_def pic_init_result word_le_nat_alt)
  obtain s' where "pic_clear_mask dev v ?s = Inr s'" "pic_mask MASTER_PIC_DATA s' = pic_mask MASTER_PIC_DATA ?s"
    using mask_update(1) [OF ready ok, of dev "0xFF" MASTER_PIC_DATA] assms(1) port by (auto simp: pic_init_result)
  moreover have "bit (0xFF :: u8) 2" by simp
  ultimately show ?thesis by (simp add: pic_init_result)
qed

theorem slave_lines_stay_blocked_witness:
  "\<exists>s'. pic_clear_mask latch 44 fresh_pic = Inr s' \<and> pic_mask MASTER_PIC_DATA s' = Some 0xFF"
  unfolding fresh_pic_def
  using slave_lines_stay_blocked [of latch 32 44 "\<lparr>master_pic_offset = 0, slave_pic_offset = 0, pic_io = []\<rparr>"]
  by auto

end
