(* ===== verification/Term.thy ===== *)
theory Term
  imports Ports
begin

text \<open>
  The text console of \<^verbatim>\<open>src/lib/term.c\<close>: the cells of the VGA buffer and the cursor the
  driver keeps. A \<^verbatim>\<open>char\<close> is a signed byte, so a character from 0x80 on is sign-extended
  when it is or-ed into the cell.
  The abstract console \<open>show_char\<close> says what one character does to rows of cells; the driver
  implements it on the columns its bounds check lets through, which are the first 25 of the 80.
\<close>

section \<open>Definitions\<close>

abbreviation VGA_COLS :: u8 where "VGA_COLS \<equiv> 80"
abbreviation VGA_ROWS :: u8 where "VGA_ROWS \<equiv> 25"

record terminal =
  vga_buffer :: "nat \<Rightarrow> u16"
  term_col :: u8
  term_row :: u8

definition vga_index :: "u8 \<Rightarrow> u8 \<Rightarrow> nat" where
  "vga_index row col = unat VGA_COLS * unat row + unat col"

definition vga_write_raw :: "u8 \<Rightarrow> u8 \<Rightarrow> u16 \<Rightarrow> terminal \<Rightarrow> terminal" where
  "vga_write_raw row col raw s =
     (if row > 79 \<or> col > 24 then s
      else s\<lparr>vga_buffer := (vga_buffer s)(vga_index row col := raw)\<rparr>)"

definition vga_write :: "u8 \<Rightarrow> u8 \<Rightarrow> u8 \<Rightarrow> u8 \<Rightarrow> u8 \<Rightarrow> terminal \<Rightarrow> terminal" where
  "vga_write row col bg_4b fg_4b c =
     vga_write_raw row col
       (push_bit 12 (ucast (bg_4b AND 0xF)) OR push_bit 8 (ucast (fg_4b AND 0xF)) OR scast c)"

definition vga_read_raw :: "u8 \<Rightarrow> u8 \<Rightarrow> terminal \<Rightarrow> u16" where
  "vga_read_raw row col s =
     (if row > 79 \<or> col > 24 then 0 else vga_buffer s (vga_index row col))"

definition vga_readc :: "u8 \<Rightarrow> u8 \<Rightarrow> terminal \<Rightarrow> u8" where
  "vga_readc row col s = ucast (vga_read_raw row col s AND 0xFF)"

definition vga_readbg :: "u8 \<Rightarrow> u8 \<Rightarrow> terminal \<Rightarrow> u8" where
  "vga_readbg row col s = ucast (drop_bit 8 (vga_read_raw row col s) AND 0xF)"

definition vga_readfg :: "u8 \<Rightarrow> u8 \<Rightarrow> terminal \<Rightarrow> u8" where
  "vga_readfg row col s = ucast (drop_bit 12 (vga_read_raw row col s) AND 0xF)"

definition term_clear :: "terminal \<Rightarrow> terminal" where
  "term_clear =
     fold (\<lambda>col. fold (\<lambda>row. vga_write (of_nat row) (of_nat col) 0x0 0xF 0x20) [0..<unat VGA_ROWS])
       [0..<unat VGA_COLS]"

text \<open>The arguments of \<^verbatim>\<open>outb\<close> are the port and the value, in this order.\<close>

definition term_readcursor :: "device \<Rightarrow> io \<Rightarrow> terminal \<Rightarrow> terminal \<times> io" where
  "term_readcursor dev t s =
     (let t = outb 0x0E (ucast (0x3D4 :: u32)) t;
          (hi, t) = inb dev 0x3D5 t;
          pos = push_bit 8 (ucast hi :: u16);
          t = outb 0x0F (ucast (0x3D4 :: u32)) t;
          (lo, t) = inb dev 0x3D5 t;
          pos = pos OR ucast lo
      in (s\<lparr>term_row := ucast (pos div ucast VGA_COLS), term_col := ucast (pos mod ucast VGA_COLS)\<rparr>, t))"

text \<open>The three parts of \<^verbatim>\<open>term_putc\<close>: the character, the end of the line, the end of the screen.\<close>

definition put_glyph :: "u8 \<Rightarrow> terminal \<Rightarrow> terminal" where
  "put_glyph c s =
     (if c = 0x0A then s\<lparr>term_col := 0, term_row := term_row s + 1\<rparr>
      else let s = vga_write (term_row s) (term_col s) 0x0 0xF c s
           in s\<lparr>term_col := term_col s + 1\<rparr>)"

definition wrap_line :: "terminal \<Rightarrow> terminal" where
  "wrap_line s =
     (if term_col s \<ge> VGA_COLS then s\<lparr>term_col := 0, term_row := term_row s + 1\<rparr> else s)"

definition shift_rows :: "terminal \<Rightarrow> terminal" where
  "shift_rows =
     fold (\<lambda>col. fold (\<lambda>row s. vga_write_raw (of_nat row - 1) (of_nat col)
                               (vga_read_raw (of_nat row) (of_nat col) s) s) [1..<unat VGA_ROWS])
       [0..<unat VGA_COLS]"

definition clear_last_row :: "terminal \<Rightarrow> terminal" where
  "clear_last_row =
     fold (\<lambda>col. vga_write (VGA_ROWS - 1) (of_nat col) 0x0 0xF 0x20) [0..<unat VGA_COLS]"

definition scroll :: "terminal \<Rightarrow> terminal" where
  "scroll s =
     (if term_row s \<ge> VGA_ROWS
      then (clear_last_row (shift_rows s))\<lparr>term_col := 0, term_row := VGA_ROWS - 1\<rparr>
      else s)"

definition term_putc :: "u8 \<Rightarrow> terminal \<Rightarrow> terminal" where
  "term_putc c s = scroll (wrap_line (put_glyph c s))"

definition hexdig_lookup :: "u8 list" where
  "hexdig_lookup = map (\<lambda>c. of_char c) ''0123456789ABCDEF''"

definition term_putbyte :: "u8 \<Rightarrow> terminal \<Rightarrow> terminal" where
  "term_putbyte b s =
     (let s = term_putc (hexdig_lookup ! unat (drop_bit 4 (b AND 0xF0))) s
      in term_putc (hexdig_lookup ! unat (b AND 0xF)) s)"

section \<open>The abstract console\<close>

text \<open>
  A console shows a cell per row and column and has a cursor. One character either starts a new
  line or fills the cell at the cursor and moves on; leaving the last row moves every row up.
\<close>

type_synonym console = "(nat \<Rightarrow> nat \<Rightarrow> u16) \<times> nat \<times> nat"

definition glyph :: "u8 \<Rightarrow> u16" where
  "glyph c = 0x0F00 OR scast c"

definition advance :: "nat \<Rightarrow> nat \<Rightarrow> nat \<Rightarrow> bool \<Rightarrow> nat \<times> nat" where
  "advance cols r k newline = (if newline \<or> cols \<le> Suc k then (Suc r, 0) else (r, Suc k))"

definition show_char :: "nat \<Rightarrow> nat \<Rightarrow> u8 \<Rightarrow> console \<Rightarrow> console" where
  "show_char rows cols c con =
     (case con of (cells, r, k) \<Rightarrow>
        let cells' = (if c = 0x0A then cells else cells(r := (cells r)(k := glyph c)));
            (r', k') = advance cols r k (c = 0x0A)
        in if r' < rows then (cells', r', k')
           else (\<lambda>i. if Suc i < rows then cells' (Suc i) else (\<lambda>_. glyph 0x20), rows - 1, 0))"

text \<open>What the driver's buffer shows: the columns up to 24, which it writes.\<close>

definition cell :: "terminal \<Rightarrow> nat \<Rightarrow> nat \<Rightarrow> u16" where
  "cell s r k = vga_buffer s (80 * r + k)"

definition displays :: "terminal \<Rightarrow> console \<Rightarrow> bool" where
  "displays s con =
     (case con of (cells, r, k) \<Rightarrow>
        r < 25 \<and> k < 80 \<and> term_row s = of_nat r \<and> term_col s = of_nat k \<and>
        (\<forall>i<25. \<forall>j<25. cell s i j = cells i j))"

lemma displays_blank:
  "displays \<lparr>vga_buffer = (\<lambda>_. 0), term_col = 0, term_row = 0\<rparr> (\<lambda>_ _. 0, 0, 0)"
  by (simp add: displays_def cell_def)

section \<open>Writing cells\<close>

lemma index_inj:
  "k < 80 \<Longrightarrow> k' < 80 \<Longrightarrow> 80 * r + k = 80 * r' + k' \<longleftrightarrow> r = r' \<and> k = (k' :: nat)"
proof
  assume k: "k < 80" "k' < 80" and eq: "80 * r + k = 80 * r' + k'"
  have "(80 * r + k) div 80 = r" "(80 * r' + k') div 80 = r'" using k by simp_all
  then have "r = r'" using eq by simp
  then show "r = r' \<and> k = k'" using eq by simp
qed simp

lemma small_u8: "n < 256 \<Longrightarrow> unat (of_nat n :: u8) = n"
  by (simp add: unat_of_nat)

lemma small_u8_le: "n < 256 \<Longrightarrow> of_nat n > (79 :: u8) \<longleftrightarrow> n > 79" "n < 256 \<Longrightarrow> of_nat n > (24 :: u8) \<longleftrightarrow> n > 24"
  by (simp_all add: word_less_nat_alt small_u8)

lemma write_raw_cell:
  assumes "r < 25" "k < 80" "j < 80"
  shows "cell (vga_write_raw (of_nat r) (of_nat k) v s) i j =
    (if k \<le> 24 \<and> i = r \<and> j = k then v else cell s i j)"
proof -
  have eq: "80 * i + j = 80 * r + k \<longleftrightarrow> i = r \<and> j = k" using assms by (intro index_inj)
  have u: "unat (of_nat r :: u8) = r" "unat (of_nat k :: u8) = k" using assms by (simp_all add: small_u8)
  have lims: "\<not> of_nat r > (79 :: u8)" "of_nat k > (24 :: u8) \<longleftrightarrow> k > 24"
    using assms by (simp_all add: small_u8_le)
  show ?thesis
    by (simp add: vga_write_raw_def cell_def vga_index_def u lims eq fun_upd_apply del: of_nat_numeral)
qed

lemma write_raw_cursor [simp]:
  "term_row (vga_write_raw r k v s) = term_row s" "term_col (vga_write_raw r k v s) = term_col s"
  by (simp_all add: vga_write_raw_def)

lemma read_raw_cell: "r < 25 \<Longrightarrow> k < 80 \<Longrightarrow>
    vga_read_raw (of_nat r) (of_nat k) s = (if k \<le> 24 then cell s r k else 0)"
  using small_u8_le [of r] small_u8_le [of k]
  by (simp add: vga_read_raw_def cell_def vga_index_def small_u8 not_le)

lemma vga_write_glyph: "vga_write r k 0x0 0xF c = vga_write_raw r k (glyph c)"
  by (simp add: vga_write_def glyph_def)

section \<open>Scrolling\<close>

definition copy_up :: "nat \<Rightarrow> nat \<Rightarrow> terminal \<Rightarrow> terminal" where
  "copy_up col row s = vga_write_raw (of_nat row - 1) (of_nat col) (vga_read_raw (of_nat row) (of_nat col) s) s"

lemma copy_up_cell:
  assumes "1 \<le> r" "r < 25" "k < 80" "j < 80"
  shows "cell (copy_up k r s) i j = (if k \<le> 24 \<and> Suc i = r \<and> j = k then cell s (Suc i) j else cell s i j)"
proof -
  obtain r' where r: "r = Suc r'" using assms(1) by (cases r) auto
  then have "of_nat r - 1 = (of_nat r' :: u8)" by simp
  then show ?thesis unfolding copy_up_def using assms r
    by (simp add: write_raw_cell read_raw_cell del: of_nat_Suc)
qed

lemma copy_up_cursor [simp]: "term_row (copy_up k r s) = term_row s" "term_col (copy_up k r s) = term_col s"
  by (simp_all add: copy_up_def)

lemma copy_column_cell:
  assumes "n \<le> 24" "k < 80" "j < 80"
  shows "cell (fold (copy_up k) [1..<Suc n] s) i j = (if k \<le> 24 \<and> i < n \<and> j = k then cell s (Suc i) j else cell s i j)"
  using assms(1)
proof (induction n arbitrary: i)
  case (Suc n)
  have "[1..<Suc (Suc n)] = [1..<Suc n] @ [Suc n]" by simp
  then show ?case using Suc assms(2,3) by (auto simp: copy_up_cell less_Suc_eq simp del: upt_Suc)
qed simp

lemma fold_keeps: "(\<And>x s. f (g x s) = f s) \<Longrightarrow> f (fold g xs s) = f s"
  by (induction xs arbitrary: s) auto

lemma shift_rows_fold: "shift_rows = fold (\<lambda>k. fold (copy_up k) [1..<25]) [0..<80]"
  by (simp add: shift_rows_def copy_up_def [abs_def])

lemma shift_columns_cell:
  assumes "n \<le> 80" "j < 80"
  shows "cell (fold (\<lambda>k. fold (copy_up k) [1..<25]) [0..<n] s) i j =
    (if j < n \<and> j \<le> 24 \<and> i < 24 then cell s (Suc i) j else cell s i j)"
  using assms(1)
proof (induction n arbitrary: i)
  case (Suc n)
  have "cell (fold (copy_up n) [1..<25] t) i j = (if n \<le> 24 \<and> i < 24 \<and> j = n then cell t (Suc i) j else cell t i j)"
    for t i using copy_column_cell [of 24 n j t i] Suc.prems assms(2) by simp
  then show ?case using Suc by auto
qed simp

lemma shift_rows_cell: "j < 80 \<Longrightarrow> cell (shift_rows s) i j = (if j \<le> 24 \<and> i < 24 then cell s (Suc i) j else cell s i j)"
  using shift_columns_cell [of 80 j s i] by (simp add: shift_rows_fold)

lemma shift_rows_cursor [simp]: "term_row (shift_rows s) = term_row s" "term_col (shift_rows s) = term_col s"
  by (simp_all add: shift_rows_fold fold_keeps)

lemma clear_columns_cell:
  assumes "n \<le> 80" "j < 80"
  shows "cell (fold (\<lambda>k. vga_write (VGA_ROWS - 1) (of_nat k) 0x0 0xF 0x20) [0..<n] s) i j =
    (if j < n \<and> j \<le> 24 \<and> i = 24 then glyph 0x20 else cell s i j)"
  using assms(1)
proof (induction n)
  case (Suc n)
  have "VGA_ROWS - 1 = of_nat 24" by simp
  then have "cell (vga_write (VGA_ROWS - 1) (of_nat n) 0x0 0xF 0x20 t) i j =
      (if n \<le> 24 \<and> i = 24 \<and> j = n then glyph 0x20 else cell t i j)" for t
    unfolding vga_write_glyph using Suc.prems assms(2) by (simp only: write_raw_cell)
  then show ?case using Suc by (auto simp del: diff_numeral_special)
qed simp

lemma clear_last_row_cell:
  "j < 80 \<Longrightarrow> cell (clear_last_row s) i j = (if j \<le> 24 \<and> i = 24 then glyph 0x20 else cell s i j)"
  using clear_columns_cell [of 80 j s i] by (simp add: clear_last_row_def)

section \<open>One character\<close>

lemma cursor_update_cell [simp]:
  "cell (s\<lparr>term_col := x\<rparr>) i j = cell s i j" "cell (s\<lparr>term_row := y\<rparr>) i j = cell s i j"
  by (simp_all add: cell_def)

text \<open>The cells after \<open>put_glyph\<close> and \<open>wrap_line\<close>, and where they leave the cursor.\<close>

lemma put_glyph_cell:
  assumes "term_row s = of_nat r" "r < 25" "term_col s = of_nat k" "k < 80" "j < 80"
  shows "cell (wrap_line (put_glyph c s)) i j =
    (if c \<noteq> 0x0A \<and> k \<le> 24 \<and> i = r \<and> j = k then glyph c else cell s i j)"
  using assms by (simp add: put_glyph_def wrap_line_def Let_def vga_write_glyph write_raw_cell)

lemma put_glyph_cursor:
  assumes "term_row s = of_nat r" "r < 25" "term_col s = of_nat k" "k < 80"
  shows "term_row (wrap_line (put_glyph c s)) = of_nat (fst (advance 80 r k (c = 0x0A)))"
    and "term_col (wrap_line (put_glyph c s)) = of_nat (snd (advance 80 r k (c = 0x0A)))"
proof -
  have "of_nat (Suc k) = (of_nat k + 1 :: u8)" by (simp add: add.commute)
  moreover have "of_nat (Suc k) \<ge> (80 :: u8) \<longleftrightarrow> Suc k \<ge> 80"
    using assms(4) by (simp add: word_le_nat_alt small_u8 del: of_nat_Suc)
  ultimately have col: "of_nat k + 1 \<ge> (80 :: u8) \<longleftrightarrow> Suc k \<ge> 80" by (simp add: add.commute)
  have "\<not> (80 :: u8) \<le> 0" by (simp add: word_le_nat_alt)
  then show "term_row (wrap_line (put_glyph c s)) = of_nat (fst (advance 80 r k (c = 0x0A)))"
    "term_col (wrap_line (put_glyph c s)) = of_nat (snd (advance 80 r k (c = 0x0A)))"
    using assms col by (simp_all add: put_glyph_def wrap_line_def Let_def vga_write_glyph advance_def add.commute)
qed

lemma scroll_cell: "j < 80 \<Longrightarrow> cell (scroll s) i j =
    (if term_row s \<ge> VGA_ROWS \<and> j \<le> 24 \<and> i < 25 then (if i < 24 then cell s (Suc i) j else glyph 0x20)
     else cell s i j)"
  by (auto simp: scroll_def clear_last_row_cell shift_rows_cell)

lemma scroll_cursor: "term_row (scroll s) = (if term_row s \<ge> VGA_ROWS then 24 else term_row s)"
  "term_col (scroll s) = (if term_row s \<ge> VGA_ROWS then 0 else term_col s)"
  by (simp_all add: scroll_def)

lemma term_putc_displays:
  assumes "displays s con"
  shows "displays (term_putc c s) (show_char 25 80 c con)"
proof -
  obtain cells r k where con: "con = (cells, r, k)" by (cases con) auto
  have s: "term_row s = of_nat r" "r < 25" "term_col s = of_nat k" "k < 80"
    and cells: "\<And>i j. i < 25 \<Longrightarrow> j < 25 \<Longrightarrow> cell s i j = cells i j"
    using assms by (auto simp: displays_def con)
  define t where "t = wrap_line (put_glyph c s)"
  obtain r' k' where adv: "advance 80 r k (c = 0x0A) = (r', k')" by (cases "advance 80 r k (c = 0x0A)") auto
  have lims: "r' \<le> 25" "k' < 80" using adv s by (auto simp: advance_def split: if_splits)
  have t: "term_row t = of_nat r'" "term_col t = of_nat k'"
    using put_glyph_cursor [OF s, of c] by (simp_all add: t_def adv)
  have bottom: "term_row t \<ge> VGA_ROWS \<longleftrightarrow> \<not> r' < 25"
    using lims by (simp add: t word_le_nat_alt small_u8 not_less)
  define cells' where "cells' = (if c = 0x0A then cells else cells(r := (cells r)(k := glyph c)))"
  have cells': "cell t i j = cells' i j" if "i < 25" "j < 25" for i j
    using put_glyph_cell [OF s, of j c i] cells that by (auto simp: t_def cells'_def)
  have con': "show_char 25 80 c con = (if r' < 25 then (cells', r', k')
      else (\<lambda>i. if Suc i < 25 then cells' (Suc i) else (\<lambda>_. glyph 0x20), 24, 0))"
    unfolding show_char_def con prod.case adv Let_def cells'_def [symmetric] by simp
  have out: "term_putc c s = scroll t" by (simp add: term_putc_def t_def)
  show ?thesis
    unfolding out con' using lims bottom
    by (simp add: displays_def scroll_cell scroll_cursor t cells')
qed

lemma term_putc_right:
  assumes "displays s con" "25 \<le> j" "j < 80"
  shows "cell (term_putc c s) i j = cell s i j"
proof -
  obtain cells r k where con: "con = (cells, r, k)" by (cases con) auto
  have s: "term_row s = of_nat r" "r < 25" "term_col s = of_nat k" "k < 80"
    using assms by (auto simp: displays_def con)
  show ?thesis using assms put_glyph_cell [OF s, of j c i] by (auto simp: term_putc_def scroll_cell)
qed

lemma bit_below: "unat (x :: u8) < 2 ^ n \<Longrightarrow> bit x k \<Longrightarrow> k < n"
  by (metis bit_take_bit_iff take_bit_nat_eq_self unsigned_take_bit_eq word_unat_eq_iff)

lemma nibble: "x < 16 \<Longrightarrow> x AND 0xF = (x :: u8)"
proof -
  assume "x < 16"
  then have "unat x < 2 ^ 4" by (simp add: word_less_nat_alt)
  then have "x AND mask 4 = x" by (intro bit_word_eqI) (use bit_below [of x 4] in \<open>auto simp: bit_simps\<close>)
  then show ?thesis by (simp add: mask_numeral)
qed

lemma scast_ascii: "c < 0x80 \<Longrightarrow> (scast c :: u16) = ucast (c :: u8)"
proof -
  assume "c < 0x80"
  then have "unat c < 2 ^ 7" by (simp add: word_less_nat_alt)
  then have "bit c k \<Longrightarrow> k < 7" for k by (rule bit_below)
  then have "bit c (min 7 n) \<longleftrightarrow> bit c n" for n by (metis min.strict_order_iff min_def not_le)
  then show ?thesis by (intro bit_word_eqI) (simp add: bit_simps)
qed

text \<open>The three fields of a cell.\<close>

lemma cell_fields:
  fixes bg fg c :: u8
  assumes "bg < 16" "fg < 16"
  defines "w \<equiv> push_bit 12 (ucast bg) OR push_bit 8 (ucast fg) OR ucast c :: u16"
  shows "ucast (w AND mask 8) = c" "ucast (drop_bit 8 w AND mask 4) = fg" "ucast (drop_bit 12 w AND mask 4) = bg"
proof -
  have "unat bg < 2 ^ 4" "unat fg < 2 ^ 4" using assms by (simp_all add: word_less_nat_alt)
  then have b: "bit bg k \<Longrightarrow> k < 4" "bit fg k \<Longrightarrow> k < 4" for k using bit_below by blast+
  have f: "\<not> bit fg (4 + k)" for k using b(2) [of "4 + k"] by auto
  have c: "\<not> bit c (8 + k)" for k using bit_imp_le_length [of c "8 + k"] by auto
  show "ucast (w AND mask 8) = c" "ucast (drop_bit 8 w AND mask 4) = fg" "ucast (drop_bit 12 w AND mask 4) = bg"
    using b c c [of "4 + k" for k] f unfolding w_def by (auto intro!: bit_word_eqI simp: bit_simps)
qed

section \<open>Properties\<close>

text \<open>C27: printing a text with \<^verbatim>\<open>term_putc\<close> refines the abstract console of 25 rows and 80
  columns on the columns 0 to 24: the cursor stays on the screen, newlines and full lines start a
  new row, the last row scrolls. Nothing printed ever reaches columns 25 to 79.\<close>

theorem term_text_refines:
  assumes "displays s con"
  shows "displays (fold term_putc cs s) (fold (show_char 25 80) cs con) \<and>
    (\<forall>i j. 25 \<le> j \<and> j < 80 \<longrightarrow> cell (fold term_putc cs s) i j = cell s i j)"
  using assms
proof (induction cs arbitrary: s con)
  case (Cons c cs)
  have "displays (term_putc c s) (show_char 25 80 c con)" using Cons.prems by (rule term_putc_displays)
  from Cons.IH [OF this] show ?case using term_putc_right [OF Cons.prems] by simp
qed simp

theorem term_text_refines_witness:
  "map (cell (fold term_putc [0x41, 0x42, 0x43] \<lparr>vga_buffer = (\<lambda>_. 0), term_col = 23, term_row = 0\<rparr>) 0) [23, 24, 25]
     = [0x0F41, 0x0F42, 0]"
proof -
  let ?s = "\<lparr>vga_buffer = (\<lambda>_. 0), term_col = 23, term_row = 0\<rparr>"
  have "displays ?s (\<lambda>_ _. 0, 0, 23)" by (simp add: displays_def cell_def)
  note d = term_text_refines [OF this, of "[0x41, 0x42, 0x43]"]
  let ?t = "fold term_putc [0x41, 0x42, 0x43] ?s"
  have "\<forall>i<25. \<forall>j<25. cell ?t i j = (if i = 0 \<and> j = 23 then 0x0F41 else if i = 0 \<and> j = 24 then 0x0F42 else 0)"
    using d by (simp add: displays_def show_char_def advance_def glyph_def Let_def)
  then have "cell ?t 0 23 = 0x0F41" "cell ?t 0 24 = 0x0F42" by simp_all
  moreover have "cell ?t 0 25 = cell ?s 0 25" using d by simp
  ultimately show ?thesis by (simp only: list.map) (simp add: cell_def)
qed

text \<open>A cell written with a character below 0x80 reads back the character, but the two colour
  readers are exchanged: \<^verbatim>\<open>vga_readbg\<close> returns the foreground and \<^verbatim>\<open>vga_readfg\<close> the background.
  Outside the first 25 columns nothing is written and everything reads as 0.\<close>

lemma vga_colours_read_back_swapped:
  assumes "row < 25" "col < 80" "bg < 16" "fg < 16" "c < 0x80"
  shows "(vga_readc row col (vga_write row col bg fg c s), vga_readbg row col (vga_write row col bg fg c s),
      vga_readfg row col (vga_write row col bg fg c s)) = (if col < 25 then (c, fg, bg) else (0, 0, 0))"
proof (cases "col < 25")
  case True
  then have "\<not> col > 24" by (simp add: word_less_nat_alt)
  moreover have "\<not> row > 79" using assms(1) by (simp add: word_less_nat_alt)
  ultimately have read: "vga_read_raw row col (vga_write row col bg fg c s) =
      (push_bit 12 (ucast bg) OR push_bit 8 (ucast fg) OR ucast c)"
    using assms(3-5)
    by (simp add: vga_read_raw_def vga_write_def vga_write_raw_def nibble scast_ascii)
  have "(0xFF :: u16) = mask 8" "(0xF :: u16) = mask 4" by (simp_all add: mask_numeral)
  then show ?thesis using True cell_fields [OF assms(3,4), of c]
    by (simp only: vga_readc_def vga_readbg_def vga_readfg_def read if_True)
next
  case False
  then have "col > 24" by (simp add: word_less_nat_alt)
  then show ?thesis using False
    by (simp add: vga_readc_def vga_readbg_def vga_readfg_def vga_read_raw_def)
qed

end
