(* ===== verification/Serial.thy ===== *)
theory Serial
  imports Ports
begin

text \<open>
  The serial port driver (\<^verbatim>\<open>src/lib/serial.c\<close>). The busy-wait loops are partial functions of the
  device: they end only when the line status register says so.
\<close>

section \<open>Definitions\<close>

abbreviation COM1 :: u16 where "COM1 \<equiv> 0x3F8"
abbreviation COM2 :: u16 where "COM2 \<equiv> 0x2F8"

definition serial_init :: "device \<Rightarrow> u16 \<Rightarrow> io \<Rightarrow> int \<times> io" where
  "serial_init dev port t =
     (let t = outb (port + 1) 0x00 t;
          t = outb (port + 3) 0x80 t;
          t = outb (port + 0) 0x03 t;
          t = outb (port + 1) 0x00 t;
          t = outb (port + 3) 0x03 t;
          t = outb (port + 2) 0xC7 t;
          t = outb (port + 4) 0x0B t;
          t = outb (port + 4) 0x1E t;
          t = outb (port + 0) 0xAE t;
          (v, t) = inb dev (port + 0) t
      in if v \<noteq> 0xAE then (1, t)
         else let t = outb (port + 4) 0x0F t in (0, t))"

definition serial_recvd :: "device \<Rightarrow> u16 \<Rightarrow> io \<Rightarrow> u8 \<times> io" where
  "serial_recvd dev port t = (let (v, t) = inb dev (port + 5) t in (v AND 1, t))"

partial_function (option) wait_recvd :: "device \<Rightarrow> u16 \<Rightarrow> io \<Rightarrow> io option" where
  "wait_recvd dev port t =
     (let (r, t) = serial_recvd dev port t in if r = 0 then wait_recvd dev port t else Some t)"

definition serial_read :: "device \<Rightarrow> u16 \<Rightarrow> io \<Rightarrow> (u8 \<times> io) outcome" where
  "serial_read dev port t = bindR (of_loop (wait_recvd dev port t)) (\<lambda>t. Inr (inb dev port t))"

definition serial_is_tx_empty :: "device \<Rightarrow> u16 \<Rightarrow> io \<Rightarrow> u8 \<times> io" where
  "serial_is_tx_empty dev port t = (let (v, t) = inb dev (port + 5) t in (v AND 0x20, t))"

partial_function (option) wait_tx_empty :: "device \<Rightarrow> u16 \<Rightarrow> io \<Rightarrow> io option" where
  "wait_tx_empty dev port t =
     (let (r, t) = serial_is_tx_empty dev port t in if r = 0 then wait_tx_empty dev port t else Some t)"

definition serial_write :: "device \<Rightarrow> u16 \<Rightarrow> u8 \<Rightarrow> io \<Rightarrow> io outcome" where
  "serial_write dev port a t = bindR (of_loop (wait_tx_empty dev port t)) (\<lambda>t. Inr (outb port a t))"

definition serial_com1_putc :: "device \<Rightarrow> u8 \<Rightarrow> io \<Rightarrow> io outcome" where
  "serial_com1_putc dev a t = serial_write dev COM1 a t"

definition serial_com2_putc :: "device \<Rightarrow> u8 \<Rightarrow> io \<Rightarrow> io outcome" where
  "serial_com2_putc dev a t = serial_write dev COM2 a t"

section \<open>Polling\<close>

text \<open>The trace after \<open>k\<close> reads of the line status register.\<close>

definition polled :: "u16 \<Rightarrow> nat \<Rightarrow> io \<Rightarrow> io" where
  "polled port k t = t @ replicate k (In (port + 5))"

lemma polled_simps: "polled port 0 t = t" "polled port k (t @ [In (port + 5)]) = polled port (Suc k) t"
  by (simp_all add: polled_def replicate_app_Cons_same)

definition tx_ready :: "device \<Rightarrow> u16 \<Rightarrow> io \<Rightarrow> bool" where
  "tx_ready dev port t \<longleftrightarrow> dev t (port + 5) AND 0x20 \<noteq> 0"

lemma wait_tx_empty_unfold:
  "wait_tx_empty dev port t =
     (if tx_ready dev port t then Some (polled port 1 t) else wait_tx_empty dev port (polled port 1 t))"
  by (subst wait_tx_empty.simps)
    (simp add: serial_is_tx_empty_def inb_def tx_ready_def polled_def Let_def)

lemma wait_tx_empty_ready:
  "\<forall>j<k. \<not> tx_ready dev port (polled port j t) \<Longrightarrow> tx_ready dev port (polled port k t) \<Longrightarrow>
     wait_tx_empty dev port t = Some (polled port (Suc k) t)"
proof (induction k arbitrary: t)
  case 0
  then show ?case by (subst wait_tx_empty_unfold) (simp add: polled_simps)
next
  case (Suc k)
  have shift: "polled port j (polled port 1 t) = polled port (Suc j) t" for j
    by (simp add: polled_def replicate_app_Cons_same)
  have "\<not> tx_ready dev port t" using Suc.prems(1) [rule_format, of 0] by (simp add: polled_simps(1))
  then have "wait_tx_empty dev port t = wait_tx_empty dev port (polled port 1 t)"
    by (subst wait_tx_empty_unfold) simp
  also have "\<dots> = Some (polled port (Suc k) (polled port 1 t))"
    by (rule Suc.IH) (use Suc.prems in \<open>auto simp: shift simp del: One_nat_def\<close>)
  finally show ?case by (simp only: shift)
qed

lemma wait_tx_empty_returns:
  assumes "wait_tx_empty dev port t = Some t'"
  shows "\<exists>k. tx_ready dev port (polled port k t)"
  using assms
proof (rule wait_tx_empty.raw_induct [where P = "\<lambda>dev port t t'. \<exists>k. tx_ready dev port (polled port k t)", rotated])
  fix loop dev port t t'
  assume IH: "\<And>dev port t t'. loop dev port t = Some t' \<Longrightarrow> \<exists>k. tx_ready dev port (polled port k t)"
    and body: "(let (r, t) = serial_is_tx_empty dev port t in if r = 0 then loop dev port t else Some t) = Some t'"
  show "\<exists>k. tx_ready dev port (polled port k t)"
  proof (cases "tx_ready dev port t")
    case True
    then show ?thesis by (metis polled_simps(1))
  next
    case False
    then have "loop dev port (t @ [In (port + 5)]) = Some t'"
      using body by (simp add: serial_is_tx_empty_def inb_def tx_ready_def Let_def)
    from IH [OF this] show ?thesis by (auto simp: polled_simps)
  qed
qed

text \<open>A serial port that always becomes ready in the end, and the accesses printing makes to it.\<close>

definition uart_live :: "device \<Rightarrow> bool" where
  "uart_live dev \<longleftrightarrow> (\<forall>t. \<exists>k. tx_ready dev COM1 (polled COM1 k t))"

definition uart_events :: "io \<Rightarrow> bool" where
  "uart_events es \<longleftrightarrow> (\<forall>e \<in> set es. e = In (COM1 + 5) \<or> (\<exists>v. e = Out COM1 v))"

lemma uart_events_append [simp]: "uart_events (xs @ ys) \<longleftrightarrow> uart_events xs \<and> uart_events ys"
  by (auto simp: uart_events_def)

text \<open>The bytes a trace has sent on the port.\<close>

fun sent :: "io \<Rightarrow> u8 list" where
  "sent [] = []"
| "sent (Out p v # t) = (if p = COM1 then v # sent t else sent t)"
| "sent (In p # t) = sent t"

lemma sent_append [simp]: "sent (t @ u) = sent t @ sent u"
  by (induction t rule: sent.induct) simp_all

lemma sent_polls [simp]: "sent (replicate k (In p)) = []"
  by (induction k) simp_all

lemma last_out_uart: "uart_events es \<Longrightarrow> p \<noteq> COM1 \<Longrightarrow> last_out p (t @ es) = last_out p t"
proof (induction es rule: rev_induct)
  case (snoc e es)
  then have "e = In (COM1 + 5) \<or> (\<exists>v. e = Out COM1 v)" "uart_events es"
    unfolding uart_events_def by (simp_all only: set_append set_simps) blast+
  then show ?case using snoc last_out_snoc [of p "t @ es"] by auto
qed simp

lemma wait_tx_empty_live:
  assumes "\<exists>k. tx_ready dev port (polled port k t)"
  shows "\<exists>k. wait_tx_empty dev port t = Some (polled port (Suc k) t)"
proof -
  define k where "k = (LEAST k. tx_ready dev port (polled port k t))"
  have "tx_ready dev port (polled port k t)" unfolding k_def using assms by (rule LeastI_ex)
  moreover have "\<forall>j<k. \<not> tx_ready dev port (polled port j t)" unfolding k_def using not_less_Least by blast
  ultimately show ?thesis using wait_tx_empty_ready by blast
qed

lemma serial_putc_live:
  assumes "uart_live dev"
  shows "\<exists>es. serial_com1_putc dev c t = Inr (t @ es) \<and> uart_events es \<and> sent es = [c]"
proof -
  obtain k where "wait_tx_empty dev COM1 t = Some (polled COM1 (Suc k) t)"
    using wait_tx_empty_live [of dev COM1 t] assms unfolding uart_live_def by blast
  then have "serial_com1_putc dev c t = Inr (t @ (replicate (Suc k) (In (COM1 + 5)) @ [Out COM1 c]))"
    by (simp add: serial_com1_putc_def serial_write_def outb_def polled_def)
  then show ?thesis by (intro exI conjI) (auto simp: uart_events_def)
qed

section \<open>Properties\<close>

text \<open>C37: \<^verbatim>\<open>serial_write\<close> returns exactly when the device reports an empty transmitter after some
  number of polls, and then it has polled until the first such report and sent the byte once;
  otherwise it spins for ever.\<close>

theorem serial_write_polls:
  "serial_write dev port a t =
    (if \<exists>k. tx_ready dev port (polled port k t)
     then Inr (polled port (Suc (LEAST k. tx_ready dev port (polled port k t))) t @ [Out port a])
     else Inl Endless_loop)"
proof (cases "\<exists>k. tx_ready dev port (polled port k t)")
  case True
  define k where "k = (LEAST k. tx_ready dev port (polled port k t))"
  have "tx_ready dev port (polled port k t)" unfolding k_def using True by (rule LeastI_ex)
  moreover have "\<forall>j<k. \<not> tx_ready dev port (polled port j t)" unfolding k_def using not_less_Least by blast
  ultimately have "wait_tx_empty dev port t = Some (polled port (Suc k) t)" by (rule wait_tx_empty_ready [rotated])
  then show ?thesis using True by (simp add: serial_write_def outb_def k_def)
next
  case False
  then have "wait_tx_empty dev port t = None" using wait_tx_empty_returns by (cases "wait_tx_empty dev port t") auto
  then show ?thesis using False by (simp add: serial_write_def)
qed

text \<open>\<^verbatim>\<open>serial_init\<close> returns 0 exactly when the byte sent in loopback mode is read back, and
  only then takes the port out of loopback.\<close>

lemma serial_init_loopback:
  "\<exists>t'. serial_init dev port t = (if dev t' port = 0xAE then (0, t' @ [In port, Out (port + 4) 0x0F])
      else (1, t' @ [In port])) \<and> last_out port t' = Some 0xAE \<and> last_out (port + 4) t' = Some 0x1E"
proof -
  let ?t = "outb port 0xAE (outb (port + 4) 0x1E (outb (port + 4) 0x0B (outb (port + 2) 0xC7
      (outb (port + 3) 0x03 (outb (port + 1) 0x00 (outb port 0x03 (outb (port + 3) 0x80 (outb (port + 1) 0x00 t))))))))"
  have "serial_init dev port t = (if dev ?t port = 0xAE then (0, ?t @ [In port, Out (port + 4) 0x0F])
      else (1, ?t @ [In port]))"
    by (simp add: serial_init_def inb_def outb_def Let_def)
  moreover have "last_out port ?t = Some 0xAE" "last_out (port + 4) ?t = Some 0x1E" by simp_all
  ultimately show ?thesis by blast
qed

end
