(* ===== verification/Printf.thy ===== *)
theory Printf
  imports Term Serial
begin

text \<open>
  Formatted output (\<^verbatim>\<open>src/lib/printf.c\<close>) and the log macros (\<^verbatim>\<open>src/lib/log.h\<close>).
  The formatter is generic in the \<^verbatim>\<open>putc\<close> it is given, as in the code; a C string is the list of
  its bytes before the terminator, so the byte at its length is 0 and any later one is outside.
  The specification \<open>render\<close> is the text a format and its arguments stand for.
\<close>

section \<open>Definitions\<close>

type_synonym 's putc = "u8 \<Rightarrow> 's \<Rightarrow> 's outcome"

text \<open>
  The types \<^verbatim>\<open>va_arg\<close> is used at. Each argument fills a slot of 64 bits, so an \<^verbatim>\<open>int\<close> read from
  the slot of a 64-bit value is its lower half; the upper half of the slot of an \<^verbatim>\<open>int\<close> is not
  specified. Any other reading at the wrong type, or past the last argument, is undefined.
\<close>

datatype vararg = Vstr "u8 list" | Vint u32 | Vu64 u64

fun slot_int :: "vararg \<Rightarrow> u32 outcome" where
  "slot_int (Vint a) = Inr a"
| "slot_int (Vu64 v) = Inr (ucast v)"
| "slot_int (Vstr v) = Inl Wrong_vararg"

text \<open>Both output devices, and the term and serial state they change.\<close>

type_synonym printf_device_t = u32
abbreviation DEV_TERM :: printf_device_t where "DEV_TERM \<equiv> 1"
abbreviation DEV_SERIAL_COM1 :: printf_device_t where "DEV_SERIAL_COM1 \<equiv> 2"
abbreviation DEFAULT_DEVICE :: printf_device_t where "DEFAULT_DEVICE \<equiv> DEV_SERIAL_COM1"

record out_dev =
  out_term :: terminal
  out_io :: io

text \<open>The default is a null function pointer, which faults when it is called.\<close>

definition get_device_putc :: "device \<Rightarrow> printf_device_t \<Rightarrow> out_dev putc" where
  "get_device_putc dev d =
     (if d = DEV_TERM then (\<lambda>c s. Inr (s\<lparr>out_term := term_putc c (out_term s)\<rparr>))
      else if d = DEV_SERIAL_COM1
        then (\<lambda>c s. bindR (serial_com1_putc dev c (out_io s)) (\<lambda>t. Inr (s\<lparr>out_io := t\<rparr>)))
      else (\<lambda>c s. Inl Bad_pointer))"

primrec print :: "'s putc \<Rightarrow> u8 list \<Rightarrow> 's \<Rightarrow> 's outcome" where
  "print putc [] s = Inr s"
| "print putc (c # cs) s = (if c = 0 then Inr s else bindR (putc c s) (print putc cs))"

text \<open>The digits of \<open>a\<close>, lowest first, in what is left of the buffer of 20.\<close>

primrec digit_loop :: "nat \<Rightarrow> int \<Rightarrow> u8 list \<Rightarrow> u8 list" where
  "digit_loop 0 a buf = buf"
| "digit_loop (Suc k) a buf =
     (if a > 0 then digit_loop k (a div 10) (buf @ [of_int (a mod 10)]) else buf)"

text \<open>The second loop, which prints the buffer from its last element down.\<close>

function print_digits :: "'s putc \<Rightarrow> u8 list \<Rightarrow> nat \<Rightarrow> 's \<Rightarrow> 's outcome" where
  "print_digits putc buf i s =
     (if i > 0 then bindR (putc (0x30 + buf ! (i - 1)) s) (print_digits putc buf (i - 1)) else Inr s)"
  by pat_completeness auto
termination by (relation "measure (\<lambda>(putc, buf, i, s). i)") auto

declare print_digits.simps [simp del]

definition print_int :: "'s putc \<Rightarrow> u32 \<Rightarrow> 's \<Rightarrow> 's outcome" where
  "print_int putc a s =
     (let a = sint a in
      if a = 0 then putc 0x30 s
      else bindR (if a < 0 then bindR (putc 0x2D s)
                    (\<lambda>s. if - a < 2 ^ 31 then Inr (- a, s) else Inl Signed_overflow)
                  else Inr (a, s))
             (\<lambda>(a, s). let buf = digit_loop 20 a [] in print_digits putc buf (length buf) s))"

definition hex_digit :: "u64 \<Rightarrow> nat \<Rightarrow> u8" where
  "hex_digit v k =
     (let nibble = drop_bit ((15 - k) * 4) v AND 0xF
      in if nibble < 10 then 0x30 + ucast nibble else 0x61 + (ucast nibble - 10))"

definition print_hex :: "'s putc \<Rightarrow> u64 \<Rightarrow> 's \<Rightarrow> 's outcome" where
  "print_hex putc v s =
     (let hex = map (hex_digit v) [0..<16]
      in bindR (print putc [0x30, 0x78] s) (print putc hex))"

definition print_arg :: "'s putc \<Rightarrow> u8 \<Rightarrow> vararg list \<Rightarrow> 's \<Rightarrow> ('s \<times> vararg list) outcome" where
  "print_arg putc d args s =
     (if d = 0x73 then
        (case args of Vstr v # rest \<Rightarrow> bindR (print putc v s) (\<lambda>s. Inr (s, rest))
                    | _ \<Rightarrow> Inl Wrong_vararg)
      else if d = 0x64 then
        (case args of v # rest \<Rightarrow> bindR (slot_int v) (\<lambda>a. bindR (print_int putc a s) (\<lambda>s. Inr (s, rest)))
                    | [] \<Rightarrow> Inl Wrong_vararg)
      else if d = 0x78 then
        (case args of Vu64 v # rest \<Rightarrow> bindR (print_hex putc v s) (\<lambda>s. Inr (s, rest))
                    | _ \<Rightarrow> Inl Wrong_vararg)
      else bindR (putc 0x58 s) (\<lambda>s. Inr (s, args)))"

definition char_at :: "u8 list \<Rightarrow> nat \<Rightarrow> u8 outcome" where
  "char_at str i = (if i < length str then Inr (str ! i) else if i = length str then Inr 0 else Inl Out_of_bounds)"

abbreviation MAX_PRINTF_LEN :: u32 where "MAX_PRINTF_LEN \<equiv> 0xFFFFFFFF"

partial_function (option) format_loop ::
  "'s putc \<Rightarrow> u8 list \<Rightarrow> u32 \<Rightarrow> vararg list \<Rightarrow> 's \<Rightarrow> 's outcome option" where
  "format_loop putc str i args s =
     (case char_at str (unat i) of
        Inl e \<Rightarrow> Some (Inl e)
      | Inr c \<Rightarrow>
          if c \<noteq> 0 \<and> i < MAX_PRINTF_LEN then
            if c = 0x25 then
              (case bindR (char_at str (unat (i + 1))) (\<lambda>d. print_arg putc d args s) of
                 Inl e \<Rightarrow> Some (Inl e)
               | Inr r \<Rightarrow> format_loop putc str (i + 1 + 1) (snd r) (fst r))
            else
              (case putc c s of Inl e \<Rightarrow> Some (Inl e)
                              | Inr s \<Rightarrow> format_loop putc str (i + 1) args s)
          else Some (Inr s))"

definition vprintf_with :: "'s putc \<Rightarrow> u8 list \<Rightarrow> vararg list \<Rightarrow> 's \<Rightarrow> 's outcome" where
  "vprintf_with putc str args s =
     (case format_loop putc str 0 args s of None \<Rightarrow> Inl Endless_loop | Some r \<Rightarrow> r)"

definition vprintf_to_device :: "device \<Rightarrow> printf_device_t \<Rightarrow> u8 list \<Rightarrow> vararg list \<Rightarrow> out_dev \<Rightarrow> out_dev outcome" where
  "vprintf_to_device dev d str args s = vprintf_with (get_device_putc dev d) str args s"

definition vprintf :: "device \<Rightarrow> u8 list \<Rightarrow> vararg list \<Rightarrow> out_dev \<Rightarrow> out_dev outcome" where
  "vprintf dev str args s = vprintf_to_device dev DEFAULT_DEVICE str args s"

definition printf_to_device :: "device \<Rightarrow> printf_device_t \<Rightarrow> u8 list \<Rightarrow> vararg list \<Rightarrow> out_dev \<Rightarrow> out_dev outcome" where
  "printf_to_device dev d str args s = vprintf_to_device dev d str args s"

definition printf :: "device \<Rightarrow> u8 list \<Rightarrow> vararg list \<Rightarrow> out_dev \<Rightarrow> out_dev outcome" where
  "printf dev str args s = vprintf_to_device dev DEFAULT_DEVICE str args s"

section \<open>Log messages\<close>

datatype log_level_t = LOG_NONE | LOG_FATAL | LOG_ERROR | LOG_WARN | LOG_INFO | LOG_DEBUG | LOG_TRACE

fun log_level_value :: "log_level_t \<Rightarrow> nat" where
  "log_level_value LOG_NONE = 0"
| "log_level_value LOG_FATAL = 1"
| "log_level_value LOG_ERROR = 2"
| "log_level_value LOG_WARN = 3"
| "log_level_value LOG_INFO = 4"
| "log_level_value LOG_DEBUG = 5"
| "log_level_value LOG_TRACE = 6"

text \<open>The escape sequences, as bytes: ESC, an opening bracket, the colour numbers and \<open>m\<close>.\<close>

fun log_level_color :: "log_level_t \<Rightarrow> u8 list" where
  "log_level_color LOG_TRACE = [0x1B, 0x5B, 0x30, 0x30, 0x3B, 0x33, 0x34, 0x6D]"
| "log_level_color LOG_DEBUG = [0x1B, 0x5B, 0x30, 0x30, 0x3B, 0x33, 0x35, 0x6D]"
| "log_level_color LOG_INFO = [0x1B, 0x5B, 0x30, 0x30, 0x3B, 0x33, 0x36, 0x6D]"
| "log_level_color LOG_WARN = [0x1B, 0x5B, 0x30, 0x30, 0x3B, 0x33, 0x33, 0x6D]"
| "log_level_color LOG_ERROR = [0x1B, 0x5B, 0x30, 0x30, 0x3B, 0x33, 0x31, 0x6D]"
| "log_level_color LOG_FATAL = [0x1B, 0x5B, 0x33, 0x37, 0x3B, 0x34, 0x31, 0x6D]"
| "log_level_color LOG_NONE = [0x1B, 0x5B, 0x30, 0x6D]"

text \<open>
  \<open>LOG_LEVEL\<close> and \<open>LOG_ENABLE\<close> are macros of the including file; with either at 0 the
  function is empty.
\<close>

definition log_message ::
  "nat \<Rightarrow> nat \<Rightarrow> device \<Rightarrow> log_level_t \<Rightarrow> u8 list \<Rightarrow> vararg list \<Rightarrow> out_dev \<Rightarrow> out_dev outcome" where
  "log_message LOG_LEVEL LOG_ENABLE dev level str args s =
     (if LOG_LEVEL = 0 \<or> LOG_ENABLE = 0 then Inr s
      else if log_level_value level \<le> LOG_LEVEL
        then bindR (printf dev (log_level_color level) [] s)
               (\<lambda>s. bindR (vprintf dev str args s) (printf dev (log_level_color LOG_NONE) []))
      else Inr s)"

section \<open>What a format stands for\<close>

primrec emit :: "'s putc \<Rightarrow> u8 list \<Rightarrow> 's \<Rightarrow> 's outcome" where
  "emit putc [] s = Inr s"
| "emit putc (c # cs) s = bindR (putc c s) (emit putc cs)"

fun decimal :: "nat \<Rightarrow> u8 list" where
  "decimal n = (if n < 10 then [0x30 + of_nat n] else decimal (n div 10) @ [0x30 + of_nat (n mod 10)])"

declare decimal.simps [simp del]

definition signed_decimal :: "int \<Rightarrow> u8 list" where
  "signed_decimal a = (if a < 0 then 0x2D # decimal (nat (- a)) else decimal (nat a))"

definition hexadecimal :: "u64 \<Rightarrow> u8 list" where
  "hexadecimal v = [0x30, 0x78] @ map (hex_digit v) [0..<16]"

definition int_text :: "u32 \<Rightarrow> u8 list \<times> unit outcome" where
  "int_text a = (if sint a = - (2 ^ 31) then ([0x2D], Inl Signed_overflow) else (signed_decimal (sint a), Inr ()))"

definition directive :: "u8 \<Rightarrow> vararg list \<Rightarrow> u8 list \<times> vararg list outcome" where
  "directive d args =
     (if d = 0x73 then
        (case args of Vstr v # rest \<Rightarrow> (takeWhile (\<lambda>c. c \<noteq> 0) v, Inr rest) | _ \<Rightarrow> ([], Inl Wrong_vararg))
      else if d = 0x64 then
        (case args of v # rest \<Rightarrow>
             (case slot_int v of Inl e \<Rightarrow> ([], Inl e)
              | Inr a \<Rightarrow> (fst (int_text a), bindR (snd (int_text a)) (\<lambda>_. Inr rest)))
         | [] \<Rightarrow> ([], Inl Wrong_vararg))
      else if d = 0x78 then
        (case args of Vu64 v # rest \<Rightarrow> (hexadecimal v, Inr rest)
                    | _ \<Rightarrow> ([], Inl Wrong_vararg))
      else ([0x58], Inr args))"

fun render :: "u8 list \<Rightarrow> vararg list \<Rightarrow> u8 list \<times> fault option" where
  "render [] args = ([], None)"
| "render [c] args =
     (if c = 0 then ([], None) else if c = 0x25 then ([0x58], Some Out_of_bounds) else ([c], None))"
| "render (c # d # cs) args =
     (if c = 0 then ([], None)
      else if c = 0x25 then
        (case directive d args of
           (out, Inl e) \<Rightarrow> (out, Some e)
         | (out, Inr args') \<Rightarrow> (case render cs args' of (out', r) \<Rightarrow> (out @ out', r)))
      else (case render (d # cs) args of (out', r) \<Rightarrow> (c # out', r)))"

text \<open>Sending a rendered text: the bytes in turn, then the fault, if there is one.\<close>

definition send :: "'s putc \<Rightarrow> u8 list \<times> fault option \<Rightarrow> 's \<Rightarrow> 's outcome" where
  "send putc r s = bindR (emit putc (fst r) s) (\<lambda>s. case snd r of None \<Rightarrow> Inr s | Some e \<Rightarrow> Inl e)"

section \<open>The formatter prints what the format stands for\<close>

lemma emit_append: "emit putc (xs @ ys) s = bindR (emit putc xs s) (emit putc ys)"
proof (induction xs arbitrary: s)
  case (Cons x xs)
  then have "emit putc (xs @ ys) = (\<lambda>s. bindR (emit putc xs s) (emit putc ys))" by blast
  then show ?case by (simp add: bindR_assoc)
qed simp

lemma emit_Nil [simp]: "emit putc [] = Inr"
  by (rule ext) simp

lemma bindR_return [simp]: "bindR r Inr = r"
  by (cases r) simp_all

lemma print_emit: "print putc cs s = emit putc (takeWhile (\<lambda>c. c \<noteq> 0) cs) s"
proof (induction cs arbitrary: s)
  case (Cons c cs)
  then have "print putc cs = emit putc (takeWhile (\<lambda>c. c \<noteq> 0) cs)" by blast
  then show ?case by simp
qed simp

lemma print_digits_emit:
  "i \<le> length buf \<Longrightarrow> print_digits putc buf i s = emit putc (map (\<lambda>d. 0x30 + d) (rev (take i buf))) s"
proof (induction i arbitrary: s)
  case (Suc i)
  then have "print_digits putc buf i = emit putc (map (\<lambda>d. 0x30 + d) (rev (take i buf)))" by auto
  moreover have "take (Suc i) buf = take i buf @ [buf ! i]" using Suc.prems by (simp add: take_Suc_conv_app_nth)
  ultimately show ?case by (subst print_digits.simps) simp
qed (simp add: print_digits.simps)

lemma digit_loop_decimal:
  "0 < a \<Longrightarrow> a < 10 ^ k \<Longrightarrow>
     map (\<lambda>d. 0x30 + d) (rev (digit_loop k a buf)) = decimal (nat a) @ map (\<lambda>d. 0x30 + d) (rev buf)"
proof (induction k arbitrary: a buf)
  case (Suc k)
  have last: "(of_int (a mod 10) :: u8) = of_nat (nat a mod 10)"
    by (metis Suc.prems(1) nat_mod_distrib nat_numeral of_nat_nat order_less_imp_le pos_mod_sign
        zero_less_numeral zero_le_numeral)
  show ?case
  proof (cases "a < 10")
    case True
    have "digit_loop k 0 b = b" for b by (cases k) simp_all
    then have "digit_loop (Suc k) a buf = buf @ [of_nat (nat a mod 10)]"
      using True Suc.prems last by (simp del: of_nat_nat)
    moreover have "nat a mod 10 = nat a" using True Suc.prems by simp
    moreover have "nat a < 10" using True by simp
    ultimately show ?thesis by (simp add: decimal.simps [of "nat a"])
  next
    case False
    have "0 < a div 10" "a div 10 < 10 ^ k" using False Suc.prems by simp_all
    moreover have "\<not> nat a < 10" using False by simp
    ultimately show ?thesis
      using False Suc.prems last Suc.IH [of "a div 10"] by (simp add: decimal.simps [of "nat a"] nat_div_distrib)
  qed
qed simp

lemma print_int_emit:
  "print_int putc a s = bindR (emit putc (fst (int_text a)) s) (\<lambda>s. bindR (snd (int_text a)) (\<lambda>_. Inr s))"
proof -
  define n where "n = sint a"
  have range: "- (2 ^ 31) \<le> n" "n < 2 ^ 31"
    using sint_greater_eq [of a] sint_less [of a] by (simp_all add: n_def)
  have digits: "print_digits putc (digit_loop 20 k []) (length (digit_loop 20 k [])) =
      emit putc (decimal (nat k))" if "0 < k" "k < 2 ^ 31" for k
  proof
    fix s
    have "k < 10 ^ 20" using that by simp
    then show "print_digits putc (digit_loop 20 k []) (length (digit_loop 20 k [])) s = emit putc (decimal (nat k)) s"
      using that digit_loop_decimal [of k 20 "[]"] by (simp add: print_digits_emit)
  qed
  consider "n = 0" | "n > 0" | "n = - (2 ^ 31)" | "n < 0" "n \<noteq> - (2 ^ 31)" by linarith
  then show ?thesis
  proof cases
    case 4
    then have "0 < - n" "- n < 2 ^ 31" using range by simp_all
    then show ?thesis using 4 digits [of "- n"]
      by (simp add: print_int_def n_def [symmetric] Let_def int_text_def signed_decimal_def bindR_assoc)
  qed (use digits [of n] range in \<open>auto simp: print_int_def n_def [symmetric] Let_def int_text_def
      signed_decimal_def bindR_assoc decimal.simps [of 0]\<close>)
qed

lemma nibble_values: "(v AND 0xF :: u64) \<in> set (map of_nat [0..<16])"
proof -
  have "v AND 0xF \<le> 0xF" by (rule word_and_le1)
  then have "unat (v AND 0xF) \<in> set [0..<16]" by (simp add: word_le_nat_alt)
  moreover have "v AND 0xF = of_nat (unat (v AND 0xF))" by simp
  ultimately show ?thesis by (metis image_eqI set_map)
qed

lemma hex_digit_nonzero: "hex_digit v k \<noteq> 0"
  using nibble_values [of "drop_bit ((15 - k) * 4) v"] unfolding hex_digit_def Let_def
  by (auto simp: upt_rec)

lemma print_hex_emit:
  "print_hex putc v s = emit putc (hexadecimal v) s"
proof -
  have "takeWhile (\<lambda>c. c \<noteq> 0) (map (hex_digit v) [0..<16]) = map (hex_digit v) [0..<16]"
    by (rule takeWhile_eq_all_conv [THEN iffD2]) (auto simp: hex_digit_nonzero)
  then have "print putc (map (hex_digit v) [0..<16]) = emit putc (map (hex_digit v) [0..<16])"
    by (intro ext) (simp only: print_emit)
  moreover have "print putc [0x30, 0x78] s = emit putc [0x30, 0x78] s" by (simp only: print_emit) simp
  ultimately show ?thesis by (simp only: print_hex_def hexadecimal_def emit_append Let_def)
qed

lemma print_arg_emit:
  "print_arg putc d args s =
     bindR (emit putc (fst (directive d args)) s) (\<lambda>s. bindR (snd (directive d args)) (\<lambda>rest. Inr (s, rest)))"
proof -
  consider "d = 0x73" | "d = 0x64" | "d = 0x78" | "d \<noteq> 0x73" "d \<noteq> 0x64" "d \<noteq> 0x78" by blast
  then show ?thesis
  proof cases
    case 2
    show ?thesis
    proof (cases args)
      case (Cons v rest)
      then show ?thesis
        by (cases "slot_int v") (simp_all add: 2 print_arg_def directive_def print_int_emit bindR_assoc)
    qed (simp add: 2 print_arg_def directive_def)
  qed (simp_all add: print_arg_def directive_def print_emit print_hex_emit split: list.split vararg.split)
qed

lemma send_simps:
  "send putc ([], None) s = Inr s"
  "send putc (out, Some e) s = bindR (emit putc out s) (\<lambda>_. Inl e)"
  "send putc (out @ out', r) s = bindR (emit putc out s) (send putc (out', r))"
  "send putc (c # out', r) s = bindR (putc c s) (send putc (out', r))"
  by (auto simp: send_def emit_append bindR_assoc intro!: arg_cong2 [where f = bindR])

lemma format_loop_step:
  assumes "length str < 0xFFFFFFFF" "n \<le> length str"
  shows "format_loop putc str (of_nat n) args s =
     (if n = length str \<or> str ! n = 0 then Some (Inr s)
      else if str ! n = 0x25 then
        (case bindR (char_at str (Suc n)) (\<lambda>d. print_arg putc d args s) of
           Inl e \<Rightarrow> Some (Inl e) | Inr r \<Rightarrow> format_loop putc str (of_nat (Suc (Suc n))) (snd r) (fst r))
      else (case putc (str ! n) s of Inl e \<Rightarrow> Some (Inl e) | Inr s \<Rightarrow> format_loop putc str (of_nat (Suc n)) args s))"
proof -
  have u: "unat (of_nat n :: u32) = n" "unat (of_nat (Suc n) :: u32) = Suc n"
    using assms by (simp_all add: unat_of_nat del: of_nat_Suc)
  have plus: "of_nat n + 1 = (of_nat (Suc n) :: u32)" "of_nat (Suc n) + 1 = (of_nat (Suc (Suc n)) :: u32)"
    by simp_all
  have "(of_nat n :: u32) < MAX_PRINTF_LEN" using assms by (simp add: word_less_nat_alt u)
  then show ?thesis
    by (subst format_loop.simps, unfold plus u)
      (use assms in \<open>auto simp: char_at_def simp del: of_nat_Suc\<close>)
qed

lemma format_loop_past_end:
  assumes "length str < 0xFFFFFFFF"
  shows "format_loop putc str (of_nat (Suc (length str))) args s = Some (Inl Out_of_bounds)"
proof -
  have "unat (of_nat (Suc (length str)) :: u32) = Suc (length str)"
    using assms by (simp add: unat_of_nat del: of_nat_Suc)
  then show ?thesis by (subst format_loop.simps) (simp add: char_at_def del: of_nat_Suc)
qed

lemma case_Some_bindR: "(case r of Inl e \<Rightarrow> Some (Inl e) | Inr x \<Rightarrow> Some (k x)) = Some (bindR r k)"
  by (cases r) simp_all

lemma format_loop_render:
  assumes "length str < 0xFFFFFFFF" "n \<le> length str"
  shows "format_loop putc str (of_nat n) args s = Some (send putc (render (drop n str) args) s)"
  using assms(2)
proof (induction "drop n str" args arbitrary: n s rule: render.induct)
  case (1 args)
  then have "n = length str" by simp
  then show ?case using format_loop_step [OF assms(1) 1(2)] by (simp add: send_simps)
next
  case (2 c args)
  have n: "Suc n = length str" using arg_cong [OF 2(1), of length] by simp
  have c: "str ! n = c" using 2(1) [symmetric] by (rule nth_via_drop)
  have bad: "print_arg putc 0 args s = bindR (putc 0x58 s) (\<lambda>s. Inr (s, args))" by (simp add: print_arg_def)
  have past: "format_loop putc str (of_nat (Suc (Suc n))) args' s' = Some (Inl Out_of_bounds)" for args' s'
    unfolding n by (rule format_loop_past_end [OF assms(1)])
  have stop: "format_loop putc str (of_nat (Suc n)) args s' = Some (Inr s')" for s'
    using format_loop_step [OF assms(1), of "Suc n"] n by simp
  show ?case
    unfolding format_loop_step [OF assms(1) 2(2)] 2(1) [symmetric] c past stop case_Some_bindR
    using n by (auto simp: char_at_def bad bindR_assoc send_def)
next
  case (3 c d cs args)
  have cs: "drop (Suc n) str = d # cs" "drop (Suc (Suc n)) str = cs"
    using 3(3) [symmetric] by (simp_all add: drop_Suc tl_drop [symmetric])
  have n: "Suc n < length str" using arg_cong [OF 3(3), of length] by simp
  have c: "str ! n = c" using 3(3) [symmetric] by (rule nth_via_drop)
  have at: "char_at str (Suc n) = Inr d" using n nth_via_drop [OF cs(1)] by (simp add: char_at_def)
  show ?case
  proof (cases "c = 0 \<or> c \<noteq> 0x25")
    case True
    have "c \<noteq> 0 \<Longrightarrow> format_loop putc str (of_nat (Suc n)) args s' = Some (send putc (render (d # cs) args) s')" for s'
      using 3(2) [of "Suc n" s'] cs n True by auto
    then show ?thesis
      using True n unfolding format_loop_step [OF assms(1) 3(4)] 3(3) [symmetric] c
      by (cases "putc c s") (auto simp: send_simps split: prod.split simp del: of_nat_Suc)
  next
    case False
    obtain out r where dir: "directive d args = (out, r)" by (cases "directive d args") auto
    have "format_loop putc str (of_nat (Suc (Suc n))) rest s' = Some (send putc (render cs rest) s')"
      if "r = Inr rest" for rest s'
      using 3(1) [of out r rest "Suc (Suc n)" s'] dir that False cs n by auto
    then show ?thesis
      using False n unfolding format_loop_step [OF assms(1) 3(4)] 3(3) [symmetric] c at
      by (cases r; cases "emit putc out s")
        (auto simp: print_arg_emit dir send_simps split: prod.split simp del: of_nat_Suc)
  qed
qed

lemma vprintf_with_render:
  "length str < 0xFFFFFFFF \<Longrightarrow> vprintf_with putc str args s = send putc (render str args) s"
  using format_loop_render [of str 0 putc args s] by (simp add: vprintf_with_def)

section \<open>Reading numbers back\<close>

definition read_decimal :: "u8 list \<Rightarrow> int" where
  "read_decimal cs = foldl (\<lambda>n c. 10 * n + (uint c - 0x30)) 0 cs"

definition read_signed :: "u8 list \<Rightarrow> int" where
  "read_signed cs = (if cs \<noteq> [] \<and> hd cs = 0x2D then - read_decimal (tl cs) else read_decimal cs)"

definition hex_value :: "u8 \<Rightarrow> nat" where
  "hex_value c = (if c < 0x3A then unat c - 0x30 else unat c - 0x57)"

definition read_hex :: "u8 list \<Rightarrow> nat" where
  "read_hex cs = foldl (\<lambda>n c. 16 * n + hex_value c) 0 (drop 2 cs)"

lemma decimal_digit: "n < 10 \<Longrightarrow> uint (0x30 + of_nat n :: u8) = 0x30 + int n"
  by (simp add: uint_nat unat_word_ariths unat_of_nat)

lemma read_decimal_decimal: "read_decimal (decimal n) = int n"
proof (induction n rule: decimal.induct)
  case (1 n)
  show ?case
  proof (cases "n < 10")
    case True
    then show ?thesis using decimal_digit by (subst decimal.simps) (simp add: read_decimal_def)
  next
    case False
    have "uint (0x30 + of_nat (n mod 10) :: u8) = 0x30 + int (n mod 10)" by (rule decimal_digit) simp
    then show ?thesis using 1 False by (subst decimal.simps) (simp add: read_decimal_def zmod_int zdiv_int)
  qed
qed

lemma decimal_hd: "decimal n \<noteq> [] \<and> hd (decimal n) \<noteq> 0x2D"
proof (induction n rule: decimal.induct)
  case (1 n)
  show ?case
  proof (cases "n < 10")
    case True
    then have "uint (0x30 + of_nat n :: u8) \<noteq> uint (0x2D :: u8)" by (simp add: decimal_digit)
    then have "0x30 + of_nat n \<noteq> (0x2D :: u8)" by metis
    moreover have "decimal n = [0x30 + of_nat n]" using True by (subst decimal.simps) simp
    ultimately show ?thesis by (simp only: list.sel) blast
  next
    case False
    then show ?thesis using 1 by (subst (1 2) decimal.simps) auto
  qed
qed

lemma read_signed_decimal: "read_signed (signed_decimal a) = a"
  using decimal_hd by (simp add: read_signed_def signed_decimal_def read_decimal_decimal)

lemma hex_value_digit: "hex_value (hex_digit v k) = unat (drop_bit ((15 - k) * 4) v AND 0xF)"
  using nibble_values [of "drop_bit ((15 - k) * 4) v"] unfolding hex_digit_def Let_def hex_value_def
  by (auto simp: upt_rec)

lemma unat_nibble: "unat (drop_bit k v AND 0xF :: u64) = unat v div 2 ^ k mod 16"
proof -
  have "(0xF :: u64) = mask 4" by (simp add: mask_numeral)
  then have "unat (drop_bit k v AND 0xF) = unat (take_bit 4 (drop_bit k v))" by (simp only: take_bit_eq_mask)
  then show ?thesis by (simp only: unsigned_take_bit_eq unsigned_drop_bit_eq) (use unat_u64_less [of v] in \<open>simp add: take_bit_eq_mod drop_bit_eq_div\<close>)
qed

lemma nibbles:
  "n \<le> 16 \<Longrightarrow> foldl (\<lambda>m c. 16 * m + hex_value c) 0 (map (hex_digit v) [0..<n]) = unat v div 2 ^ (64 - 4 * n)"
proof (induction n)
  case 0
  then show ?case using unat_u64_less [of v] by simp
next
  case (Suc n)
  define k where "k = (15 - n) * 4"
  have k: "64 - 4 * n = k + 4" "64 - 4 * Suc n = k" using Suc.prems by (simp_all add: k_def)
  have "foldl (\<lambda>m c. 16 * m + hex_value c) 0 (map (hex_digit v) [0..<Suc n]) =
      16 * (unat v div 2 ^ (k + 4)) + unat v div 2 ^ k mod 16"
    using Suc k(1) by (simp add: hex_value_digit unat_nibble k_def)
  also have "unat v div 2 ^ (k + 4) = unat v div 2 ^ k div 16" by (simp add: power_add div_mult2_eq)
  finally show ?case unfolding k(2) by simp
qed

lemma read_hexadecimal: "read_hex (hexadecimal v) = unat v"
  using nibbles [of 16 v] by (simp add: read_hex_def hexadecimal_def del: upt_rec_numeral)

text \<open>The output devices before anything is printed.\<close>

definition fresh_out :: out_dev where
  "fresh_out = \<lparr>out_term = \<lparr>vga_buffer = (\<lambda>_. 0), term_col = 0, term_row = 0\<rparr>, out_io = []\<rparr>"

text \<open>A log message at or below the level of its file goes to the serial port between its colour
  and the reset sequence; one above it, or any message of a file with logging disabled, leaves no trace.\<close>

lemma log_message_emit:
  assumes "length str < 0xFFFFFFFF" "render str args = (text, None)"
  shows "log_message l e dev level str args s =
    (if e \<noteq> 0 \<and> l \<noteq> 0 \<and> log_level_value level \<le> l
     then emit (get_device_putc dev DEV_SERIAL_COM1)
            (log_level_color level @ text @ log_level_color LOG_NONE) s
     else Inr s)"
proof -
  have colour: "printf dev (log_level_color k) [] s = emit (get_device_putc dev DEV_SERIAL_COM1) (log_level_color k) s"
    for k s by (cases k) (simp_all add: printf_def vprintf_to_device_def vprintf_with_render send_def)
  have "vprintf dev str args s = emit (get_device_putc dev DEV_SERIAL_COM1) text s" for s
    using assms by (simp add: vprintf_def vprintf_to_device_def vprintf_with_render send_def)
  then have "vprintf dev str args = emit (get_device_putc dev DEV_SERIAL_COM1) text" by (rule ext)
  moreover have "printf dev (log_level_color k) [] = emit (get_device_putc dev DEV_SERIAL_COM1) (log_level_color k)" for k
    by (rule ext) (rule colour)
  moreover have "emit putc (xs @ ys) = (\<lambda>s. bindR (emit putc xs s) (emit putc ys))" for putc :: "out_dev putc" and xs ys
    by (rule ext) (rule emit_append)
  ultimately show ?thesis by (simp add: log_message_def del: log_level_color.simps)
qed

lemma emit_live:
  assumes "uart_live dev"
  shows "\<exists>es. emit (get_device_putc dev DEV_SERIAL_COM1) cs s = Inr (s\<lparr>out_io := out_io s @ es\<rparr>) \<and> uart_events es \<and> sent es = cs"
proof (induction cs arbitrary: s)
  case Nil
  then show ?case by (intro exI [of _ "[]"]) (simp add: uart_events_def)
next
  case (Cons c cs)
  obtain es where es: "serial_com1_putc dev c (out_io s) = Inr (out_io s @ es)" "uart_events es" "sent es = [c]"
    using serial_putc_live [OF assms] by blast
  obtain es' where "emit (get_device_putc dev DEV_SERIAL_COM1) cs (s\<lparr>out_io := out_io s @ es\<rparr>) =
      Inr (s\<lparr>out_io := (out_io s @ es) @ es'\<rparr>)" "uart_events es'" "sent es' = cs"
    using Cons.IH [of "s\<lparr>out_io := out_io s @ es\<rparr>"] by auto
  then show ?case using es by (intro exI [of _ "es @ es'"]) (simp add: get_device_putc_def)
qed

text \<open>A message on a live port: its bytes go out, or those before the fault of its format.\<close>

definition log_text :: "log_level_t \<Rightarrow> u8 list \<Rightarrow> vararg list \<Rightarrow> u8 list" where
  "log_text level str args = log_level_color level @ fst (render str args) @ log_level_color LOG_NONE"

lemma log_message_live:
  assumes "uart_live dev" "length str < 0xFFFFFFFF" "e \<noteq> 0" "log_level_value level \<le> l" "l \<noteq> 0"
  shows "case snd (render str args) of
      None \<Rightarrow> \<exists>es. log_message l e dev level str args s = Inr (s\<lparr>out_io := out_io s @ es\<rparr>) \<and> uart_events es \<and>
        sent es = log_text level str args
    | Some f \<Rightarrow> log_message l e dev level str args s = Inl f"
proof (cases "snd (render str args)")
  case None
  then have "render str args = (fst (render str args), None)" by (simp add: prod_eq_iff)
  from log_message_emit [OF assms(2) this, of l e dev level s] show ?thesis
    using None emit_live [OF assms(1), of "log_text level str args" s] assms(3-5)
    by (simp add: log_text_def del: log_level_color.simps)
next
  case (Some f)
  obtain es where es: "emit (get_device_putc dev DEV_SERIAL_COM1) (log_level_color level) s = Inr (s\<lparr>out_io := out_io s @ es\<rparr>)"
    using emit_live [OF assms(1)] by blast
  have "printf dev (log_level_color level) [] s = Inr (s\<lparr>out_io := out_io s @ es\<rparr>)"
    using es by (cases level) (simp_all add: printf_def vprintf_to_device_def vprintf_with_render send_def)
  moreover obtain es' where "emit (get_device_putc dev DEV_SERIAL_COM1) (fst (render str args)) (s\<lparr>out_io := out_io s @ es\<rparr>) =
      Inr (s\<lparr>out_io := (out_io s @ es) @ es'\<rparr>)"
    using emit_live [OF assms(1), of "fst (render str args)" "s\<lparr>out_io := out_io s @ es\<rparr>"] by auto
  then have "vprintf dev str args (s\<lparr>out_io := out_io s @ es\<rparr>) = Inl f"
    using Some assms(2) by (simp add: vprintf_def vprintf_to_device_def vprintf_with_render send_def)
  ultimately show ?thesis using Some assms(3-5) by (simp add: log_message_def del: log_level_color.simps)
qed

section \<open>Properties\<close>

text \<open>C25: \<^verbatim>\<open>vprintf_to_device\<close> sends the device the bytes the format and its arguments stand for, in
  order, whatever the device does with each, and returns, or faults where the specification says: at an
  argument of the wrong type or a missing one, at the most negative integer, and after a per-cent sign
  that ends the format, when the loop steps over the terminator.\<close>

theorem vprintf_renders:
  assumes "length str < 0xFFFFFFFF"
  shows "vprintf_to_device dev d str args s = send (get_device_putc dev d) (render str args) s"
  using assms by (simp add: vprintf_to_device_def vprintf_with_render)

theorem vprintf_renders_witness:
  "vprintf_to_device latch DEV_TERM [0x41, 0x25] [] fresh_out = Inl Out_of_bounds \<and>
   vprintf_to_device latch DEV_TERM [0x41, 0x25, 0x64] [Vint 7] fresh_out =
     Inr (fresh_out\<lparr>out_term := term_putc 0x37 (term_putc 0x41 (out_term fresh_out))\<rparr>)"
  using vprintf_renders [of "[0x41, 0x25]" latch DEV_TERM "[]" fresh_out]
    vprintf_renders [of "[0x41, 0x25, 0x64]" latch DEV_TERM "[Vint 7]" fresh_out]
  by (simp add: send_def get_device_putc_def directive_def int_text_def signed_decimal_def decimal.simps)

text \<open>C26: \<^verbatim>\<open>%d\<close> prints a text that reads back as the integer, for every integer but the most
  negative one, and \<^verbatim>\<open>%x\<close> prints 18 bytes that read back as the 64-bit value.\<close>

theorem printed_numbers_read_back:
  assumes "sint a \<noteq> - (2 ^ 31)"
  shows "\<exists>ds hs. vprintf_with putc [0x25, 0x64, 0x20, 0x25, 0x78] [Vint a, Vu64 v] s = emit putc (ds @ [0x20] @ hs) s \<and>
     read_signed ds = sint a \<and> read_hex hs = unat v \<and> length hs = 18"
proof -
  have "vprintf_with putc [0x25, 0x64, 0x20, 0x25, 0x78] [Vint a, Vu64 v] s =
      emit putc (signed_decimal (sint a) @ [0x20] @ hexadecimal v) s"
    using assms by (simp add: vprintf_with_render directive_def int_text_def send_def)
  moreover have "length (hexadecimal v) = 18" by (simp add: hexadecimal_def)
  ultimately show ?thesis using read_signed_decimal [of "sint a"] read_hexadecimal [of v] by blast
qed

theorem printed_numbers_read_back_witness:
  "\<exists>ds hs. vprintf_with (\<lambda>c s. Inr (s @ [c])) [0x25, 0x64, 0x20, 0x25, 0x78] [Vint (- 12), Vu64 0xAB] [] =
      emit (\<lambda>c s. Inr (s @ [c])) (ds @ [0x20] @ hs) [] \<and>
     read_signed ds = sint (- 12 :: u32) \<and> read_hex hs = unat (0xAB :: u64) \<and> length hs = 18"
  by (rule printed_numbers_read_back) simp

end
