(* ===== verification/Interrupts.thy ===== *)
theory Interrupts
  imports Pic Printf
begin

text \<open>
  The interrupt descriptor table (\<^verbatim>\<open>src/kernel/drivers/idt.c\<close>) and the dispatch of exceptions and
  hardware interrupts (\<^verbatim>\<open>src/kernel/drivers/interrupts.c\<close>). The addresses of the assembly stubs
  and of the table are parameters, and so is the call of a handler through its pointer. The log
  messages of the dispatchers go out on the serial port before anything else happens.
\<close>

section \<open>Definitions\<close>

record idt_entry_t =
  isr_low :: u16
  kernel_cs :: u16
  ist :: u8
  attributes :: u8
  isr_mid :: u16
  isr_high :: u32
  reserved :: u32

record idtr_t =
  limit :: u16
  base :: u64

text \<open>The frame the stubs leave on the stack, lowest address first.\<close>

record interrupt_frame_t =
  f_r15 :: u64
  f_r14 :: u64
  f_r13 :: u64
  f_r12 :: u64
  f_r11 :: u64
  f_r10 :: u64
  f_r9 :: u64
  f_r8 :: u64
  f_rsi :: u64
  f_rdi :: u64
  f_rbp :: u64
  f_rdx :: u64
  f_rcx :: u64
  f_rbx :: u64
  f_rax :: u64
  f_error_code :: u64
  f_rip :: u64
  f_cs :: u64
  f_rflags :: u64
  f_rsp :: u64
  f_ss :: u64

definition load_frame :: "memory \<Rightarrow> addr \<Rightarrow> interrupt_frame_t" where
  "load_frame m p =
     \<lparr>f_r15 = load64 m p, f_r14 = load64 m (p + 8), f_r13 = load64 m (p + 16), f_r12 = load64 m (p + 24),
      f_r11 = load64 m (p + 32), f_r10 = load64 m (p + 40), f_r9 = load64 m (p + 48), f_r8 = load64 m (p + 56),
      f_rsi = load64 m (p + 64), f_rdi = load64 m (p + 72), f_rbp = load64 m (p + 80), f_rdx = load64 m (p + 88),
      f_rcx = load64 m (p + 96), f_rbx = load64 m (p + 104), f_rax = load64 m (p + 112),
      f_error_code = load64 m (p + 120), f_rip = load64 m (p + 128), f_cs = load64 m (p + 136),
      f_rflags = load64 m (p + 144), f_rsp = load64 m (p + 152), f_ss = load64 m (p + 160)\<rparr>"

datatype (plugins only: code) interrupt_vector_t =
    EXC_DIVIDE_ERROR | EXC_DEBUG | EXC_NMI_INTERRUPT | EXC_BREAKPOINT | EXC_OVERFLOW
  | EXC_BOUND_RANGE_EXCEEDED | EXC_INVALID_OPCODE | EXC_DEVICE_NOT_AVAILABLE | EXC_DOUBLE_FAULT
  | EXC_COPROCESSOR_SEG_OVERRUN | EXC_INVALID_TSS | EXC_SEGMENT_NOT_PRESENT | EXC_STACK_SEGMENT_FAULT
  | EXC_GENERAL_PROTECTION | EXC_PAGE_FAULT | EXC_RESERVED_15 | EXC_X87_FPU_ERROR | EXC_ALIGNMENT_CHECK
  | EXC_MACHINE_CHECK | EXC_SIMD_FP_EXCEPTION | EXC_VIRTUALIZATION | EXC_CONTROL_PROTECTION
  | EXC_RESERVED_22 | EXC_RESERVED_23 | EXC_RESERVED_24 | EXC_RESERVED_25 | EXC_RESERVED_26
  | EXC_RESERVED_27 | EXC_RESERVED_28 | EXC_RESERVED_29 | EXC_RESERVED_30 | EXC_RESERVED_31
  | ISR_PIT_TIMER | ISR_KEYBOARD | ISR_CASCADE | ISR_COM2 | ISR_COM1 | ISR_LPT2 | ISR_FLOPPY_DISK
  | ISR_LPT1 | ISR_RTC | ISR_PERIPHERAL_1 | ISR_PERIPHERAL_2 | ISR_PERIPHERAL_3 | ISR_MOUSE | ISR_FPU
  | ISR_PRIMARY_ATA | ISR_SECONDARY_ATA

text \<open>The enumeration in its order; the value of a constant is its position.\<close>

definition interrupt_vectors :: "interrupt_vector_t list" where
  "interrupt_vectors =
    [EXC_DIVIDE_ERROR, EXC_DEBUG, EXC_NMI_INTERRUPT, EXC_BREAKPOINT, EXC_OVERFLOW,
     EXC_BOUND_RANGE_EXCEEDED, EXC_INVALID_OPCODE, EXC_DEVICE_NOT_AVAILABLE, EXC_DOUBLE_FAULT,
     EXC_COPROCESSOR_SEG_OVERRUN, EXC_INVALID_TSS, EXC_SEGMENT_NOT_PRESENT, EXC_STACK_SEGMENT_FAULT,
     EXC_GENERAL_PROTECTION, EXC_PAGE_FAULT, EXC_RESERVED_15, EXC_X87_FPU_ERROR, EXC_ALIGNMENT_CHECK,
     EXC_MACHINE_CHECK, EXC_SIMD_FP_EXCEPTION, EXC_VIRTUALIZATION, EXC_CONTROL_PROTECTION,
     EXC_RESERVED_22, EXC_RESERVED_23, EXC_RESERVED_24, EXC_RESERVED_25, EXC_RESERVED_26,
     EXC_RESERVED_27, EXC_RESERVED_28, EXC_RESERVED_29, EXC_RESERVED_30, EXC_RESERVED_31,
     ISR_PIT_TIMER, ISR_KEYBOARD, ISR_CASCADE, ISR_COM2, ISR_COM1, ISR_LPT2, ISR_FLOPPY_DISK,
     ISR_LPT1, ISR_RTC, ISR_PERIPHERAL_1, ISR_PERIPHERAL_2, ISR_PERIPHERAL_3, ISR_MOUSE, ISR_FPU,
     ISR_PRIMARY_ATA, ISR_SECONDARY_ATA]"

primrec index_of :: "'a \<Rightarrow> 'a list \<Rightarrow> nat" where
  "index_of x [] = 0"
| "index_of x (y # ys) = (if x = y then 0 else Suc (index_of x ys))"

definition vector_value :: "interrupt_vector_t \<Rightarrow> u8" where
  "vector_value v = of_nat (index_of v interrupt_vectors)"

abbreviation INT_FLAGS_PRESENT :: u8 where "INT_FLAGS_PRESENT \<equiv> 0x80"
abbreviation INT_FLAGS_DPL_KERNEL :: u8 where "INT_FLAGS_DPL_KERNEL \<equiv> 0x00"
abbreviation INT_FLAGS_GATE_INTR :: u8 where "INT_FLAGS_GATE_INTR \<equiv> 0x0E"
abbreviation INT_FLAGS_GATE_TRAP :: u8 where "INT_FLAGS_GATE_TRAP \<equiv> 0x0F"

text \<open>
  The state of both files: the table and the register loaded from it, the two handler arrays
  (0 is the null pointer), the flag \<^verbatim>\<open>i_active\<close>, the CPU's interrupt flag, and the controllers.
\<close>

record intr =
  idt :: "idt_entry_t list"
  idtr :: idtr_t
  exc_handlers :: "addr list"
  isr_handlers :: "addr list"
  i_active :: bool
  cpu_if :: bool
  ipic :: pic

definition idt_init :: "addr \<Rightarrow> intr \<Rightarrow> intr" where
  "idt_init idt_addr s = s\<lparr>idtr := \<lparr>limit = 16 * 256 - 1, base = idt_addr\<rparr>\<rparr>"

definition idt_set_descriptor :: "u8 \<Rightarrow> addr \<Rightarrow> u8 \<Rightarrow> intr \<Rightarrow> intr" where
  "idt_set_descriptor vector service_routine flags s =
     s\<lparr>idt := (idt s)[unat vector :=
        \<lparr>isr_low = ucast (service_routine AND 0xFFFF),
         kernel_cs = 0x08,
         ist = 0,
         attributes = flags,
         isr_mid = ucast (drop_bit 16 service_routine AND 0xFFFF),
         isr_high = ucast (drop_bit 32 service_routine AND 0xFFFFFFFF),
         reserved = 0\<rparr>]\<rparr>"

definition on_pic :: "(pic \<Rightarrow> pic outcome) \<Rightarrow> intr \<Rightarrow> intr outcome" where
  "on_pic f s = bindR (f (ipic s)) (\<lambda>p. Inr (s\<lparr>ipic := p\<rparr>))"

definition interrupts_init :: "(nat \<Rightarrow> addr) \<Rightarrow> (nat \<Rightarrow> addr) \<Rightarrow> addr \<Rightarrow> intr \<Rightarrow> intr" where
  "interrupts_init exc_stubs isr_stubs idt_addr s =
     (let flags = INT_FLAGS_PRESENT OR INT_FLAGS_DPL_KERNEL OR INT_FLAGS_GATE_TRAP;
          s = fold (\<lambda>vector. idt_set_descriptor (of_nat vector) (exc_stubs vector) flags) [0..<32] s;
          s = s\<lparr>ipic := pic_init 0x20 (ipic s)\<rparr>;
          flags = INT_FLAGS_PRESENT OR INT_FLAGS_DPL_KERNEL OR INT_FLAGS_GATE_INTR;
          s = fold (\<lambda>irq_num. idt_set_descriptor (of_nat irq_num) (isr_stubs (irq_num - 32)) flags) [32..<48] s
      in idt_init idt_addr s)"

definition interrupts_register_handler :: "device \<Rightarrow> u8 \<Rightarrow> addr \<Rightarrow> intr \<Rightarrow> intr outcome" where
  "interrupts_register_handler dev vector handler s =
     (if vector < 32 then Inr (s\<lparr>exc_handlers := (exc_handlers s)[unat vector := handler]\<rparr>)
      else if vector < 48 then
        let s = s\<lparr>isr_handlers := (isr_handlers s)[unat vector - 32 := handler]\<rparr>
        in on_pic (pic_clear_mask dev vector) s
      else Inr s)"

definition interrupts_enable :: "intr \<Rightarrow> intr" where
  "interrupts_enable s = s\<lparr>cpu_if := True, i_active := True\<rparr>"

definition interrupts_disable :: "intr \<Rightarrow> intr" where
  "interrupts_disable s = s\<lparr>cpu_if := False, i_active := False\<rparr>"

definition interrupts_active :: "intr \<Rightarrow> bool" where
  "interrupts_active s = i_active s"

text \<open>
  The file logs at level 6, to the serial port: the messages become port accesses of the one trace.
  Both numbers are 64-bit values printed with \<^verbatim>\<open>%d\<close>.
\<close>

definition intr_log :: "device \<Rightarrow> string \<Rightarrow> u64 \<Rightarrow> intr \<Rightarrow> intr outcome" where
  "intr_log dev str v s =
     bindR (log_message 6 1 dev LOG_TRACE (map of_char str) [Vu64 v] (fresh_out\<lparr>out_io := pic_io (ipic s)\<rparr>))
       (\<lambda>d. Inr (s\<lparr>ipic := (ipic s)\<lparr>pic_io := out_io d\<rparr>\<rparr>))"

text \<open>\<open>call\<close> is the call through a handler pointer; \<open>m\<close> is the memory the frame is read from.\<close>

definition exception_handler ::
  "device \<Rightarrow> memory \<Rightarrow> (addr \<Rightarrow> addr \<Rightarrow> intr \<Rightarrow> intr outcome) \<Rightarrow> addr \<Rightarrow> u64 \<Rightarrow> intr \<Rightarrow> intr outcome" where
  "exception_handler dev m call frame vector_number s =
     bindR (intr_log dev (''Vector Number %d'' @ [LF, CR]) vector_number s) (\<lambda>s.
     bindR (intr_log dev (''Error code: %d'' @ [LF, CR]) (f_error_code (load_frame m frame)) s) (\<lambda>s.
     ASSERT (vector_number < 32)
    (ASSERT (exc_handlers s ! unat vector_number \<noteq> 0)
    (bindR (call (exc_handlers s ! unat vector_number) frame s) (\<lambda>s. Inl Endless_loop)))))"

definition interrupt_handler ::
  "device \<Rightarrow> (addr \<Rightarrow> addr \<Rightarrow> intr \<Rightarrow> intr outcome) \<Rightarrow> addr \<Rightarrow> u64 \<Rightarrow> intr \<Rightarrow> intr outcome" where
  "interrupt_handler dev call frame irq_number s =
     bindR (intr_log dev (''IRQ %d'' @ [LF, CR]) irq_number s) (\<lambda>s.
     ASSERT (irq_number \<ge> 32 \<and> irq_number < 48)
    (ASSERT (isr_handlers s ! (unat irq_number - 32) \<noteq> 0)
    (bindR (call (isr_handlers s ! (unat irq_number - 32)) frame s) (\<lambda>s.
       on_pic (pic_eoi (ucast irq_number)) s))))"

section \<open>Messages\<close>

lemma render_plain:
  assumes "0 \<notin> set cs" "0x25 \<notin> set cs" "ds \<noteq> []" "hd ds = 0x25"
  shows "render (cs @ ds) args = (cs @ fst (render ds args), snd (render ds args))"
  using assms(1,2)
proof (induction cs)
  case (Cons c cs)
  obtain d es where de: "cs @ ds = d # es" using assms(3) by (cases "cs @ ds") auto
  then show ?case using Cons by (simp split: prod.split)
qed simp

text \<open>
  The bytes of a message with one number, printed with \<^verbatim>\<open>%d\<close> as the signed integer in its lower half; the
  most negative one has no text, since \<^verbatim>\<open>printf\<close> negates it.
\<close>

definition int_printable :: "u64 \<Rightarrow> bool" where
  "int_printable v \<longleftrightarrow> sint (ucast v :: u32) \<noteq> - (2 ^ 31)"

definition message :: "string \<Rightarrow> u64 \<Rightarrow> u8 list" where
  "message str v =
     log_level_color LOG_TRACE @ map of_char str @ signed_decimal (sint (ucast v :: u32)) @ [0x0A, 0x0D] @ log_level_color LOG_NONE"

lemma int_printable_small: "unat v < 2 ^ 31 \<Longrightarrow> int_printable v"
proof -
  assume v: "unat v < 2 ^ 31"
  define w where "w = (ucast v :: u32)"
  have "unat w = unat v" using v by (simp add: w_def unsigned_ucast_eq take_bit_nat_eq_self)
  moreover have "uint w = int (unat w)" by simp
  ultimately have "uint w = int (unat v)" by (simp only:)
  moreover have "int (unat v) < 2 ^ 31" using v by (metis of_nat_less_iff of_nat_numeral of_nat_power)
  moreover have "- (2 ^ 31) \<le> int (unat v)" by (rule order_trans [of _ 0]) simp_all
  ultimately have "sint w = int (unat v)" unfolding sint_uint by (simp add: signed_take_bit_int_eq_self)
  then have "0 \<le> sint w" by simp
  then show "int_printable v" unfolding int_printable_def w_def [symmetric] by (auto simp: not_le)
qed

text \<open>What a message leaves behind.\<close>

definition logged :: "io \<Rightarrow> intr \<Rightarrow> intr" where
  "logged es s = s\<lparr>ipic := (ipic s)\<lparr>pic_io := pic_io (ipic s) @ es\<rparr>\<rparr>"

lemma logged_handlers [simp]: "isr_handlers (logged es s) = isr_handlers s" "exc_handlers (logged es s) = exc_handlers s"
  by (simp_all add: logged_def)

lemma logged_logged [simp]: "logged es' (logged es s) = logged (es @ es') s"
  by (simp add: logged_def)

lemma intr_log_live:
  assumes "uart_live dev" "0 \<notin> set (map of_char str :: u8 list)" "0x25 \<notin> set (map of_char str :: u8 list)" "length str < 100"
  shows "if int_printable v
    then \<exists>es. intr_log dev (str @ ''%d'' @ [LF, CR]) v s = Inr (logged es s) \<and> uart_events es \<and> sent es = message str v
    else intr_log dev (str @ ''%d'' @ [LF, CR]) v s = Inl Signed_overflow"
proof -
  let ?text = "map of_char str :: u8 list" and ?d = "fresh_out\<lparr>out_io := pic_io (ipic s)\<rparr>"
  let ?str = "?text @ [0x25, 0x64, 0x0A, 0x0D]"
  have bytes: "map of_char (str @ ''%d'' @ [LF, CR]) = ?str" by simp
  have len: "length ?str < 0xFFFFFFFF" using assms(4) by simp
  have level: "log_level_value LOG_TRACE \<le> 6" by simp
  have "render ?str [Vu64 v] = (if int_printable v then (?text @ signed_decimal (sint (ucast v :: u32)) @ [0x0A, 0x0D], None)
      else (?text @ [0x2D], Some Signed_overflow))"
    unfolding int_printable_def using render_plain [OF assms(2,3), of "[0x25, 0x64, 0x0A, 0x0D]" "[Vu64 v]"]
    by (simp add: directive_def int_text_def)
  note render = this
  note live = log_message_live [OF assms(1) len _ level, of 1 "[Vu64 v]" ?d]
  show ?thesis
  proof (cases "int_printable v")
    case True
    then obtain es where "log_message 6 1 dev LOG_TRACE ?str [Vu64 v] ?d = Inr (?d\<lparr>out_io := pic_io (ipic s) @ es\<rparr>)"
      "uart_events es" "sent es = message str v"
      using live unfolding render by (auto simp: message_def log_text_def render simp del: log_level_color.simps)
    then show ?thesis using True unfolding intr_log_def bytes by (simp add: logged_def) blast
  next
    case False
    then show ?thesis using live unfolding intr_log_def bytes render by simp
  qed
qed

text \<open>The two ways an interrupt can go after its message.\<close>

lemma interrupt_handler_eq:
  assumes "uart_live dev" "32 \<le> v" "v < 48"
  shows "\<exists>es. uart_events es \<and> sent es = message ''IRQ '' (ucast v) \<and>
    (\<forall>call frame. interrupt_handler dev call frame (ucast v) s =
      (if isr_handlers s ! (unat v - 32) = 0 then Inl Assertion_hang
       else bindR (call (isr_handlers s ! (unat v - 32)) frame (logged es s)) (on_pic (pic_eoi v))))"
proof -
  have v: "32 \<le> unat v" "unat v < 48" using assms(2,3) by (simp_all add: word_le_nat_alt word_less_nat_alt)
  have u: "unat (ucast v :: u64) = unat v" using v(2) by (simp add: unsigned_ucast_eq take_bit_nat_eq_self)
  have small: "int_printable (ucast v)" using u v(2) by (intro int_printable_small) simp
  obtain es where es: "intr_log dev (''IRQ %d'' @ [LF, CR]) (ucast v) s = Inr (logged es s)" "uart_events es" "sent es = message ''IRQ '' (ucast v)"
    using intr_log_live [OF assms(1), of "''IRQ ''" "ucast v" s] small by auto
  have b: "32 \<le> (ucast v :: u64)" "(ucast v :: u64) < 48" using v by (simp_all add: word_le_nat_alt word_less_nat_alt u)
  have c: "ucast (ucast v :: u64) = v" by (rule bit_word_eqI) (auto simp: bit_ucast_iff dest: bit_imp_le_length)
  show ?thesis using b es(2,3)
    by (intro exI [of _ es]) (simp add: interrupt_handler_def es(1) u c ASSERT_def del: append_Cons append_Nil)
qed

section \<open>Gates\<close>

text \<open>The address a gate of the table leads to.\<close>

definition gate_target :: "idt_entry_t \<Rightarrow> addr" where
  "gate_target e = ucast (isr_low e) OR push_bit 16 (ucast (isr_mid e)) OR push_bit 32 (ucast (isr_high e))"

lemma split_address:
  "ucast (ucast (a AND 0xFFFF) :: u16) OR push_bit 16 (ucast (ucast (drop_bit 16 a AND 0xFFFF) :: u16)) OR
   push_bit 32 (ucast (ucast (drop_bit 32 a AND 0xFFFFFFFF) :: u32)) = (a :: u64)"
proof (rule bit_word_eqI)
  fix n assume n: "n < LENGTH(64)"
  have m16: "(0xFFFF :: u64) = mask 16" and m32: "(0xFFFFFFFF :: u64) = mask 32" by (simp_all add: mask_eq_exp_minus_1)
  show "bit (ucast (ucast (a AND 0xFFFF) :: u16) OR push_bit 16 (ucast (ucast (drop_bit 16 a AND 0xFFFF) :: u16)) OR
   push_bit 32 (ucast (ucast (drop_bit 32 a AND 0xFFFFFFFF) :: u32)) :: u64) n = bit a n"
    unfolding m16 m32 using n
    by (cases "n < 16"; cases "n < 32")
      (simp_all add: bit_or_iff bit_and_iff bit_ucast_iff bit_push_bit_iff bit_drop_bit_eq bit_mask_iff
        less_diff_conv2)
qed

definition gate :: "addr \<Rightarrow> u8 \<Rightarrow> idt_entry_t \<Rightarrow> bool" where
  "gate a flags e \<longleftrightarrow> gate_target e = a \<and> attributes e = flags \<and> kernel_cs e = 8 \<and> ist e = 0 \<and> reserved e = 0"

lemma idt_set_descriptor_gate:
  "unat v < length (idt s) \<Longrightarrow> gate a flags (idt (idt_set_descriptor v a flags s) ! unat v)"
  "i \<noteq> unat v \<Longrightarrow> idt (idt_set_descriptor v a flags s) ! i = idt s ! i"
  "length (idt (idt_set_descriptor v a flags s)) = length (idt s)"
  "ipic (idt_set_descriptor v a flags s) = ipic s" "exc_handlers (idt_set_descriptor v a flags s) = exc_handlers s"
  "isr_handlers (idt_set_descriptor v a flags s) = isr_handlers s"
  using split_address [of a] by (simp_all add: idt_set_descriptor_def gate_def gate_target_def)

lemma fold_set_descriptors:
  assumes "n \<le> 256" "length (idt s) = 256"
    "s' = fold (\<lambda>v. idt_set_descriptor (of_nat v) (f v) flags) [k..<n] s"
  shows "length (idt s') = 256 \<and> ipic s' = ipic s \<and> exc_handlers s' = exc_handlers s \<and> isr_handlers s' = isr_handlers s \<and>
    (\<forall>i<256. if k \<le> i \<and> i < n then gate (f i) flags (idt s' ! i) else idt s' ! i = idt s ! i)"
  using assms(1) unfolding assms(3)
proof (induction n)
  case 0
  then show ?case using assms(2) by simp
next
  case (Suc n)
  let ?s = "fold (\<lambda>v. idt_set_descriptor (of_nat v) (f v) flags) [k..<n] s"
  have IH: "length (idt ?s) = 256" "ipic ?s = ipic s" "exc_handlers ?s = exc_handlers s" "isr_handlers ?s = isr_handlers s"
    "\<forall>i<256. if k \<le> i \<and> i < n then gate (f i) flags (idt ?s ! i) else idt ?s ! i = idt s ! i"
    using Suc by auto
  show ?case
  proof (cases "k \<le> n")
    case True
    have n: "unat (of_nat n :: u8) = n" using Suc.prems by (simp add: unat_of_nat)
    have "gate (f n) flags (idt (idt_set_descriptor (of_nat n) (f n) flags ?s) ! n)"
      using idt_set_descriptor_gate(1) [of "of_nat n" ?s "f n" flags] n IH(1) Suc.prems by simp
    then show ?thesis
      using True IH n idt_set_descriptor_gate(2) [of _ "of_nat n" "f n" flags ?s]
      by (auto simp: idt_set_descriptor_gate(3-6) less_Suc_eq)
  next
    case False
    then show ?thesis using IH by auto
  qed
qed

lemma fold_set_descriptors_keeps:
  defines "g \<equiv> \<lambda>f flags. fold (\<lambda>v. idt_set_descriptor (of_nat v) (f v) flags)"
  shows "ipic (g f flags vs s) = ipic s" "exc_handlers (g f flags vs s) = exc_handlers s"
    "isr_handlers (g f flags vs s) = isr_handlers s" "i_active (g f flags vs s) = i_active s"
  unfolding g_def by (induction vs arbitrary: s) (simp_all add: idt_set_descriptor_def)

lemma interrupts_init_fields:
  "ipic (interrupts_init exc_stubs isr_stubs a s) = pic_init 0x20 (ipic s)"
  "exc_handlers (interrupts_init exc_stubs isr_stubs a s) = exc_handlers s"
  "isr_handlers (interrupts_init exc_stubs isr_stubs a s) = isr_handlers s"
  "i_active (interrupts_init exc_stubs isr_stubs a s) = i_active s"
  by (simp_all add: interrupts_init_def Let_def idt_init_def fold_set_descriptors_keeps del: upt_rec_numeral fold_simps)

lemma interrupts_init_table:
  assumes "length (idt s) = 256" "s' = interrupts_init exc_stubs isr_stubs idt_addr s"
  shows "(\<forall>i<32. gate (exc_stubs i) 0x8F (idt s' ! i)) \<and> (\<forall>i<16. gate (isr_stubs i) 0x8E (idt s' ! (32 + i))) \<and>
    (\<forall>i. 48 \<le> i \<and> i < 256 \<longrightarrow> idt s' ! i = idt s ! i) \<and>
    idtr s' = \<lparr>limit = 4095, base = idt_addr\<rparr> \<and> pic_ready (ipic s') \<and>
    master_pic_offset (ipic s') = 32 \<and> pic_mask MASTER_PIC_DATA (ipic s') = Some 0xFF \<and>
    pic_mask SLAVE_PIC_DATA (ipic s') = Some 0xFF"
proof -
  define s1 where "s1 = fold (\<lambda>v. idt_set_descriptor (of_nat v) (exc_stubs v) 0x8F) [0..<32] s"
  define s2 where "s2 = s1\<lparr>ipic := pic_init 0x20 (ipic s1)\<rparr>"
  define s3 where "s3 = fold (\<lambda>v. idt_set_descriptor (of_nat v) (isr_stubs (v - 32)) 0x8E) [32..<48] s2"
  have s': "s' = idt_init idt_addr s3" unfolding assms(2) interrupts_init_def Let_def s1_def s2_def s3_def by simp
  have a: "length (idt s1) = 256" "\<forall>i<256. if i < 32 then gate (exc_stubs i) 0x8F (idt s1 ! i) else idt s1 ! i = idt s ! i"
    using fold_set_descriptors [OF _ assms(1) s1_def] by auto
  have "length (idt s2) = 256" using a(1) by (simp add: s2_def)
  note b = fold_set_descriptors [OF _ this s3_def]
  have b': "ipic s3 = ipic s2" "\<forall>i<256. if 32 \<le> i \<and> i < 48 then gate (isr_stubs (i - 32)) 0x8E (idt s3 ! i) else idt s3 ! i = idt s1 ! i"
    using b by (auto simp: s2_def)
  have "gate (exc_stubs i) 0x8F (idt s' ! i)" if "i < 32" for i
    using a(2) [rule_format, of i] b'(2) [rule_format, of i] that by (simp add: s' idt_init_def)
  moreover have "gate (isr_stubs i) 0x8E (idt s' ! (32 + i))" if "i < 16" for i
    using b'(2) [rule_format, of "32 + i"] that by (simp add: s' idt_init_def)
  moreover have "idt s' ! i = idt s ! i" if "48 \<le> i" "i < 256" for i
    using a(2) [rule_format, of i] b'(2) [rule_format, of i] that by (simp add: s' idt_init_def)
  ultimately show ?thesis using b'(1) by (simp add: s' idt_init_def s2_def pic_init_result pic_ready_def)
qed

section \<open>Properties\<close>

text \<open>The state before \<^verbatim>\<open>interrupts_init\<close>: everything zero, as in a static data section.\<close>

definition cold_intr :: intr where
  "cold_intr = \<lparr>idt = replicate 256 \<lparr>isr_low = 0, kernel_cs = 0, ist = 0, attributes = 0, isr_mid = 0,
       isr_high = 0, reserved = 0\<rparr>,
     idtr = \<lparr>limit = 0, base = 0\<rparr>, exc_handlers = replicate 32 0, isr_handlers = replicate 16 0,
     i_active = True, cpu_if = False,
     ipic = \<lparr>master_pic_offset = 0, slave_pic_offset = 0, pic_io = []\<rparr>\<rparr>"

text \<open>C28: after \<^verbatim>\<open>interrupts_init\<close> the gates of vectors 0 to 31 are kernel trap gates to the
  exception stubs and those of vectors 32 to 47 kernel interrupt gates to the interrupt stubs, with
  the stub's whole 64-bit address in the three pieces of the entry; the other gates are as before,
  the controllers use vectors 32 to 47 with every line masked, and the IDT register covers 256
  entries.\<close>

theorem interrupts_init_gates:
  assumes "length (idt s) = 256" "s' = interrupts_init exc_stubs isr_stubs idt_addr s"
  shows "(\<forall>i<32. gate (exc_stubs i) 0x8F (idt s' ! i)) \<and> (\<forall>i<16. gate (isr_stubs i) 0x8E (idt s' ! (32 + i))) \<and>
    (\<forall>i. 48 \<le> i \<and> i < 256 \<longrightarrow> idt s' ! i = idt s ! i) \<and>
    idtr s' = \<lparr>limit = 4095, base = idt_addr\<rparr> \<and> pic_ready (ipic s') \<and>
    master_pic_offset (ipic s') = 32 \<and> pic_mask MASTER_PIC_DATA (ipic s') = Some 0xFF \<and>
    pic_mask SLAVE_PIC_DATA (ipic s') = Some 0xFF"
  using assms by (rule interrupts_init_table)

theorem interrupts_init_gates_witness:
  "gate 0xFFFFFFFF80100E00 0x8F (idt (interrupts_init (\<lambda>i. 0xFFFFFFFF80100000 + 0x100 * of_nat i) (\<lambda>i. 0) 0 cold_intr) ! 14)"
proof -
  have "length (idt cold_intr) = 256" by (simp add: cold_intr_def)
  from interrupts_init_gates [OF this refl, of "\<lambda>i. 0xFFFFFFFF80100000 + 0x100 * of_nat i" "\<lambda>i. 0" 0]
  have "\<forall>i<32. gate (0xFFFFFFFF80100000 + 0x100 * of_nat i) 0x8F
    (idt (interrupts_init (\<lambda>i. 0xFFFFFFFF80100000 + 0x100 * of_nat i) (\<lambda>i. 0) 0 cold_intr) ! i)"
    by (elim conjE)
  from this [rule_format, of 14] show ?thesis by simp
qed

text \<open>C29: a handler registered for a hardware interrupt (with the controllers set up for vectors 32
  to 47) is the one \<^verbatim>\<open>interrupt_handler\<close> calls for that vector, with the frame, after its message with the number of
  the vector has gone out on the serial port; when the handler returns, having left the controllers alone, the interrupt is
  acknowledged at the vector's controllers; when it does not, nothing is. Registration opened the vector's line.\<close>

theorem registered_handler_is_called:
  assumes "pic_ready (ipic s)" "master_pic_offset (ipic s) = 32" "length (isr_handlers s) = 16"
    "32 \<le> v" "v < 48" "h \<noteq> 0" "reads_back dev (vector_port v (ipic s))"
    "pic_mask (vector_port v (ipic s)) (ipic s) = Some old" "uart_live dev"
  shows "\<exists>s1 es. interrupts_register_handler dev v h s = Inr s1 \<and>
    pic_mask (vector_port v (ipic s)) (ipic s1) = Some (old AND NOT (push_bit (vector_bit v (ipic s)) 1)) \<and>
    uart_events es \<and> sent es = message ''IRQ '' (ucast v) \<and>
    (\<forall>call frame s2. call h frame (logged es s1) = Inr s2 \<and> ipic s2 = ipic (logged es s1) \<longrightarrow>
       interrupt_handler dev call frame (ucast v) s1 = Inr (logged (eoi_events v (ipic s)) s2)) \<and>
    (\<forall>call frame e. call h frame (logged es s1) = Inl e \<longrightarrow> interrupt_handler dev call frame (ucast v) s1 = Inl e)"
proof -
  have v: "32 \<le> unat v" "unat v < 48" using assms(4,5) by (simp_all add: word_le_nat_alt word_less_nat_alt)
  have so: "unat (slave_pic_offset (ipic s)) = 40" using assms(1,2) by (simp add: pic_ready_def)
  have ok: "pic_vector_ok v (ipic s)" using v so assms(2) by (simp add: pic_vector_ok_def word_le_nat_alt)
  obtain p where p: "pic_clear_mask dev v (ipic s) = Inr p" "master_pic_offset p = 32"
    "slave_pic_offset p = slave_pic_offset (ipic s)"
    "pic_mask (vector_port v (ipic s)) p = Some (old AND NOT (push_bit (vector_bit v (ipic s)) 1))"
    using mask_update(1) [OF assms(1) ok assms(7,8)] pic_line_port(3) [OF assms(1) ok] assms(2) by fastforce
  define s1 where "s1 = s\<lparr>isr_handlers := (isr_handlers s)[unat v - 32 := h], ipic := p\<rparr>"
  have r: "interrupts_register_handler dev v h s = Inr s1" "ipic s1 = p" "isr_handlers s1 ! (unat v - 32) = h"
    using assms(3-5) p(1) v by (simp_all add: interrupts_register_handler_def on_pic_def s1_def)
  obtain es where es: "uart_events es" "sent es = message ''IRQ '' (ucast v)" "\<forall>call frame. interrupt_handler dev call frame (ucast v) s1 =
      bindR (call h frame (logged es s1)) (on_pic (pic_eoi v))"
    using interrupt_handler_eq [OF assms(9,4,5), of s1] r(3) assms(6) by auto
  have "on_pic (pic_eoi v) s2 = Inr (logged (eoi_events v (ipic s)) s2)" if "ipic s2 = ipic (logged es s1)" for s2
  proof -
    have "ipic s2 = p\<lparr>pic_io := pic_io p @ es\<rparr>" using that r(2) by (simp add: logged_def)
    then have "pic_vector_ok v (ipic s2)" "eoi_events v (ipic s2) = eoi_events v (ipic s)"
      using ok p(2,3) assms(2) by (simp_all add: pic_vector_ok_def eoi_events_def)
    then show ?thesis by (simp add: on_pic_def pic_eoi_eq logged_def)
  qed
  then show ?thesis using r(1,2) es p(4) by (intro exI [of _ s1] exI [of _ es]) simp
qed

text \<open>A serial port that is always ready, with latches elsewhere.\<close>

definition ready_uart :: device where
  "ready_uart t p = (if p = 0x3FD then 0x20 else latch t p)"

lemma ready_uart_facts: "uart_live ready_uart" "p \<noteq> 0x3FD \<Longrightarrow> reads_back ready_uart p"
  using latch_reads_back [of p] by (simp_all add: uart_live_def tx_ready_def ready_uart_def reads_back_def)

theorem registered_handler_is_called_witness:
  "\<exists>s1 s2 es. interrupts_register_handler ready_uart 33 0x2000 (cold_intr\<lparr>ipic := fresh_pic\<rparr>) = Inr s1 \<and>
    pic_mask MASTER_PIC_DATA (ipic s1) = Some 0xFD \<and> sent es = message ''IRQ '' 33 \<and>
    interrupt_handler ready_uart (\<lambda>h f s. if h = 0x2000 then Inr s else Inl Bad_pointer) 0x9000 33 s1 = Inr s2 \<and>
    pic_io (ipic s2) = pic_io (ipic s1) @ es @ [Out MASTER_PIC_CMD OCW2_EOI]"
proof -
  let ?s = "cold_intr\<lparr>ipic := fresh_pic\<rparr>" and ?call = "\<lambda>h f s. if h = 0x2000 then Inr s else Inl Bad_pointer"
  have port: "vector_port 33 (ipic ?s) = MASTER_PIC_DATA" "vector_bit 33 (ipic ?s) = 1"
    "eoi_events 33 (ipic ?s) = [Out MASTER_PIC_CMD OCW2_EOI]"
    by (simp_all add: vector_port_def vector_bit_def eoi_events_def fresh_pic_facts)
  obtain s1 es where s1: "interrupts_register_handler ready_uart 33 0x2000 ?s = Inr s1" "pic_mask MASTER_PIC_DATA (ipic s1) = Some 0xFD"
    "sent es = message ''IRQ '' 33" "interrupt_handler ready_uart ?call 0x9000 33 s1 = Inr (logged [Out MASTER_PIC_CMD OCW2_EOI] (logged es s1))"
    using registered_handler_is_called [of ?s 33 "0x2000" ready_uart "0xFF"] port
    by (auto simp: fresh_pic_facts cold_intr_def ready_uart_facts)
  then show ?thesis by (auto simp: logged_def)
qed

text \<open>C30: \<^verbatim>\<open>exception_handler\<close> sends two messages on the serial port, with the vector and the error code of the frame, then hangs
  on a vector with no handler or calls the handler of the vector with the frame; it never returns to the code that
  faulted, so a page fault its handler has dealt with still stops the kernel. Where the lower half of one of the
  two numbers is the most negative integer, as it can be for an error code that is RAX, printing it is undefined.\<close>

theorem exception_handler_stops:
  assumes "uart_live dev" "e = f_error_code (load_frame m frame)"
  shows "if int_printable vector \<and> int_printable e
    then \<exists>es. uart_events es \<and> sent es = message ''Vector Number '' vector @ message ''Error code: '' e \<and>
      (\<forall>call. exception_handler dev m call frame vector s =
        (if vector < 32 \<and> exc_handlers s ! unat vector \<noteq> 0
         then bindR (call (exc_handlers s ! unat vector) frame (logged es s)) (\<lambda>_. Inl Endless_loop)
         else Inl Assertion_hang))
    else exception_handler dev m call frame vector s = Inl Signed_overflow"
proof -
  let ?v = "''Vector Number %d'' @ [LF, CR]" and ?e = "''Error code: %d'' @ [LF, CR]"
  have log: "if int_printable vector then \<exists>es. intr_log dev ?v vector s = Inr (logged es s) \<and> uart_events es \<and> sent es = message ''Vector Number '' vector
      else intr_log dev ?v vector s = Inl Signed_overflow"
    "if int_printable e then \<exists>es. intr_log dev ?e e s' = Inr (logged es s') \<and> uart_events es \<and> sent es = message ''Error code: '' e
      else intr_log dev ?e e s' = Inl Signed_overflow" for s'
    using intr_log_live [OF assms(1), of "''Vector Number ''" vector s] intr_log_live [OF assms(1), of "''Error code: ''" e s'] by auto
  show ?thesis
  proof (cases "int_printable vector")
    case True
    then obtain es1 where 1: "intr_log dev ?v vector s = Inr (logged es1 s)" "uart_events es1" "sent es1 = message ''Vector Number '' vector"
      using log(1) by auto
    show ?thesis
    proof (cases "int_printable e")
      case True
      then obtain es2 where 2: "intr_log dev ?e e (logged es1 s) = Inr (logged es2 (logged es1 s))" "uart_events es2" "sent es2 = message ''Error code: '' e"
        using log(2) [of "logged es1 s"] by auto
      have "exception_handler dev m call frame vector s =
        (if vector < 32 \<and> exc_handlers s ! unat vector \<noteq> 0
         then bindR (call (exc_handlers s ! unat vector) frame (logged (es1 @ es2) s)) (\<lambda>_. Inl Endless_loop)
         else Inl Assertion_hang)" for call
        unfolding exception_handler_def 1(1) bindR_simps assms(2) [symmetric] 2(1) by (simp add: ASSERT_def)
      then show ?thesis using \<open>int_printable vector\<close> True 1(2,3) 2(2,3) by (auto intro!: exI [of _ "es1 @ es2"])
    next
      case False
      then have "intr_log dev ?e e (logged es1 s) = Inl Signed_overflow" using log(2) [of "logged es1 s"] by simp
      then show ?thesis using False unfolding exception_handler_def 1(1) bindR_simps assms(2) [symmetric] by simp
    qed
  next
    case False
    then have "intr_log dev ?v vector s = Inl Signed_overflow" using log(1) by simp
    then show ?thesis using False unfolding exception_handler_def by simp
  qed
qed

theorem exception_handler_stops_witness:
  "exception_handler ready_uart (\<lambda>_. 0) (\<lambda>h f s. Inr s) 0x9000 14 (cold_intr\<lparr>exc_handlers := (replicate 32 0)[14 := 0x2000]\<rparr>)
     = Inl Endless_loop \<and>
   exception_handler ready_uart (\<lambda>_. 0) (\<lambda>h f s. Inr s) 0x9000 13 cold_intr = Inl Assertion_hang"
proof -
  have "f_error_code (load_frame (\<lambda>_. 0) 0x9000) = 0" by (simp add: load_frame_def load64_def load_le_zero)
  moreover have "int_printable 0" "int_printable 14" "int_printable 13" by (simp_all add: int_printable_small)
  ultimately show ?thesis
    using exception_handler_stops [OF ready_uart_facts(1), of 0 "\<lambda>_. 0" "0x9000" 14
          "cold_intr\<lparr>exc_handlers := (replicate 32 0)[14 := 0x2000]\<rparr>"]
      exception_handler_stops [OF ready_uart_facts(1), of 0 "\<lambda>_. 0" "0x9000" 13 cold_intr]
    by (auto simp: cold_intr_def)
qed

end
