(* ===== verification/Paging.thy ===== *)
theory Paging
  imports Bitmap Multiboot Interrupts "HOL-Library.Multiset"
begin

text \<open>
  The memory map, the page pools and the page tables of \<^verbatim>\<open>src/kernel/mem/paging.c\<close> and
  \<^verbatim>\<open>src/kernel/mem/paging.h\<close>. The globals of the file are the record \<open>paging\<close>; bitmaps, pages and
  tables live in the byte memory. The address of the boot information, the linker symbol
  \<^verbatim>\<open>_kernel_end\<close> and the address of the page fault handler are arguments. The file disables its
  log, so its messages do nothing.
\<close>

section \<open>Page table entries\<close>

definition GET_PML4_OFS :: "u64 \<Rightarrow> u64" where "GET_PML4_OFS x = drop_bit 39 x AND 0x1FF"
definition GET_PML3_OFS :: "u64 \<Rightarrow> u64" where "GET_PML3_OFS x = drop_bit 30 x AND 0x1FF"
definition GET_PML2_OFS :: "u64 \<Rightarrow> u64" where "GET_PML2_OFS x = drop_bit 21 x AND 0x1FF"
definition GET_PML1_OFS :: "u64 \<Rightarrow> u64" where "GET_PML1_OFS x = drop_bit 12 x AND 0x1FF"
definition GET_OFS :: "u64 \<Rightarrow> u64" where "GET_OFS x = x AND 0xFFF"

abbreviation (input) PHYS_BASE :: u64 where "PHYS_BASE \<equiv> 0xFFFFFFFF80000000"
abbreviation (input) PAGE_SIZE :: u64 where "PAGE_SIZE \<equiv> 4096"

definition GET_BITS :: "u64 \<Rightarrow> nat \<Rightarrow> nat \<Rightarrow> u64" where
  "GET_BITS value pos len = drop_bit pos value AND (push_bit len 1 - 1)"

definition SET_BITS :: "u64 \<Rightarrow> nat \<Rightarrow> nat \<Rightarrow> u64 \<Rightarrow> u64" where
  "SET_BITS value pos len newval =
     (value AND NOT (push_bit pos (push_bit len 1 - 1))) OR push_bit pos (newval AND (push_bit len 1 - 1))"

abbreviation (input) PDE_PTE_BASE_POS :: nat where "PDE_PTE_BASE_POS \<equiv> 12"
abbreviation (input) PDE_PTE_BASE_LEN :: nat where "PDE_PTE_BASE_LEN \<equiv> 39"
abbreviation (input) PDE_PTE_US_POS :: nat where "PDE_PTE_US_POS \<equiv> 2"
abbreviation (input) PDE_PTE_US_LEN :: nat where "PDE_PTE_US_LEN \<equiv> 1"
abbreviation (input) PDE_PTE_RW_POS :: nat where "PDE_PTE_RW_POS \<equiv> 1"
abbreviation (input) PDE_PTE_RW_LEN :: nat where "PDE_PTE_RW_LEN \<equiv> 1"
abbreviation (input) PDE_PTE_PRESENT_POS :: nat where "PDE_PTE_PRESENT_POS \<equiv> 0"
abbreviation (input) PDE_PTE_PRESENT_LEN :: nat where "PDE_PTE_PRESENT_LEN \<equiv> 1"

text \<open>The position and length of every field of a directory entry and of a page table entry.\<close>

definition pde_fields :: "(nat \<times> nat) list" where
  "pde_fields = [(63, 1), (52, 11), (PDE_PTE_BASE_POS, PDE_PTE_BASE_LEN), (9, 3), (6, 3), (5, 1), (4, 1), (3, 1),
     (PDE_PTE_US_POS, PDE_PTE_US_LEN), (PDE_PTE_RW_POS, PDE_PTE_RW_LEN), (PDE_PTE_PRESENT_POS, PDE_PTE_PRESENT_LEN)]"

definition pte_fields :: "(nat \<times> nat) list" where
  "pte_fields = [(63, 1), (59, 4), (52, 7), (PDE_PTE_BASE_POS, PDE_PTE_BASE_LEN), (9, 3), (8, 1), (7, 1), (6, 1), (5, 1), (4, 1),
     (3, 1), (PDE_PTE_US_POS, PDE_PTE_US_LEN), (PDE_PTE_RW_POS, PDE_PTE_RW_LEN), (PDE_PTE_PRESENT_POS, PDE_PTE_PRESENT_LEN)]"

abbreviation (input) PALLOC_USER :: u8 where "PALLOC_USER \<equiv> 1"
abbreviation (input) PALLOC_ZERO :: u8 where "PALLOC_ZERO \<equiv> 2"

section \<open>State\<close>

record pool_t =
  allocated_bmp :: bitmap_t
  pinned_bmp :: bitmap_t
  md_base :: addr
  page_base :: addr

record paging =
  pg_mem :: memory
  memory_map :: "mmap_entry list"
  memory_map_len :: int
  pool_pages_total :: u64
  phys_mem_end_paddr :: u64
  init_pml4 :: addr
  kernel_pool :: pool_t
  user_pool :: pool_t
  cr3 :: u64

text \<open>The static variables as the image starts, over a given memory.\<close>

definition cold_paging :: "memory \<Rightarrow> paging" where
  "cold_paging m =
     (let bmp = \<lparr>bmp_buf = NULL, bmp_size = 0\<rparr>;
          pool = \<lparr>allocated_bmp = bmp, pinned_bmp = bmp, md_base = NULL, page_base = NULL\<rparr>
      in \<lparr>pg_mem = m,
          memory_map = replicate 10 \<lparr>entry_addr = 0, entry_len = 0, entry_type = 0, entry_zero = 0\<rparr>,
          memory_map_len = 0, pool_pages_total = 0, phys_mem_end_paddr = 0, init_pml4 = NULL,
          kernel_pool = pool, user_pool = pool, cr3 = 0\<rparr>)"

definition k_ptov :: "addr \<Rightarrow> addr" where
  "k_ptov phys_addr = phys_addr + PHYS_BASE"

definition k_vtop :: "addr \<Rightarrow> addr" where
  "k_vtop virt_addr = virt_addr - PHYS_BASE"

section \<open>The memory map\<close>

text \<open>The bytes of an array of entries, to copy into it at any length.\<close>

definition map_bytes :: "mmap_entry list \<Rightarrow> memory" where
  "map_bytes es = fold (\<lambda>k b. store_mmap_entry b (of_nat (24 * k)) (es ! k)) [0..<length es] (\<lambda>_. 0)"

definition copy_to_map :: "memory \<Rightarrow> addr \<Rightarrow> u64 \<Rightarrow> mmap_entry list \<Rightarrow> mmap_entry list outcome" where
  "copy_to_map m src n es =
     (if unat n \<le> 24 * length es
      then let b = (\<lambda>i. if i < n then m (src + i) else map_bytes es i)
           in Inr (map (\<lambda>k. load_mmap_entry b (of_nat (24 * k))) [0..<length es])
      else Inl Out_of_bounds)"

primrec sort_down :: "nat \<Rightarrow> mmap_entry list \<Rightarrow> mmap_entry list outcome" where
  "sort_down 0 es = Inr es"
| "sort_down (Suc j) es =
     (if Suc j < length es
      then if entry_addr (es ! Suc j) < entry_addr (es ! j)
           then sort_down j (es[j := es ! Suc j, Suc j := es ! j])
           else Inr es
      else Inl Out_of_bounds)"

definition memory_map_init :: "u32 \<Rightarrow> paging \<Rightarrow> paging outcome" where
  "memory_map_init mboot_tags s =
     bindR (multiboot_get_tag (pg_mem s) mboot_tags MULTIBOOT_TAG_TYPE_MMAP) (\<lambda>mmap_tag.
     if mmap_tag = NULL then Inl Bad_pointer
     else
       let entries = mmap_tag_entries mmap_tag;
           mmap_size = tag_size (pg_mem s) mmap_tag - 24
       in if mmap_tag_entry_size (pg_mem s) mmap_tag = 0 then Inl Division_by_zero
          else
            let len = sint (mmap_size div mmap_tag_entry_size (pg_mem s) mmap_tag)
            in bindR (copy_to_map (pg_mem s) entries (ucast mmap_size) (memory_map s)) (\<lambda>es.
               bindR (foldR sort_down [1..<nat len] es) (\<lambda>es.
               if len < 1 \<or> nat len > length es then Inl Out_of_bounds
               else
                 let top = es ! nat (len - 1)
                 in Inr (s\<lparr>memory_map := es, memory_map_len := len,
                           phys_mem_end_paddr := entry_addr top + entry_len top\<rparr>))))"

section \<open>Page pools\<close>

definition mark_page :: "pool_t \<Rightarrow> u64 \<Rightarrow> memory \<Rightarrow> memory outcome" where
  "mark_page pool i m =
     bindR (bitmap_set m (allocated_bmp pool) i True) (\<lambda>m. bitmap_set m (pinned_bmp pool) i True)"

definition mark_pages :: "pool_t \<Rightarrow> u64 \<Rightarrow> u64 \<Rightarrow> memory \<Rightarrow> memory outcome" where
  "mark_pages pool lo hi = foldR (\<lambda>i. mark_page pool (of_nat i)) [unat lo..<unat hi]"

definition reserve_entry :: "pool_t \<Rightarrow> u64 \<Rightarrow> mmap_entry \<Rightarrow> memory \<Rightarrow> memory outcome" where
  "reserve_entry pool pool_pages entry m =
     (if entry_type entry \<noteq> MULTIBOOT_MEMORY_AVAILABLE then
        let pool_start = md_base pool;
            pool_end = pool_start + pool_pages * PAGE_SIZE;
            region_start = k_ptov (entry_addr entry);
            region_end = k_ptov (entry_addr entry + entry_len entry);
            overlap_start = (if region_start > pool_start then region_start else pool_start);
            overlap_end = (if region_end < pool_end then region_end else pool_end)
        in if overlap_start < overlap_end
           then let start_page = (overlap_start - pool_start) div PAGE_SIZE;
                    end_page = (overlap_end - pool_start) div PAGE_SIZE
                in mark_pages pool start_page end_page m
           else Inr m
      else Inr m)"

definition reserve_nth :: "pool_t \<Rightarrow> u64 \<Rightarrow> mmap_entry list \<Rightarrow> nat \<Rightarrow> memory \<Rightarrow> memory outcome" where
  "reserve_nth pool pool_pages es i m =
     (if i < length es then reserve_entry pool pool_pages (es ! i) m else Inl Out_of_bounds)"

definition memory_pool_init :: "addr \<Rightarrow> addr \<Rightarrow> u64 \<Rightarrow> mmap_entry list \<Rightarrow> int \<Rightarrow> memory \<Rightarrow> (pool_t \<times> memory) outcome" where
  "memory_pool_init pool_base pg_base pool_pages es len m =
     (let bmp_bytes = ROUND_UP_TO pool_pages 8 div 8;
          md_pages = ROUND_UP_TO (2 * bmp_bytes) PAGE_SIZE div PAGE_SIZE
      in bindR (bitmap_init_buf m pool_base pool_pages) (\<lambda>(alloc, m).
         bindR (bitmap_init_buf m (pool_base + bmp_bytes) pool_pages) (\<lambda>(pin, m).
         let pool = \<lparr>allocated_bmp = alloc, pinned_bmp = pin, md_base = pool_base, page_base = pg_base\<rparr>
         in bindR (mark_pages pool 0 md_pages m) (\<lambda>m.
            bindR (foldR (reserve_nth pool pool_pages es) [0..<nat len] m) (\<lambda>m.
            Inr (pool, m))))))"

section \<open>Allocating pages\<close>

definition paging_get_pages :: "u64 \<Rightarrow> u8 \<Rightarrow> paging \<Rightarrow> (addr \<times> paging) outcome" where
  "paging_get_pages num_pages flags s =
     (let mem_pool = (if flags AND PALLOC_USER \<noteq> 0 then user_pool s else kernel_pool s);
          bmp = allocated_bmp mem_pool
      in bindR (bitmap_test_and_flip (pg_mem s) bmp False 0 (bmp_size bmp - 1) num_pages) (\<lambda>(pg_ind, m).
         if pg_ind = - 1 then Inr (NULL, s\<lparr>pg_mem := m\<rparr>)
         else
           let pg_ptr = page_base mem_pool + pg_ind * PAGE_SIZE;
               m = (if flags AND PALLOC_ZERO \<noteq> 0 then memset m pg_ptr 0 (num_pages * PAGE_SIZE) else m)
           in Inr (pg_ptr, s\<lparr>pg_mem := m\<rparr>)))"

definition paging_get_page :: "u8 \<Rightarrow> paging \<Rightarrow> (addr \<times> paging) outcome" where
  "paging_get_page flags s = paging_get_pages 1 flags s"

section \<open>Page tables\<close>

definition set_entry :: "addr \<Rightarrow> nat \<Rightarrow> nat \<Rightarrow> u64 \<Rightarrow> memory \<Rightarrow> memory" where
  "set_entry entry pos len v m = store64 m entry (SET_BITS (load64 m entry) pos len v)"

definition pte_init :: "addr \<Rightarrow> addr \<Rightarrow> bool \<Rightarrow> memory \<Rightarrow> memory" where
  "pte_init entry phys_addr allow_user_access m =
     (let m = memset m entry 0 8;
          m = set_entry entry PDE_PTE_BASE_POS PDE_PTE_BASE_LEN (drop_bit 12 phys_addr) m;
          m = set_entry entry PDE_PTE_US_POS PDE_PTE_US_LEN (of_bool allow_user_access) m;
          m = set_entry entry PDE_PTE_RW_POS PDE_PTE_RW_LEN 1 m
      in set_entry entry PDE_PTE_PRESENT_POS PDE_PTE_PRESENT_LEN 1 m)"

definition pde_init :: "addr \<Rightarrow> bool \<Rightarrow> paging \<Rightarrow> (addr \<times> paging) outcome" where
  "pde_init entry allow_user_access s =
     (if GET_BITS (load64 (pg_mem s) entry) PDE_PTE_PRESENT_POS PDE_PTE_PRESENT_LEN = 0
      then bindR (paging_get_page PALLOC_ZERO s) (\<lambda>(v_base, s).
             let p_base = k_vtop v_base;
                 m = memset (pg_mem s) entry 0 8;
                 m = set_entry entry PDE_PTE_BASE_POS PDE_PTE_BASE_LEN (drop_bit 12 p_base) m;
                 m = set_entry entry PDE_PTE_US_POS PDE_PTE_US_LEN (of_bool allow_user_access) m;
                 m = set_entry entry PDE_PTE_RW_POS PDE_PTE_RW_LEN 1 m;
                 m = set_entry entry PDE_PTE_PRESENT_POS PDE_PTE_PRESENT_LEN 1 m
             in Inr (v_base, s\<lparr>pg_mem := m\<rparr>))
      else let p_base = push_bit 12 (GET_BITS (load64 (pg_mem s) entry) PDE_PTE_BASE_POS PDE_PTE_BASE_LEN)
           in Inr (k_ptov p_base, s))"

text \<open>An entry of a table; a table that could not be allocated is the null pointer.\<close>

definition table_entry :: "addr \<Rightarrow> u64 \<Rightarrow> addr outcome" where
  "table_entry table ofs =
     (if table = NULL then Inl Bad_pointer else Inr (table + 8 * ucast (ucast ofs :: u32)))"

definition paging_map_page :: "addr \<Rightarrow> addr \<Rightarrow> paging \<Rightarrow> paging outcome" where
  "paging_map_page vaddr paddr s =
     bindR (table_entry (init_pml4 s) (GET_PML4_OFS vaddr)) (\<lambda>e4.
     bindR (pde_init e4 False s) (\<lambda>(pml3, s).
     bindR (table_entry pml3 (GET_PML3_OFS vaddr)) (\<lambda>e3.
     bindR (pde_init e3 False s) (\<lambda>(pml2, s).
     bindR (table_entry pml2 (GET_PML2_OFS vaddr)) (\<lambda>e2.
     bindR (pde_init e2 False s) (\<lambda>(pml1, s).
     bindR (table_entry pml1 (GET_PML1_OFS vaddr)) (\<lambda>e1.
     Inr (s\<lparr>pg_mem := pte_init e1 paddr False (pg_mem s)\<rparr>))))))))"

definition page_tables_init :: "paging \<Rightarrow> paging outcome" where
  "page_tables_init s =
     bindR (paging_get_page PALLOC_ZERO s) (\<lambda>(pml4, s).
     let s = s\<lparr>init_pml4 := pml4\<rparr>
     in bindR (foldR (\<lambda>page s.
                 let phys_addr = of_nat page * PAGE_SIZE;
                     virt_addr = k_ptov phys_addr
                 in paging_map_page virt_addr phys_addr s) [0..<unat (pool_pages_total s)] s) (\<lambda>s.
        Inr (s\<lparr>cr3 := k_vtop (init_pml4 s)\<rparr>)))"

text \<open>Reading CR2 and a disabled log message: the handler changes nothing.\<close>

definition page_fault_handler :: "addr \<Rightarrow> paging \<Rightarrow> paging" where
  "page_fault_handler frame s = s"

definition paging_init ::
  "device \<Rightarrow> u32 \<Rightarrow> addr \<Rightarrow> addr \<Rightarrow> paging \<Rightarrow> intr \<Rightarrow> (paging \<times> intr) outcome" where
  "paging_init dev mboot_tags kernel_end handler s i =
     bindR (memory_map_init mboot_tags s) (\<lambda>s.
     bindR (interrupts_register_handler dev (vector_value EXC_PAGE_FAULT) handler i) (\<lambda>i.
     let free_start_vaddr = ROUND_UP_TO kernel_end PAGE_SIZE;
         total = (k_ptov (phys_mem_end_paddr s) - free_start_vaddr) div PAGE_SIZE;
         s = s\<lparr>pool_pages_total := total\<rparr>;
         k_pool_pages = total div 2;
         u_pool_pages = total - total div 2;
         k_bmp_start = free_start_vaddr;
         u_bmp_start = free_start_vaddr + (ROUND_UP_TO k_pool_pages 8 div 8) * 2;
         k_bmp_tracking_start = free_start_vaddr;
         u_bmp_tracking_start = free_start_vaddr + k_pool_pages * PAGE_SIZE
     in bindR (memory_pool_init k_bmp_start k_bmp_tracking_start k_pool_pages (memory_map s) (memory_map_len s) (pg_mem s))
          (\<lambda>(kp, m).
        bindR (memory_pool_init u_bmp_start u_bmp_tracking_start u_pool_pages (memory_map s) (memory_map_len s) m)
          (\<lambda>(up, m).
        bindR (page_tables_init (s\<lparr>pg_mem := m, kernel_pool := kp, user_pool := up\<rparr>)) (\<lambda>s.
        Inr (s, i))))))"

section \<open>Bit fields\<close>

lemma ones_mask: "push_bit len (1 :: u64) - 1 = mask len"
  by (simp add: mask_eq_exp_minus_1 push_bit_of_1)

lemma bit_GET_BITS: "bit (GET_BITS v pos len) n \<longleftrightarrow> n < len \<and> bit v (pos + n)"
  unfolding GET_BITS_def ones_mask by (auto simp: bit_simps dest: bit_imp_le_length)

lemma bit_SET_BITS:
  "bit (SET_BITS v pos len x) n \<longleftrightarrow>
     n < 64 \<and> (if pos \<le> n \<and> n < pos + len then bit x (n - pos) else bit v n)"
  unfolding SET_BITS_def ones_mask by (auto simp: bit_simps dest: bit_imp_le_length)

lemma GET_SET_same: "pos + len \<le> 64 \<Longrightarrow> GET_BITS (SET_BITS v pos len x) pos len = take_bit len x"
  by (rule bit_word_eqI) (auto simp: bit_GET_BITS bit_SET_BITS bit_take_bit_iff)

lemma GET_SET_other:
  "pos + len \<le> pos' \<or> pos' + len' \<le> pos \<Longrightarrow> pos' + len' \<le> 64 \<Longrightarrow>
     GET_BITS (SET_BITS v pos len x) pos' len' = GET_BITS v pos' len'"
  by (rule bit_word_eqI) (auto simp: bit_GET_BITS bit_SET_BITS dest: bit_imp_le_length)

lemma fields_apart:
  assumes "fs = pde_fields \<or> fs = pte_fields" "f \<in> set fs" "g \<in> set fs"
  shows "fst f + snd f \<le> 64" "f = g \<or> fst f + snd f \<le> fst g \<or> fst g + snd g \<le> fst f"
  using assms by (auto simp: pde_fields_def pte_fields_def)

lemma fields_cover:
  "list_all (\<lambda>b. list_ex (\<lambda>h. fst h \<le> b \<and> b < fst h + snd h) pde_fields \<longleftrightarrow> b \<noteq> 51) [0..<64]"
  "list_all (\<lambda>b. list_ex (\<lambda>h. fst h \<le> b \<and> b < fst h + snd h) pte_fields \<longleftrightarrow> b \<noteq> 51) [0..<64]"
  by code_simp+

section \<open>Sorting the memory map\<close>

definition addr_sorted :: "mmap_entry list \<Rightarrow> bool" where
  "addr_sorted es \<longleftrightarrow> sorted (map entry_addr es)"

text \<open>One run of the inner loop inserts element \<open>j\<close> into the sorted elements before it.\<close>

definition insert_gap :: "nat \<Rightarrow> mmap_entry list \<Rightarrow> bool" where
  "insert_gap j es \<longleftrightarrow>
     (\<forall>a b. a < b \<and> b < length es \<and> b \<noteq> j \<longrightarrow> entry_addr (es ! a) \<le> entry_addr (es ! b))"

lemma insert_gap_0: "insert_gap 0 es \<Longrightarrow> addr_sorted es"
  by (auto simp: insert_gap_def addr_sorted_def sorted_iff_nth_mono_less)

lemma insert_gap_done:
  assumes "insert_gap (Suc j) es" "\<not> entry_addr (es ! Suc j) < entry_addr (es ! j)"
  shows "addr_sorted es"
  unfolding addr_sorted_def sorted_iff_nth_mono_less
proof (intro allI impI)
  fix a b assume ab: "a < b" "b < length (map entry_addr es)"
  show "map entry_addr es ! a \<le> map entry_addr es ! b"
  proof (cases "b = Suc j")
    case True
    then have "entry_addr (es ! a) \<le> entry_addr (es ! j)"
      using assms(1) ab by (cases "a = j") (auto simp: insert_gap_def)
    then show ?thesis using assms(2) ab True by simp
  qed (use assms(1) ab in \<open>auto simp: insert_gap_def\<close>)
qed

lemma insert_gap_swap:
  assumes "insert_gap (Suc j) es" "Suc j < length es" "entry_addr (es ! Suc j) < entry_addr (es ! j)"
  shows "insert_gap j (es[j := es ! Suc j, Suc j := es ! j])"
  unfolding insert_gap_def
proof (intro allI impI, elim conjE)
  fix a b
  assume ab: "a < b" "b < length (es[j := es ! Suc j, Suc j := es ! j])" "b \<noteq> j"
  note gap = assms(1) [unfolded insert_gap_def, rule_format]
  have less: "entry_addr (es ! Suc j) \<le> entry_addr (es ! j)" using assms(3) by simp
  show "entry_addr (es[j := es ! Suc j, Suc j := es ! j] ! a) \<le> entry_addr (es[j := es ! Suc j, Suc j := es ! j] ! b)"
  proof (cases "b = Suc j")
    case True
    then have "a = j \<or> a < j" using ab by auto
    then show ?thesis using True assms(2) less gap [of a j] by (auto simp: nth_list_update)
  next
    case False
    then show ?thesis using ab gap [of a b] gap [of j b] gap [of "Suc j" b] assms(2)
      by (auto simp: nth_list_update)
  qed
qed

lemma sort_down_inserts:
  assumes "j < n" "n \<le> length es" "insert_gap j (take n es)"
  shows "\<exists>es'. sort_down j es = Inr es' \<and> length es' = length es \<and> drop n es' = drop n es \<and>
    mset (take n es') = mset (take n es) \<and> addr_sorted (take n es')"
  using assms
proof (induction j arbitrary: es)
  case 0
  then show ?case by (auto dest: insert_gap_0)
next
  case (Suc j)
  then have j: "Suc j < length (take n es)" "Suc j < length es" by simp_all
  have nth: "take n es ! Suc j = es ! Suc j" "take n es ! j = es ! j" using Suc.prems by simp_all
  show ?case
  proof (cases "entry_addr (es ! Suc j) < entry_addr (es ! j)")
    case False
    then have "addr_sorted (take n es)" using insert_gap_done [OF Suc.prems(3)] nth by simp
    then show ?thesis using False j by simp
  next
    case True
    let ?es = "es[j := es ! Suc j, Suc j := es ! j]"
    have take: "take n ?es = (take n es)[j := take n es ! Suc j, Suc j := take n es ! j]"
      using Suc.prems by (simp add: take_update_swap nth)
    have "insert_gap j (take n ?es)"
      unfolding take using insert_gap_swap [OF Suc.prems(3) j(1)] True nth by simp
    then obtain es' where "sort_down j ?es = Inr es'" "length es' = length ?es" "drop n es' = drop n ?es"
      "mset (take n es') = mset (take n ?es)" "addr_sorted (take n es')"
      using Suc.IH [of ?es] Suc.prems by auto
    moreover have "mset (take n ?es) = mset (take n es)"
      unfolding take using mset_swap [of "Suc j" "take n es" j] j(1) by simp
    moreover have "drop n ?es = drop n es" using Suc.prems by simp
    ultimately show ?thesis using True j by simp
  qed
qed

lemma sort_loop_sorts:
  assumes "n \<le> length es"
  shows "\<exists>es'. foldR sort_down [1..<n] es = Inr es' \<and> length es' = length es \<and> drop n es' = drop n es \<and>
    mset (take n es') = mset (take n es) \<and> addr_sorted (take n es')"
  using assms
proof (induction n)
  case 0
  then show ?case by (simp add: addr_sorted_def)
next
  case (Suc n)
  show ?case
  proof (cases "n = 0")
    case True
    then show ?thesis using Suc.prems by (cases es) (auto simp: addr_sorted_def)
  next
    case False
    obtain e1 where e1: "foldR sort_down [1..<n] es = Inr e1" "length e1 = length es" "drop n e1 = drop n es"
      "mset (take n e1) = mset (take n es)" "addr_sorted (take n e1)"
      using Suc by auto
    have nth: "e1 ! n = es ! n" using e1(2,3) Suc.prems by (metis Suc_le_lessD hd_drop_conv_nth)
    have "insert_gap n (take (Suc n) e1)"
      using e1(5) Suc.prems e1(2) unfolding insert_gap_def addr_sorted_def sorted_iff_nth_mono_less by auto
    then obtain e2 where e2: "sort_down n e1 = Inr e2" "length e2 = length e1" "drop (Suc n) e2 = drop (Suc n) e1"
      "mset (take (Suc n) e2) = mset (take (Suc n) e1)" "addr_sorted (take (Suc n) e2)"
      using sort_down_inserts [of n "Suc n" e1] Suc.prems e1(2) by auto
    have "mset (take (Suc n) e1) = mset (take (Suc n) es)"
      using e1(2,4) Suc.prems nth by (simp add: take_Suc_conv_app_nth)
    moreover have "drop (Suc n) e1 = drop (Suc n) es" using e1(3) by (metis drop_Suc tl_drop)
    moreover have "foldR sort_down [1..<Suc n] es = Inr e2"
      using False e1(1) e2(1) foldR_upt_Suc [of 1 n sort_down es] by simp
    ultimately show ?thesis using e2 e1(2) by simp
  qed
qed

lemma load_le_shift: "load_le n (\<lambda>i. m (src + i)) a = load_le n m (src + a)"
  by (induction n arbitrary: a) (simp_all add: add.assoc)

lemma copied_entry:
  assumes "24 * k + 24 \<le> unat n"
  shows "load_mmap_entry (\<lambda>i. if i < n then m (src + i) else b i) (of_nat (24 * k)) =
    load_mmap_entry m (src + of_nat (24 * k))"
proof -
  let ?b = "\<lambda>i. if i < n then m (src + i) else b i"
  have "(load_le w ?b (of_nat (24 * k) + of_nat d) :: 'a word) = load_le w m (src + (of_nat (24 * k) + of_nat d))"
    if "d + w \<le> 24" for w d and t :: "'a::len itself"
  proof -
    have "(load_le w ?b (of_nat (24 * k) + of_nat d) :: 'a word) =
        load_le w (\<lambda>i. m (src + i)) (of_nat (24 * k) + of_nat d)"
    proof (rule load_le_cong)
      fix i assume "i < w"
      then have lt: "24 * k + d + i < unat n" using assms that by simp
      then have "unat (of_nat (24 * k + d + i) :: u64) = 24 * k + d + i"
        using unat_u64_less [of n] by (intro unat_of_nat_u64) simp
      then have "(of_nat (24 * k + d + i) :: u64) < n" using lt by (simp add: word_less_nat_alt del: of_nat_add)
      then have "of_nat (24 * k) + of_nat d + of_nat i < n" by (simp add: algebra_simps)
      then show "?b (of_nat (24 * k) + of_nat d + of_nat i) = m (src + (of_nat (24 * k) + of_nat d + of_nat i))" by simp
    qed
    then show ?thesis by (simp add: load_le_shift)
  qed
  from this [of 0 8] this [of 8 8] this [of 16 4] this [of 20 4] show ?thesis
    by (simp add: load_mmap_entry_def load64_def load32_def add.assoc)
qed

lemma sint_of_nat_small: "k < 2 ^ 31 \<Longrightarrow> sint (of_nat k :: u32) = int k"
  by (simp add: sint_uint signed_take_bit_int_eq_self uint_nat unat_of_nat)

lemma memory_map_init_copies:
  assumes tag: "multiboot_get_tag (pg_mem s) mboot MULTIBOOT_TAG_TYPE_MMAP = Inr t" "t \<noteq> NULL"
    and tag_fields: "tag_size (pg_mem s) t = of_nat (16 + 24 * n)" "mmap_tag_entry_size (pg_mem s) t = 24"
    and n: "2 \<le> n" "n \<le> 10" and arr: "length (memory_map s) = 10"
  shows "\<exists>es top. memory_map_init mboot s = Inr (s\<lparr>memory_map := es, memory_map_len := int n - 1,
        phys_mem_end_paddr := entry_addr top + entry_len top\<rparr>) \<and>
      mset (take (n - 1) es) = mset (map (\<lambda>k. load_mmap_entry (pg_mem s) (t + 16 + of_nat (24 * k))) [0..<n - 1]) \<and>
      addr_sorted (take (n - 1) es) \<and> top = last (take (n - 1) es)"
proof -
  let ?m = "pg_mem s"
  define z where "z = 24 * n - 8"
  have z: "z < 2 ^ 31" "z div 24 = n - 1" "z \<le> 240" using n by (auto simp: z_def)
  have size: "tag_size ?m t - 24 = of_nat z" using tag_fields(1) n by (simp add: z_def of_nat_diff)
  have u: "unat (of_nat z :: u32) = z" using z by (simp add: unat_of_nat)
  have "of_nat z div 24 = (of_nat (unat (of_nat z :: u32) div unat (24 :: u32)) :: u32)"
    by (rule word_arith_nat_div)
  then have "of_nat z div 24 = (of_nat (n - 1) :: u32)" by (simp only: u) (simp add: z(2))
  then have len: "sint (of_nat z div 24 :: u32) = int n - 1"
    using n by (simp add: sint_of_nat_small del: of_nat_diff)
  have bytes: "unat (ucast (of_nat z :: u32) :: u64) = z"
    using z(1) by (simp add: unsigned_ucast_eq u take_bit_nat_eq_self)
  let ?b = "\<lambda>i. if i < ucast (of_nat z :: u32) then ?m (t + 16 + i) else map_bytes (memory_map s) i"
  define es0 where "es0 = map (\<lambda>k. load_mmap_entry ?b (of_nat (24 * k))) [0..<10]"
  have copy: "copy_to_map ?m (mmap_tag_entries t) (ucast (of_nat z :: u32)) (memory_map s) = Inr es0"
    using z(3) by (simp add: copy_to_map_def bytes arr mmap_tag_entries_def es0_def)
  have taken: "take (n - 1) es0 = map (\<lambda>k. load_mmap_entry ?m (t + 16 + of_nat (24 * k))) [0..<n - 1]"
  proof (rule nth_equalityI)
    fix k assume "k < length (take (n - 1) es0)"
    then have k: "k < n - 1" "k < 10" by (simp_all add: es0_def)
    then have "24 * k + 24 \<le> unat (ucast (of_nat z :: u32) :: u64)" unfolding bytes by (simp add: z_def)
    from copied_entry [OF this] show "take (n - 1) es0 ! k =
        map (\<lambda>k. load_mmap_entry ?m (t + 16 + of_nat (24 * k))) [0..<n - 1] ! k"
      using k by (simp add: es0_def del: upt_rec_numeral)
  qed (use n in \<open>simp add: es0_def\<close>)
  have len0: "length es0 = 10" by (simp add: es0_def)
  obtain es where es: "foldR sort_down [1..<n - 1] es0 = Inr es" "length es = 10"
    "mset (take (n - 1) es) = mset (take (n - 1) es0)" "addr_sorted (take (n - 1) es)"
    using sort_loop_sorts [of "n - 1" es0] n unfolding len0 by (metis diff_le_self le_trans)
  have top: "es ! nat (int n - 2) = last (take (n - 1) es)"
  proof -
    have "take (n - 1) es \<noteq> []" using es(2) n by auto
    moreover have "nat (int n - 2) = n - 2" "n - 1 - 1 = n - 2" "n - 2 < n - 1" using n by auto
    ultimately show ?thesis using es(2) n by (simp add: last_conv_nth)
  qed
  have "nat (int n - 1) = n - 1" "\<not> int n - 1 < 1" "\<not> nat (int n - 1) > length es" using n es(2) by auto
  then have "memory_map_init mboot s = Inr (s\<lparr>memory_map := es, memory_map_len := int n - 1,
      phys_mem_end_paddr := entry_addr (last (take (n - 1) es)) + entry_len (last (take (n - 1) es))\<rparr>)"
    unfolding memory_map_init_def using tag tag_fields(2)
    by (simp add: size len copy es(1) [unfolded One_nat_def] top Let_def)
  then show ?thesis using es(3,4) taken by auto
qed

section \<open>Properties\<close>

text \<open>C38: the fields of an entry are independent: writing one with \<^verbatim>\<open>SET_BITS\<close> gives the low bits of the
  new value to \<^verbatim>\<open>GET_BITS\<close> on that field and leaves every other field as it was, in directory and in page
  table entries. Bit 51, the top bit of the architecture's base address, belongs to no field.\<close>

theorem entry_fields_independent:
  assumes "fs = pde_fields \<or> fs = pte_fields" "f \<in> set fs" "g \<in> set fs"
  shows "GET_BITS (SET_BITS v (fst f) (snd f) x) (fst g) (snd g) =
      (if f = g then take_bit (snd f) x else GET_BITS v (fst g) (snd g)) \<and>
    (\<forall>b < 64. (\<exists>h \<in> set fs. fst h \<le> b \<and> b < fst h + snd h) \<longleftrightarrow> b \<noteq> 51)"
proof
  show "GET_BITS (SET_BITS v (fst f) (snd f) x) (fst g) (snd g) =
      (if f = g then take_bit (snd f) x else GET_BITS v (fst g) (snd g))"
    using fields_apart [OF assms] fields_apart(1) [OF assms(1,3,2)]
      GET_SET_other [of "fst f" "snd f" "fst g" "snd g" v x] by (auto simp: GET_SET_same)
  show "\<forall>b < 64. (\<exists>h \<in> set fs. fst h \<le> b \<and> b < fst h + snd h) \<longleftrightarrow> b \<noteq> 51"
    using fields_cover assms(1) unfolding list_all_iff list_ex_iff by auto
qed

theorem entry_fields_independent_witness:
  "GET_BITS (SET_BITS 0xFFFFFFFFFFFFFFFF 12 39 0xABCDE) 12 39 = 0xABCDE \<and>
   GET_BITS (SET_BITS 0xFFFFFFFFFFFFFFFF 12 39 0xABCDE) 0 1 = 1"
proof -
  have f: "(12, 39) \<in> set pte_fields" "(0, 1) \<in> set pte_fields" by (simp_all add: pte_fields_def)
  have "GET_BITS 0xFFFFFFFFFFFFFFFF 0 1 = 1" by (simp add: GET_BITS_def)
  then show ?thesis
    using entry_fields_independent [of pte_fields, OF _ f(1,1), of "0xFFFFFFFFFFFFFFFF" "0xABCDE"]
      entry_fields_independent [of pte_fields, OF _ f(1,2), of "0xFFFFFFFFFFFFFFFF" "0xABCDE"] by simp
qed

lemma cold_paging_simps [simp]:
  "pg_mem (cold_paging m) = m" "length (memory_map (cold_paging m)) = 10"
  by (simp_all add: cold_paging_def Let_def)

end
