(* ===== verification/Pagetables.thy ===== *)
theory Pagetables
  imports Paging
begin

text \<open>
  The page allocator and the page tables of \<^verbatim>\<open>src/kernel/mem/paging.c\<close>. A pool is sound when no
  clear page overlaps its own allocation bitmap; a call then takes the leftmost run of clear pages and
  leaves everything else alone. The tables are described by the tree of table pages and the words of
  the last level; \<open>translate\<close> is the walk the processor makes.
\<close>

section \<open>The page pool\<close>

definition page_at :: "pool_t \<Rightarrow> nat \<Rightarrow> addr" where
  "page_at pool i = page_base pool + of_nat (4096 * i)"

abbreviation pages :: "pool_t \<Rightarrow> nat" where
  "pages pool \<equiv> unat (bmp_size (allocated_bmp pool))"

abbreviation taken :: "memory \<Rightarrow> pool_t \<Rightarrow> nat \<Rightarrow> bool" where
  "taken m pool i \<equiv> bmp_bit m (allocated_bmp pool) i"

text \<open>Addresses of the allocation bitmap, and of \<open>n\<close> pages from page \<open>i\<close>.\<close>

definition in_bitmap :: "pool_t \<Rightarrow> addr \<Rightarrow> bool" where
  "in_bitmap pool x \<longleftrightarrow> unat (x - bmp_buf (allocated_bmp pool)) < bmp_extent (allocated_bmp pool)"

definition page_no :: "pool_t \<Rightarrow> addr \<Rightarrow> nat" where
  "page_no pool x = unat (x - page_base pool) div 4096"

definition pool_ok :: "memory \<Rightarrow> pool_t \<Rightarrow> bool" where
  "pool_ok m pool \<longleftrightarrow>
     0 < unat (page_base pool) \<and> unat (page_base pool) + 4096 * pages pool \<le> 2 ^ 64 \<and>
     (\<forall>x. page_no pool x < pages pool \<and> \<not> taken m pool (page_no pool x) \<longrightarrow> \<not> in_bitmap pool x)"

lemma page_at_unat:
  assumes "pool_ok m pool" "i < pages pool"
  shows "unat (page_at pool i) = unat (page_base pool) + 4096 * i"
proof -
  have "unat (page_base pool) + 4096 * i < 2 ^ 64" using assms by (simp add: pool_ok_def)
  moreover have "page_at pool i = of_nat (unat (page_base pool) + 4096 * i)" by (simp add: page_at_def)
  ultimately show ?thesis by (metis unat_of_nat_u64)
qed

text \<open>The addresses of \<open>n\<close> pages from page \<open>c\<close>, by page number.\<close>

lemma in_pages_iff:
  assumes "4096 * (c + n) \<le> 2 ^ 64"
  shows "unat (x - page_at pool c) < 4096 * n \<longleftrightarrow> c \<le> page_no pool x \<and> page_no pool x < c + n"
proof -
  define d where "d = unat (x - page_base pool)"
  have d: "x = page_base pool + of_nat d" "d < 2 ^ 64"
    using unat_u64_less [of "x - page_base pool"] by (simp_all add: d_def)
  have "unat (x - page_at pool c) < 4096 * n \<longleftrightarrow> 4096 * c \<le> d \<and> d < 4096 * c + 4096 * n"
    unfolding page_at_def d(1) using d(2) assms by (intro unat_of_nat_diff) simp_all
  also have "\<dots> \<longleftrightarrow> c \<le> d div 4096 \<and> d div 4096 < c + n" by (auto simp: less_eq_div_iff_mult_less_eq div_less_iff_less_mult algebra_simps)
  finally show ?thesis by (simp add: page_no_def d_def)
qed

lemma page_no_page_at:
  assumes "4096 * i + 4096 \<le> 2 ^ 64" "d < 4096"
  shows "page_no pool (page_at pool i + of_nat d) = i"
  using in_pages_iff [of i 1 "page_at pool i + of_nat d" pool] assms by (simp add: unat_of_nat_u64)

section \<open>Allocating pages\<close>

lemma bmp_bit_cong:
  assumes "\<And>x. unat (x - bmp_buf bmp) < bmp_extent bmp \<Longrightarrow> m x = m' x" "i < unat (bmp_size bmp)"
  shows "bmp_bit m bmp i = bmp_bit m' bmp i"
proof -
  have "i div 8 < bmp_extent bmp" using assms(2) by (auto simp: bmp_extent_def)
  moreover have "i div 8 < 2 ^ 64" using assms(2) unat_u64_less [of "bmp_size bmp"] by simp
  ultimately have "m (bmp_buf bmp + of_nat (i div 8)) = m' (bmp_buf bmp + of_nat (i div 8))"
    by (intro assms(1)) (simp add: unat_of_nat_u64)
  then show ?thesis by (simp add: bmp_bit_def)
qed

lemma alloc_run_outside:
  assumes "alloc_run bmp n m = Inr (r, m')" "bmp_extent bmp \<le> unat (x - bmp_buf bmp)"
  shows "m' x = m x"
proof -
  obtain v where v: "bitmap_test_and_flip m bmp False 0 (bmp_size bmp - 1) n = Inr (v, m')"
    and r: "r = (if v = - 1 then None else Some (unat v))"
    using assms(1) by (auto simp: alloc_run_def bindR_eq_Inr)
  show ?thesis
  proof (cases "v = - 1")
    case True
    then show ?thesis using v by (auto simp: bitmap_test_and_flip_def ASSERT_eq_Inr bindR_eq_Inr split: if_splits)
  next
    case False
    then have flip: "bitmap_flip m bmp v (v + n - 1) = Inr m'"
      using v by (auto simp: bitmap_test_and_flip_def ASSERT_eq_Inr bindR_eq_Inr split: if_splits)
    have "unat v + unat n \<le> unat (bmp_size bmp)"
      using bitmap_runs.alloc_Some [of bmp n m "unat v" m'] assms(1) r False by simp
    moreover have "0 < unat n" using alloc_run_args(1) [OF assms(1)] by (simp add: unat_gt_0)
    moreover have "unat (v + n - 1) = unat v + unat n - 1"
    proof -
      have "unat v + unat n < 2 ^ 64" using calculation(1) unat_u64_less [of "bmp_size bmp"] by simp
      then have "unat (v + n) = unat v + unat n" by (simp add: unat_word_ariths)
      moreover have "v + n \<noteq> 0" using calculation \<open>0 < unat n\<close> by (metis add_is_0 not_less0 unat_0)
      ultimately show ?thesis by (simp add: unat_minus_one)
    qed
    ultimately have "v + n - 1 < bmp_size bmp" by (simp add: word_less_nat_alt)
    then show ?thesis using bitmap_flip_outside [OF flip] assms(2) by blast
  qed
qed

definition pool_of :: "u8 \<Rightarrow> paging \<Rightarrow> pool_t" where
  "pool_of flags s = (if flags AND PALLOC_USER \<noteq> 0 then user_pool s else kernel_pool s)"

definition zeroed :: "u8 \<Rightarrow> addr \<Rightarrow> u64 \<Rightarrow> memory \<Rightarrow> memory" where
  "zeroed flags a n m = (if flags AND PALLOC_ZERO \<noteq> 0 then memset m a 0 n else m)"

lemma paging_get_pages_alloc:
  "paging_get_pages n flags s =
     bindR (alloc_run (allocated_bmp (pool_of flags s)) n (pg_mem s)) (\<lambda>(r, m).
       case r of None \<Rightarrow> Inr (NULL, s\<lparr>pg_mem := m\<rparr>)
       | Some c \<Rightarrow> Inr (page_at (pool_of flags s) c,
                  s\<lparr>pg_mem := zeroed flags (page_at (pool_of flags s) c) (n * 4096) m\<rparr>))"
  unfolding paging_get_pages_def alloc_run_def Let_def pool_of_def [symmetric] bindR_assoc
  by (intro arg_cong2 [where f = bindR] refl ext) (auto simp: page_at_def zeroed_def mult.commute)

text \<open>What one call does to a sound pool.\<close>

definition pages_given :: "u8 \<Rightarrow> pool_t \<Rightarrow> nat \<Rightarrow> nat \<Rightarrow> memory \<Rightarrow> memory \<Rightarrow> bool" where
  "pages_given flags pool c n m m' \<longleftrightarrow>
     c + n \<le> pages pool \<and> (\<forall>j. c \<le> j \<and> j < c + n \<longrightarrow> \<not> taken m pool j) \<and>
     (\<forall>j < pages pool. taken m' pool j \<longleftrightarrow> taken m pool j \<or> c \<le> j \<and> j < c + n) \<and>
     (\<forall>x. \<not> in_bitmap pool x \<longrightarrow> m' x =
        (if flags AND PALLOC_ZERO \<noteq> 0 \<and> c \<le> page_no pool x \<and> page_no pool x < c + n then 0 else m x)) \<and>
     (\<forall>d < c. \<exists>j. d \<le> j \<and> j < d + n \<and> taken m pool j)"

lemma paging_get_pages_cases:
  assumes "pool_ok (pg_mem s) (pool_of flags s)" "n \<noteq> 0" "unat n \<le> pages (pool_of flags s)"
  shows "(\<exists>c m'. paging_get_pages n flags s = Inr (page_at (pool_of flags s) c, s\<lparr>pg_mem := m'\<rparr>) \<and>
      pages_given flags (pool_of flags s) c (unat n) (pg_mem s) m' \<and> pool_ok m' (pool_of flags s)) \<or>
    paging_get_pages n flags s = Inr (NULL, s) \<and>
      (\<forall>c. c + unat n \<le> pages (pool_of flags s) \<longrightarrow>
         (\<exists>j. c \<le> j \<and> j < c + unat n \<and> taken (pg_mem s) (pool_of flags s) j))"
proof -
  define pool where "pool = pool_of flags s"
  define bmp where "bmp = allocated_bmp pool"
  define m where "m = pg_mem s"
  obtain r m1 where run: "alloc_run bmp n m = Inr (r, m1)"
    using bitmap_runs.alloc_returns [of n bmp m] assms by (auto simp: bmp_def pool_def)
  have ok: "pool_ok m pool" using assms(1) by (simp add: m_def pool_def)
  show ?thesis
  proof (cases r)
    case None
    then show ?thesis using bitmap_runs.alloc_None [of bmp n m m1] run
      by (simp add: paging_get_pages_alloc pool_def bmp_def m_def)
  next
    case (Some c)
    have given: "c + unat n \<le> pages pool" "\<forall>j. c \<le> j \<and> j < c + unat n \<longrightarrow> \<not> taken m pool j"
      "\<forall>j < pages pool. taken m1 pool j \<longleftrightarrow> taken m pool j \<or> c \<le> j \<and> j < c + unat n"
      using bitmap_runs.alloc_Some [of bmp n m c m1] run Some by (simp_all add: bmp_def)
    have first: "\<forall>d < c. \<exists>j. d \<le> j \<and> j < d + unat n \<and> taken m pool j"
      using bitmap_runs.alloc_first [of bmp n m c m1] run Some by (simp add: bmp_def)
    define m' where "m' = zeroed flags (page_at pool c) (n * 4096) m1"
    have fits: "4096 * (c + unat n) \<le> 2 ^ 64" using given(1) ok by (simp add: pool_ok_def)
    have out1: "m1 x = m x" if "\<not> in_bitmap pool x" for x
      using alloc_run_outside [OF run, of x] that by (simp add: in_bitmap_def bmp_def)
    have "4096 * unat n < 2 ^ 64" using given(1) ok by (simp add: pool_ok_def)
    then have len: "unat (n * 4096) = 4096 * unat n" by (simp add: unat_word_ariths)
    have zero: "m' x = (if flags AND PALLOC_ZERO \<noteq> 0 \<and> c \<le> page_no pool x \<and> page_no pool x < c + unat n then 0 else m1 x)" for x
      using in_pages_iff [OF fits, of x pool] by (simp add: m'_def zeroed_def memset_apply len)
    have same_bits: "m' x = m1 x" if "in_bitmap pool x" for x
    proof -
      have "\<not> (c \<le> page_no pool x \<and> page_no pool x < c + unat n)"
        using ok that given(1,2) unfolding pool_ok_def by (meson less_le_trans)
      then show ?thesis unfolding zero by auto
    qed
    have bits: "taken m' pool j = taken m1 pool j" if "j < pages pool" for j
      using that same_bits by (intro bmp_bit_cong) (simp_all add: in_bitmap_def)
    have "pages_given flags pool c (unat n) m m'"
      using given bits out1 first by (simp add: pages_given_def zero)
    moreover have "pool_ok m' pool" using ok given(3) bits unfolding pool_ok_def by blast
    moreover have "paging_get_pages n flags s = Inr (page_at pool c, s\<lparr>pg_mem := m'\<rparr>)"
      using run Some by (simp add: paging_get_pages_alloc pool_def bmp_def m_def m'_def)
    ultimately show ?thesis unfolding pool_def m_def by blast
  qed
qed

section \<open>Entries\<close>

definition entry_word :: "addr \<Rightarrow> bool \<Rightarrow> u64" where
  "entry_word phys user =
     SET_BITS (SET_BITS (SET_BITS (SET_BITS 0 PDE_PTE_BASE_POS PDE_PTE_BASE_LEN (drop_bit 12 phys))
       PDE_PTE_US_POS PDE_PTE_US_LEN (of_bool user)) PDE_PTE_RW_POS PDE_PTE_RW_LEN 1)
       PDE_PTE_PRESENT_POS PDE_PTE_PRESENT_LEN 1"

lemma entry_word_fields:
  "GET_BITS (entry_word phys user) PDE_PTE_PRESENT_POS PDE_PTE_PRESENT_LEN = 1"
  "GET_BITS (entry_word phys user) PDE_PTE_BASE_POS PDE_PTE_BASE_LEN = take_bit 39 (drop_bit 12 phys)"
  by (simp_all add: entry_word_def GET_SET_same GET_SET_other)

lemma store64_same: "store64 (store64 m a v) a w = store64 m a w" "load64 (store64 m a v) a = v"
proof -
  show "store64 (store64 m a v) a w = store64 m a w"
    by (rule ext) (simp add: store64_def store_le_apply)
  show "load64 (store64 m a v) a = v"
    unfolding load64_def store64_def by (rule load_store_same) simp_all
qed

lemma memset_store64: "memset m a 0 8 = store64 m a 0"
  by (rule ext) (simp add: memset_apply store64_def store_le_apply)

lemma pte_init_store: "pte_init e phys user m = store64 m e (entry_word phys user)"
  by (simp add: pte_init_def set_entry_def memset_store64 store64_same entry_word_def Let_def)

lemma pde_init_cases:
  "pde_init e False s =
     (if GET_BITS (load64 (pg_mem s) e) PDE_PTE_PRESENT_POS PDE_PTE_PRESENT_LEN = 0
      then bindR (paging_get_page PALLOC_ZERO s) (\<lambda>(v, s).
             Inr (v, s\<lparr>pg_mem := store64 (pg_mem s) e (entry_word (k_vtop v) False)\<rparr>))
      else Inr (k_ptov (push_bit 12 (GET_BITS (load64 (pg_mem s) e) PDE_PTE_BASE_POS PDE_PTE_BASE_LEN)), s))"
  unfolding pde_init_def Let_def memset_store64 set_entry_def store64_same entry_word_def by simp

section \<open>The tree of tables\<close>

definition slot :: "pool_t \<Rightarrow> nat \<Rightarrow> nat \<Rightarrow> addr" where
  "slot pool i k = page_base pool + of_nat (4096 * i + 8 * k)"

text \<open>The pool lies in the direct map, at a page boundary.\<close>

definition high_pool :: "pool_t \<Rightarrow> bool" where
  "high_pool pool \<longleftrightarrow> 2 ^ 64 - 2 ^ 31 \<le> unat (page_base pool) \<and> 4096 dvd unat (page_base pool)"

text \<open>
  \<open>nodes\<close> maps the indices on the way from the root to the page of each table, \<open>leaves\<close> the full
  paths to the entries of the last level. Every table is a page of its own that is allocated and clear
  of the bitmap.
\<close>

definition table_tree :: "memory \<Rightarrow> pool_t \<Rightarrow> (nat list \<Rightarrow> nat option) \<Rightarrow> (nat list \<Rightarrow> u64) \<Rightarrow> bool" where
  "table_tree m pool nodes leaves \<longleftrightarrow>
     pool_ok m pool \<and> high_pool pool \<and> inj_on nodes (dom nodes) \<and>
     (\<forall>p i. nodes p = Some i \<longrightarrow>
        i < pages pool \<and> taken m pool i \<and> length p \<le> 3 \<and> (p \<noteq> [] \<longrightarrow> nodes (butlast p) \<noteq> None) \<and>
        (\<forall>x. page_no pool x = i \<longrightarrow> \<not> in_bitmap pool x)) \<and>
     (\<forall>p i k. nodes p = Some i \<and> k < 512 \<longrightarrow> load64 m (slot pool i k) =
        (if length p < 3 then (case nodes (p @ [k]) of None \<Rightarrow> 0 | Some j \<Rightarrow> entry_word (k_vtop (page_at pool j)) False)
         else leaves (p @ [k]))) \<and>
     (\<forall>q. nodes (butlast q) = None \<longrightarrow> leaves q = 0)"

lemma table_treeD:
  assumes "table_tree m pool nodes leaves"
  shows "pool_ok m pool" "high_pool pool" "inj_on nodes (dom nodes)"
    and "nodes p = Some i \<Longrightarrow> i < pages pool \<and> taken m pool i \<and> length p \<le> 3"
    and "nodes p = Some i \<Longrightarrow> p \<noteq> [] \<Longrightarrow> nodes (butlast p) \<noteq> None"
    and "nodes p = Some i \<Longrightarrow> page_no pool x = i \<Longrightarrow> \<not> in_bitmap pool x"
    and "nodes p = Some i \<Longrightarrow> k < 512 \<Longrightarrow> length p < 3 \<Longrightarrow> load64 m (slot pool i k) =
      (case nodes (p @ [k]) of None \<Rightarrow> 0 | Some j \<Rightarrow> entry_word (k_vtop (page_at pool j)) False)"
    and "nodes p = Some i \<Longrightarrow> k < 512 \<Longrightarrow> length p = 3 \<Longrightarrow> load64 m (slot pool i k) = leaves (p @ [k])"
    and "nodes (butlast q) = None \<Longrightarrow> leaves q = 0"
  using assms unfolding table_tree_def by (blast | simp)+

lemma table_tree_inj:
  "table_tree m pool nodes leaves \<Longrightarrow> nodes p = Some i \<Longrightarrow> nodes p' = Some i \<Longrightarrow> p = p'"
  using table_treeD(3) by (metis domI inj_onD)

lemma slot_bytes:
  assumes "4096 * i + 4096 \<le> 2 ^ 64" "k < 512" "unat (x - slot pool i k) < 8"
  shows "page_no pool x = i"
proof -
  define d where "d = unat (x - slot pool i k)"
  have "x = slot pool i k + of_nat d" by (simp add: d_def)
  then have "x = page_at pool i + of_nat (8 * k + d)" by (simp add: slot_def page_at_def)
  moreover have "8 * k + d < 4096" using assms(2,3) by (simp add: d_def)
  ultimately show ?thesis using page_no_page_at [OF assms(1)] by (simp only:)
qed

lemma store_slot_outside:
  assumes "4096 * i + 4096 \<le> 2 ^ 64" "k < 512" "page_no pool x \<noteq> i"
  shows "store64 m (slot pool i k) v x = m x"
  using slot_bytes [OF assms(1,2), of x pool] assms(3)
  unfolding store64_def by (intro store_le_outside) auto

lemma load_store_slot:
  assumes "4096 * i + 4096 \<le> 2 ^ 64" "4096 * i' + 4096 \<le> 2 ^ 64" "k < 512" "k' < 512"
  shows "load64 (store64 m (slot pool i k) v) (slot pool i' k') = (if i' = i \<and> k' = k then v else load64 m (slot pool i' k'))"
proof (cases "i' = i \<and> k' = k")
  case False
  then have "4096 * i + 8 * k + 8 \<le> 4096 * i' + 8 * k' \<or> 4096 * i' + 8 * k' + 8 \<le> 4096 * i + 8 * k"
    using assms(3,4) by (cases "i = i'"; cases "i < i'") auto
  then have "load64 (store64 m (slot pool i k) v) (slot pool i' k') = load64 m (slot pool i' k')"
    unfolding slot_def load64_def store64_def using assms by (intro load_store_offsets) auto
  then show ?thesis using False by auto
qed (auto simp: store64_same)

lemma load_slot_cong:
  assumes "4096 * i + 4096 \<le> 2 ^ 64" "k < 512" "\<And>x. page_no pool x = i \<Longrightarrow> m x = m' x"
  shows "load64 m (slot pool i k) = load64 m' (slot pool i k)"
  unfolding load64_def
proof (rule load_le_cong)
  fix d :: nat assume "d < 8"
  then show "m (slot pool i k + of_nat d) = m' (slot pool i k + of_nat d)"
    by (intro assms(3) slot_bytes [OF assms(1,2)]) (simp add: unat_of_nat_u64)
qed

lemma tree_prefix:
  assumes "table_tree m pool nodes leaves" "nodes p = None"
  shows "nodes (p @ q) = None"
proof (induction q rule: rev_induct)
  case (snoc l q)
  then show ?case using table_treeD(5) [OF assms(1), of "p @ q @ [l]"]
    by (cases "nodes (p @ q @ [l])") (auto simp: butlast_append)
qed (simp add: assms(2))

text \<open>Memory outside the tables and the bitmap does not matter.\<close>

lemma tree_frame:
  assumes "table_tree m pool nodes leaves" "pool_ok m' pool" "\<And>i. i < pages pool \<Longrightarrow> taken m pool i \<Longrightarrow> taken m' pool i"
    and same: "\<And>p x. nodes p = Some (page_no pool x) \<Longrightarrow> m' x = m x"
  shows "table_tree m' pool nodes leaves"
proof -
  note tree = table_treeD [OF assms(1)]
  have "load64 m' (slot pool i k) = load64 m (slot pool i k)" if "nodes p = Some i" "k < 512" for p i k
  proof (rule load_slot_cong)
    show "4096 * i + 4096 \<le> 2 ^ 64" using tree(1) tree(4) [OF that(1)] by (simp add: pool_ok_def)
    show "m' x = m x" if "page_no pool x = i" for x using same [of p x] that \<open>nodes p = Some i\<close> by simp
  qed (rule that(2))
  moreover have "taken m' pool i" if "nodes p = Some i" for p i using assms(3) tree(4) [OF that] by blast
  ultimately show ?thesis using assms(1,2) unfolding table_tree_def by simp
qed

text \<open>Writing an entry of a table changes that entry only.\<close>

lemma store_entry:
  assumes "table_tree m pool nodes leaves" "nodes p = Some i" "k < 512"
    and m'_def: "m' = store64 m (slot pool i k) v"
  shows "pool_ok m' pool" "j < pages pool \<Longrightarrow> taken m' pool j = taken m pool j"
    and "nodes q = Some j \<Longrightarrow> l < 512 \<Longrightarrow>
      load64 m' (slot pool j l) = (if q = p \<and> l = k then v else load64 m (slot pool j l))"
proof -
  note tree = table_treeD [OF assms(1)]
  have bound: "4096 * n + 4096 \<le> 2 ^ 64" if "n < pages pool" for n
    using that tree(1) by (simp add: pool_ok_def)
  have i: "i < pages pool" using tree(4) [OF assms(2)] by simp
  have "m x = m' x" if "in_bitmap pool x" for x
  proof -
    have "page_no pool x \<noteq> i" using tree(6) [OF assms(2)] that by blast
    then show ?thesis using store_slot_outside [OF bound [OF i] assms(3)] by (simp add: m'_def)
  qed
  then have bits: "taken m pool j = taken m' pool j" if "j < pages pool" for j
    using that by (intro bmp_bit_cong) (simp_all add: in_bitmap_def)
  then show "j < pages pool \<Longrightarrow> taken m' pool j = taken m pool j" by simp
  show "pool_ok m' pool" using tree(1) bits by (simp add: pool_ok_def)
  show "load64 m' (slot pool j l) = (if q = p \<and> l = k then v else load64 m (slot pool j l))"
    if q: "nodes q = Some j" "l < 512"
  proof -
    have "j < pages pool" using tree(4) [OF q(1)] by simp
    moreover have "j = i \<longleftrightarrow> q = p" using table_tree_inj [OF assms(1)] q(1) assms(2) by fastforce
    ultimately show ?thesis
      using load_store_slot [of i j k l m pool v] bound i assms(3) q(2) by (simp add: m'_def)
  qed
qed

lemma tree_set_leaf:
  assumes "table_tree m pool nodes leaves" "nodes p = Some i" "k < 512" "length p = 3"
  shows "table_tree (store64 m (slot pool i k) v) pool nodes (leaves(p @ [k] := v))"
proof -
  define m' where "m' = store64 m (slot pool i k) v"
  note store = store_entry [OF assms(1-3) m'_def]
  note tree = table_treeD [OF assms(1)]
  have "load64 m' (slot pool j l) = (if length q < 3 then (case nodes (q @ [l]) of None \<Rightarrow> 0
      | Some j \<Rightarrow> entry_word (k_vtop (page_at pool j)) False) else (leaves(p @ [k] := v)) (q @ [l]))"
    if q: "nodes q = Some j" "l < 512" for q j l
  proof (cases "length q < 3")
    case True
    then have "q \<noteq> p" using assms(4) by auto
    then show ?thesis using store(3) [OF q] tree(7) [OF q True] True by simp
  next
    case False
    then have "length q = 3" using tree(4) [OF q(1)] by simp
    then show ?thesis using store(3) [OF q] tree(8) [OF q] by simp
  qed
  moreover have "taken m' pool j" if "nodes q = Some j" for q j
    using tree(4) [OF that] store(2) by simp
  moreover have "nodes (butlast q) = None \<Longrightarrow> (leaves(p @ [k] := v)) q = 0" for q
    using tree(9) [of q] assms(2) by auto
  ultimately show ?thesis
    unfolding m'_def [symmetric] table_tree_def
    using store(1) tree(1-6) by (intro conjI allI impI) blast+
qed

lemma tree_alloc_page:
  assumes "table_tree m pool nodes leaves" "pages_given PALLOC_ZERO pool j 1 m m1" "pool_ok m1 pool"
  shows "table_tree m1 pool nodes leaves" "nodes q \<noteq> Some j" "j < pages pool" "taken m1 pool j"
    and "page_no pool x = j \<Longrightarrow> \<not> in_bitmap pool x" "l < 512 \<Longrightarrow> load64 m1 (slot pool j l) = 0"
proof -
  note tree = table_treeD [OF assms(1)]
  note given = assms(2) [unfolded pages_given_def]
  show j: "j < pages pool" using given by simp
  have clear: "\<not> taken m pool j" using given by simp
  show other: "nodes q \<noteq> Some j" for q using tree(4) [of q j] clear by blast
  show "taken m1 pool j" using given j by simp
  show free: "page_no pool x = j \<Longrightarrow> \<not> in_bitmap pool x" for x
    using tree(1) clear j unfolding pool_ok_def by blast
  have bound: "4096 * n + 4096 \<le> 2 ^ 64" if "n < pages pool" for n
    using that tree(1) by (simp add: pool_ok_def)
  have "(PALLOC_ZERO AND PALLOC_ZERO :: u8) \<noteq> 0" by simp
  then have bytes: "m1 x = (if page_no pool x = j then 0 else m x)" if "\<not> in_bitmap pool x" for x
    using given that by (auto simp: le_less_Suc_eq)
  have "load64 m1 (slot pool j l) = load64 (\<lambda>_. 0) (slot pool j l)" if "l < 512" for l
    using that bound [OF j] free bytes by (intro load_slot_cong) auto
  then show "l < 512 \<Longrightarrow> load64 m1 (slot pool j l) = 0"
    by (simp add: load64_def load_le_zero)
  have "load64 m1 (slot pool i k) = load64 m (slot pool i k)" if "nodes p = Some i" "k < 512" for p i k
    using that tree(4) [OF that(1)] bound tree(6) [OF that(1)] bytes other [of p] by (intro load_slot_cong) auto
  moreover have "taken m1 pool i" if "nodes p = Some i" for p i
    using tree(4) [OF that] given by auto
  ultimately show "table_tree m1 pool nodes leaves"
    using assms(1,3) unfolding table_tree_def by simp
qed

lemma tree_add_table:
  assumes "table_tree m pool nodes leaves" "nodes p = Some i" "k < 512" "length p < 3"
    "nodes (p @ [k]) = None" "pages_given PALLOC_ZERO pool j 1 m m1" "pool_ok m1 pool"
  shows "table_tree (store64 m1 (slot pool i k) (entry_word (k_vtop (page_at pool j)) False)) pool
    (nodes(p @ [k] \<mapsto> j)) leaves"
proof -
  let ?v = "entry_word (k_vtop (page_at pool j)) False"
  let ?nodes = "nodes(p @ [k] \<mapsto> j)"
  define m2 where "m2 = store64 m1 (slot pool i k) ?v"
  note new = tree_alloc_page [OF assms(1,6,7)]
  note tree = table_treeD [OF new(1)]
  note store = store_entry [OF new(1) assms(2,3) m2_def]
  have fresh: "nodes ((p @ [k]) @ q) = None" for q
    using tree_prefix [OF new(1) assms(5)] .
  have i: "i < pages pool" "i \<noteq> j" using tree(4) [OF assms(2)] new(2) [of p] assms(2) by auto
  have zero: "load64 m2 (slot pool j l) = 0" if "l < 512" for l
  proof -
    have "4096 * n + 4096 \<le> 2 ^ 64" if "n < pages pool" for n using that tree(1) by (simp add: pool_ok_def)
    then show ?thesis
      using load_store_slot [of i j k l m1 pool ?v] i new(3) assms(3) new(6) that by (simp add: m2_def)
  qed
  have loads: "load64 m2 (slot pool n l) = (if length q < 3 then (case ?nodes (q @ [l]) of None \<Rightarrow> 0
      | Some j \<Rightarrow> entry_word (k_vtop (page_at pool j)) False) else leaves (q @ [l]))"
    if q: "?nodes q = Some n" "l < 512" for q n l
  proof (cases "q = p @ [k]")
    case True
    then have "nodes (q @ [l]) = None" using fresh [of "[l]"] by simp
    moreover have "leaves ((p @ [k]) @ [l]) = 0" using tree(9) [of "(p @ [k]) @ [l]"] assms(5) by (simp only: butlast_snoc)
    ultimately show ?thesis using zero [OF q(2)] q(1) True by simp
  next
    case False
    then have old: "nodes q = Some n" using q(1) by simp
    show ?thesis
    proof (cases "length q < 3")
      case True
      then show ?thesis using store(3) [OF old q(2)] tree(7) [OF old q(2) True] by simp
    next
      case long: False
      then have "length q = 3" using tree(4) [OF old] by simp
      moreover have "q \<noteq> p" using long assms(4) by auto
      ultimately show ?thesis using store(3) [OF old q(2)] tree(8) [OF old q(2)] by simp
    qed
  qed
  have inj: "inj_on ?nodes (dom ?nodes)"
    using tree(3) new(2) by (auto simp: inj_on_def dom_def)
  have node: "n < pages pool \<and> taken m2 pool n \<and> length q \<le> 3 \<and> (q \<noteq> [] \<longrightarrow> ?nodes (butlast q) \<noteq> None) \<and>
      (\<forall>x. page_no pool x = n \<longrightarrow> \<not> in_bitmap pool x)" if "?nodes q = Some n" for q n
  proof (cases "q = p @ [k]")
    case True
    then show ?thesis using that new(3-5) store(2) assms(2,4) by auto
  next
    case False
    then have "nodes q = Some n" using that by simp
    then show ?thesis using tree(4-6) [of q n] store(2) by auto
  qed
  have "?nodes (butlast q) = None \<Longrightarrow> leaves q = 0" for q
    using tree(9) [of q] by (auto split: if_splits)
  then show ?thesis
    unfolding m2_def [symmetric] table_tree_def
    using store(1) tree(2) inj node loads by (intro conjI allI impI) blast+
qed

section \<open>Walking the tables\<close>

text \<open>The physical address an entry leads to, and the walk through four of them.\<close>

definition entry_target :: "u64 \<Rightarrow> addr option" where
  "entry_target e =
     (if GET_BITS e PDE_PTE_PRESENT_POS PDE_PTE_PRESENT_LEN = 0 then None
      else Some (push_bit 12 (GET_BITS e PDE_PTE_BASE_POS PDE_PTE_BASE_LEN)))"

primrec walk :: "memory \<Rightarrow> addr \<Rightarrow> nat list \<Rightarrow> addr option" where
  "walk m phys [] = Some phys"
| "walk m phys (k # ks) =
     (case entry_target (load64 m (k_ptov phys + of_nat (8 * k))) of None \<Rightarrow> None | Some a \<Rightarrow> walk m a ks)"

definition path :: "addr \<Rightarrow> nat list" where
  "path v = map unat [GET_PML4_OFS v, GET_PML3_OFS v, GET_PML2_OFS v, GET_PML1_OFS v]"

definition translate :: "memory \<Rightarrow> addr \<Rightarrow> addr \<Rightarrow> addr option" where
  "translate m root v = (case walk m root (path v) of None \<Rightarrow> None | Some a \<Rightarrow> Some (a + GET_OFS v))"

lemma entry_target_0 [simp]: "entry_target 0 = None"
  by (simp add: entry_target_def GET_BITS_def)

lemma ptov_vtop [simp]: "k_ptov (k_vtop a) = a" "k_vtop (k_ptov a) = a"
  by (simp_all add: k_ptov_def k_vtop_def)

lemma slot_page_at: "slot pool i k = page_at pool i + of_nat (8 * k)"
  by (simp add: slot_def page_at_def)

text \<open>A page of a pool in the direct map survives the trip through a base field.\<close>

lemma take_bit_fits: "unat x < 2 ^ n \<Longrightarrow> take_bit n (x :: u64) = x"
  by (metis take_bit_nat_eq_self unsigned_take_bit_eq word_unat_eq_iff)

lemma entry_target_word:
  assumes "unat phys < 2 ^ 51"
  shows "entry_target (entry_word phys user) = Some (phys AND NOT 0xFFF)"
proof -
  have "take_bit 51 phys = phys" using assms by (rule take_bit_fits)
  then have "bit phys n \<Longrightarrow> n < 51" for n by (metis bit_take_bit_iff)
  then have high: "bit phys n \<Longrightarrow> \<not> n < 12 \<Longrightarrow> n - 12 < 39" for n by fastforce
  have m: "(0xFFF :: u64) = mask 12" by (simp add: mask_numeral)
  have "push_bit 12 (take_bit 39 (drop_bit 12 phys)) = phys AND NOT 0xFFF"
    unfolding m by (rule bit_word_eqI) (use high in \<open>auto simp: bit_simps\<close>)
  then show ?thesis unfolding entry_target_def entry_word_fields by simp
qed

lemma page_aligned:
  assumes "4096 dvd unat (x :: u64)"
  shows "x AND NOT 0xFFF = x"
proof -
  have "take_bit 12 (unat x) = 0" using assms by (simp add: take_bit_eq_mod dvd_eq_mod_eq_0)
  then have "take_bit 12 x = 0" by (metis unat_eq_0 unsigned_take_bit_eq)
  then have low: "\<not> bit x n" if "n < 12" for n using that by (metis bit_0_eq bit_take_bit_iff bot_apply bot_bool_def)
  have m: "(0xFFF :: u64) = mask 12" by (simp add: mask_numeral)
  show ?thesis unfolding m by (rule bit_word_eqI) (use low in \<open>auto simp: bit_simps\<close>)
qed

lemma vtop_page:
  assumes "pool_ok m pool" "high_pool pool" "i < pages pool"
  shows "unat (k_vtop (page_at pool i)) < 2 ^ 31" "4096 dvd unat (k_vtop (page_at pool i))"
proof -
  define b where "b = unat (page_base pool)"
  have a: "unat (page_at pool i) = b + 4096 * i" using page_at_unat [OF assms(1,3)] by (simp add: b_def)
  have b: "2 ^ 64 - 2 ^ 31 \<le> b" "4096 dvd b" using assms(2) by (simp_all add: high_pool_def b_def)
  have lt: "b + 4096 * i < 2 ^ 64" using a unat_u64_less [of "page_at pool i"] by simp
  have "(0xFFFFFFFF80000000 :: u64) \<le> page_at pool i" using a b(1) by (simp add: word_le_nat_alt)
  then have v: "unat (k_vtop (page_at pool i)) = b + 4096 * i - (2 ^ 64 - 2 ^ 31)"
    unfolding k_vtop_def by (simp add: unat_sub a)
  then show "unat (k_vtop (page_at pool i)) < 2 ^ 31" using lt b by simp
  have "4096 dvd (b + 4096 * i) - (2 ^ 64 - 2 ^ 31)" using b(2) by (intro dvd_diff_nat) simp_all
  then show "4096 dvd unat (k_vtop (page_at pool i))" using v by simp
qed

lemma entry_target_table:
  assumes "pool_ok m pool" "high_pool pool" "i < pages pool"
  shows "entry_target (entry_word (k_vtop (page_at pool i)) user) = Some (k_vtop (page_at pool i))"
proof -
  have "unat (k_vtop (page_at pool i)) < 2 ^ 51" using vtop_page(1) [OF assms] by simp
  then show ?thesis using entry_target_word page_aligned [OF vtop_page(2) [OF assms]] by (simp only:)
qed

text \<open>In a tree of tables the walk finds exactly the leaves.\<close>

lemma walk_tree:
  assumes "table_tree m pool nodes leaves" "nodes p = Some i" "length p + length ks = 4" "ks \<noteq> []" "\<forall>k \<in> set ks. k < 512"
  shows "walk m (k_vtop (page_at pool i)) ks = entry_target (leaves (p @ ks))"
  using assms(2-5)
proof (induction ks arbitrary: p i)
  case (Cons k ks)
  note tree = table_treeD [OF assms(1)]
  have k: "k < 512" using Cons.prems by simp
  have entry: "walk m (k_vtop (page_at pool i)) (k # ks) =
      (case entry_target (load64 m (slot pool i k)) of None \<Rightarrow> None | Some a \<Rightarrow> walk m a ks)"
    by (simp add: slot_page_at)
  show ?case
  proof (cases "ks = []")
    case True
    then have "length p = 3" using Cons.prems by simp
    then show ?thesis unfolding entry using tree(8) [OF Cons.prems(1) k] True by (auto split: option.split)
  next
    case False
    then have len: "length p < 3" using Cons.prems by (cases ks) auto
    show ?thesis
    proof (cases "nodes (p @ [k])")
      case None
      have "butlast (p @ k # ks) = (p @ [k]) @ butlast ks" using False by (simp add: butlast_append)
      then have "leaves (p @ k # ks) = 0" using tree(9) tree_prefix [OF assms(1) None] by metis
      then show ?thesis unfolding entry using tree(7) [OF Cons.prems(1) k len] None by simp
    next
      case (Some j)
      then have "j < pages pool" using tree(4) by blast
      then have "walk m (k_vtop (page_at pool i)) (k # ks) = walk m (k_vtop (page_at pool j)) ks"
        unfolding entry using tree(7) [OF Cons.prems(1) k len] Some entry_target_table [OF tree(1,2)] by simp
      also have "\<dots> = entry_target (leaves ((p @ [k]) @ ks))"
        using Cons.prems False by (intro Cons.IH [OF Some]) auto
      finally show ?thesis by simp
    qed
  qed
qed simp

lemma path_facts: "length (path v) = 4" "\<forall>k \<in> set (path v). k < 512"
proof -
  have "unat (x AND 0x1FF :: u64) < 512" for x
    using word_and_le1 [of x "0x1FF"] by (simp add: word_le_nat_alt)
  then show "\<forall>k \<in> set (path v). k < 512"
    by (simp add: path_def GET_PML4_OFS_def GET_PML3_OFS_def GET_PML2_OFS_def GET_PML1_OFS_def)
qed (simp add: path_def)

lemma translate_tree:
  assumes "table_tree m pool nodes leaves" "nodes [] = Some r"
  shows "translate m (k_vtop (page_at pool r)) v =
    (case entry_target (leaves (path v)) of None \<Rightarrow> None | Some a \<Rightarrow> Some (a + GET_OFS v))"
proof -
  have "path v \<noteq> []" by (simp add: path_def)
  then show ?thesis using walk_tree [OF assms, of "path v"] path_facts [of v] by (simp add: translate_def)
qed

section \<open>Mapping a page\<close>

text \<open>What a state with tables promises: the tree, its root in \<^verbatim>\<open>init_pml4\<close>, and how many pages are left,
  in the whole pool or below a limit.\<close>

definition free_below :: "nat \<Rightarrow> memory \<Rightarrow> pool_t \<Rightarrow> nat" where
  "free_below l m pool = card {i. i < l \<and> i < pages pool \<and> \<not> taken m pool i}"

definition free_pages :: "memory \<Rightarrow> pool_t \<Rightarrow> nat" where
  "free_pages m pool = card {i. i < pages pool \<and> \<not> taken m pool i}"

lemma free_below_all: "free_below (pages pool) m pool = free_pages m pool"
  by (simp add: free_below_def free_pages_def conj_assoc [symmetric])

definition page_tables :: "paging \<Rightarrow> (nat list \<Rightarrow> nat option) \<Rightarrow> (nat list \<Rightarrow> u64) \<Rightarrow> bool" where
  "page_tables s nodes leaves \<longleftrightarrow>
     table_tree (pg_mem s) (kernel_pool s) nodes leaves \<and>
     (\<exists>r. nodes [] = Some r \<and> init_pml4 s = page_at (kernel_pool s) r)"

lemma free_below_given:
  assumes "pages_given flags pool c 1 m m'" "c < l"
  shows "free_below l m pool = Suc (free_below l m' pool)"
proof -
  have "{i. i < l \<and> i < pages pool \<and> \<not> taken m pool i} = insert c {i. i < l \<and> i < pages pool \<and> \<not> taken m' pool i}"
    using assms by (auto simp: pages_given_def)
  moreover have "c \<notin> {i. i < l \<and> i < pages pool \<and> \<not> taken m' pool i}" using assms by (auto simp: pages_given_def)
  ultimately show ?thesis by (simp add: free_below_def)
qed

lemma free_below_cong: "(\<And>i. i < pages pool \<Longrightarrow> taken m' pool i = taken m pool i) \<Longrightarrow> free_below l m' pool = free_below l m pool"
  unfolding free_below_def by metis

lemma given_least: "pages_given flags pool c 1 m m' \<Longrightarrow> \<not> taken m pool j \<Longrightarrow> c \<le> j"
  by (rule ccontr) (auto simp: pages_given_def not_le le_less_Suc_eq)

text \<open>A free page below the limit is there to be given, and the allocator takes the least.\<close>

lemma get_page_free:
  assumes "pool_ok (pg_mem s) (kernel_pool s)" "0 < free_below l (pg_mem s) (kernel_pool s)"
  shows "\<exists>c m'. paging_get_page PALLOC_ZERO s = Inr (page_at (kernel_pool s) c, s\<lparr>pg_mem := m'\<rparr>) \<and>
    pages_given PALLOC_ZERO (kernel_pool s) c 1 (pg_mem s) m' \<and> pool_ok m' (kernel_pool s) \<and> c < l"
proof -
  have pool: "pool_of PALLOC_ZERO s = kernel_pool s" by (simp add: pool_of_def)
  obtain i where i: "i < pages (kernel_pool s)" "\<not> taken (pg_mem s) (kernel_pool s) i" "i < l"
    using assms(2) by (auto simp: free_below_def card_gt_0_iff)
  then have "\<not> (\<forall>c. c + unat (1 :: u64) \<le> pages (kernel_pool s) \<longrightarrow>
      (\<exists>j. c \<le> j \<and> j < c + unat (1 :: u64) \<and> taken (pg_mem s) (kernel_pool s) j))"
    by (auto intro!: exI [of _ i] simp: le_less_Suc_eq)
  then obtain c m' where c: "paging_get_page PALLOC_ZERO s = Inr (page_at (kernel_pool s) c, s\<lparr>pg_mem := m'\<rparr>)"
    "pages_given PALLOC_ZERO (kernel_pool s) c 1 (pg_mem s) m'" "pool_ok m' (kernel_pool s)"
    using paging_get_pages_cases [of s PALLOC_ZERO 1] assms(1) i(1) unfolding paging_get_page_def pool by auto
  then show ?thesis using given_least [OF c(2) i(2)] i(3) by (meson order_le_less_trans)
qed

text \<open>Building tables below a limit: no page is given back, none from the limit on is taken, and memory that is
  neither in a page below the limit nor in the bitmap stays as it is.\<close>

definition kept_above :: "nat \<Rightarrow> pool_t \<Rightarrow> memory \<Rightarrow> memory \<Rightarrow> bool" where
  "kept_above l pool m m' \<longleftrightarrow> (\<forall>j < pages pool. taken m pool j \<longrightarrow> taken m' pool j) \<and>
     (\<forall>j < pages pool. l \<le> j \<longrightarrow> taken m' pool j = taken m pool j) \<and>
     (\<forall>x. \<not> in_bitmap pool x \<and> l \<le> page_no pool x \<longrightarrow> m' x = m x)"

lemma kept_above_refl: "kept_above l pool m m"
  by (simp add: kept_above_def)

lemma kept_above_trans: "kept_above l pool m m' \<Longrightarrow> kept_above l pool m' m'' \<Longrightarrow> kept_above l pool m m''"
  by (simp add: kept_above_def)

lemma given_kept: "pages_given flags pool c 1 m m' \<Longrightarrow> c < l \<Longrightarrow> kept_above l pool m m'"
  by (auto simp: pages_given_def kept_above_def)

lemma store_kept:
  assumes "table_tree m pool nodes leaves" "nodes p = Some i" "i < l" "k < 512"
  shows "kept_above l pool m (store64 m (slot pool i k) v)"
proof -
  have "4096 * i + 4096 \<le> 2 ^ 64" using table_treeD(1,4) [OF assms(1)] assms(2) by (fastforce simp: pool_ok_def)
  then have "store64 m (slot pool i k) v x = m x" if "l \<le> page_no pool x" for x
    using store_slot_outside assms(3,4) that by (metis linorder_not_less)
  then show ?thesis unfolding kept_above_def using store_entry(2) [OF assms(1,2,4) refl] by simp
qed

lemma finite_nodes: "table_tree m pool nodes leaves \<Longrightarrow> finite (dom nodes)"
proof (rule finite_imageD)
  assume tree: "table_tree m pool nodes leaves"
  have "nodes ` dom nodes \<subseteq> Some ` {..<pages pool}" using table_treeD(4) [OF tree] by fastforce
  then show "finite (nodes ` dom nodes)" by (rule finite_subset) simp
  show "inj_on nodes (dom nodes)" using table_treeD(3) [OF tree] .
qed

text \<open>The pages a set of table paths still needs are there, below a limit that bounds the tables so far.\<close>

definition enough_pages :: "nat \<Rightarrow> paging \<Rightarrow> (nat list \<Rightarrow> nat option) \<Rightarrow> nat list set \<Rightarrow> bool" where
  "enough_pages l s nodes D \<longleftrightarrow> finite D \<and> dom nodes \<subseteq> D \<and> (\<forall>p i. nodes p = Some i \<longrightarrow> i < l) \<and>
     card D \<le> free_below l (pg_mem s) (kernel_pool s) + card (dom nodes)"

definition maps_ext :: "(nat list \<Rightarrow> nat option) \<Rightarrow> (nat list \<Rightarrow> nat option) \<Rightarrow> bool" where
  "maps_ext nodes nodes' \<longleftrightarrow> (\<forall>q n. nodes q = Some n \<longrightarrow> nodes' q = Some n)"

lemma pde_init_step:
  assumes "page_tables s nodes leaves" "enough_pages l s nodes D" "p @ [k] \<in> D"
    and p: "nodes p = Some i" "length p < 3" "k < 512"
  shows "\<exists>m' nodes' j. pde_init (slot (kernel_pool s) i k) False s = Inr (page_at (kernel_pool s) j, s\<lparr>pg_mem := m'\<rparr>) \<and>
    page_tables (s\<lparr>pg_mem := m'\<rparr>) nodes' leaves \<and> enough_pages l (s\<lparr>pg_mem := m'\<rparr>) nodes' D \<and>
    nodes' (p @ [k]) = Some j \<and> maps_ext nodes nodes' \<and> kept_above l (kernel_pool s) (pg_mem s) m'"
proof -
  let ?pool = "kernel_pool s"
  have tree0: "table_tree (pg_mem s) ?pool nodes leaves" using assms(1) by (simp add: page_tables_def)
  note tree = table_treeD [OF tree0]
  have entry: "load64 (pg_mem s) (slot ?pool i k) =
      (case nodes (p @ [k]) of None \<Rightarrow> 0 | Some j \<Rightarrow> entry_word (k_vtop (page_at ?pool j)) False)"
    using tree(7) [OF p(1,3,2)] .
  show ?thesis
  proof (cases "nodes (p @ [k])")
    case (Some j)
    then have "j < pages ?pool" using tree(4) by blast
    then have "pde_init (slot ?pool i k) False s = Inr (page_at ?pool j, s)"
      using entry_target_table [OF tree(1,2), of j False] entry Some
      by (simp add: pde_init_cases entry_target_def split: if_splits)
    then have "pde_init (slot ?pool i k) False s = Inr (page_at ?pool j, s\<lparr>pg_mem := pg_mem s\<rparr>)" by simp
    moreover have "s\<lparr>pg_mem := pg_mem s\<rparr> = s" by simp
    ultimately show ?thesis using assms(1,2) Some kept_above_refl unfolding maps_ext_def by metis
  next
    case None
    have "dom nodes \<subset> D" using assms(2,3) None by (auto simp: enough_pages_def)
    then have "card (dom nodes) < card D" using assms(2) by (auto simp: enough_pages_def intro: psubset_card_mono)
    then have "0 < free_below l (pg_mem s) ?pool" using assms(2) by (simp add: enough_pages_def)
    then obtain j m1 where page: "paging_get_page PALLOC_ZERO s = Inr (page_at ?pool j, s\<lparr>pg_mem := m1\<rparr>)"
      and given: "pages_given PALLOC_ZERO ?pool j 1 (pg_mem s) m1" "pool_ok m1 ?pool" and j: "j < l"
      using get_page_free [OF tree(1)] by blast
    define m2 where "m2 = store64 m1 (slot ?pool i k) (entry_word (k_vtop (page_at ?pool j)) False)"
    let ?nodes = "nodes(p @ [k] \<mapsto> j)"
    have tree2: "table_tree m2 ?pool ?nodes leaves"
      unfolding m2_def using tree_add_table [OF tree0 p(1,3,2) None given] .
    have "pde_init (slot ?pool i k) False s = Inr (page_at ?pool j, s\<lparr>pg_mem := m2\<rparr>)"
      using entry None page by (simp add: pde_init_cases m2_def GET_BITS_def)
    moreover have "page_tables (s\<lparr>pg_mem := m2\<rparr>) ?nodes leaves"
      using assms(1) tree2 by (auto simp: page_tables_def)
    moreover have "enough_pages l (s\<lparr>pg_mem := m2\<rparr>) ?nodes D"
    proof -
      have "taken m2 ?pool n = taken m1 ?pool n" if "n < pages ?pool" for n
        using store_entry(2) [OF tree_alloc_page(1) [OF tree0 given] p(1,3) m2_def that] .
      then have "free_below l m2 ?pool = free_below l m1 ?pool" by (rule free_below_cong)
      then show ?thesis
        using assms(2,3) None finite_nodes [OF tree0] free_below_given [OF given(1) j] j
        by (simp add: enough_pages_def domIff)
    qed
    moreover have "kept_above l ?pool (pg_mem s) m2"
    proof (rule kept_above_trans [OF given_kept [OF given(1) j]])
      have "i < l" using assms(2) p(1) by (auto simp: enough_pages_def)
      then show "kept_above l ?pool m1 m2"
        unfolding m2_def using store_kept [OF tree_alloc_page(1) [OF tree0 given] p(1) _ p(3)] by blast
    qed
    ultimately show ?thesis using None by (intro exI [of _ m2] exI [of _ ?nodes] exI [of _ j]) (auto simp: maps_ext_def)
  qed
qed

lemma table_entry_slot:
  assumes "pool_ok m pool" "i < pages pool" "unat ofs < 512"
  shows "table_entry (page_at pool i) ofs = Inr (slot pool i (unat ofs))"
proof -
  have "unat (page_at pool i) \<noteq> 0" using page_at_unat [OF assms(1,2)] assms(1) by (simp add: pool_ok_def)
  then have "page_at pool i \<noteq> NULL" by (metis unat_0)
  moreover have "(ucast (ucast ofs :: u32) :: u64) = ofs"
  proof -
    have "unat (ucast ofs :: u32) = unat ofs" using assms(3) by (simp add: unsigned_ucast_eq take_bit_nat_eq_self)
    then have "unat (ucast (ucast ofs :: u32) :: u64) = unat ofs"
      using assms(3) by (simp add: unsigned_ucast_eq [of "ucast ofs :: u32"] take_bit_nat_eq_self)
    then show ?thesis by (simp add: word_unat_eq_iff)
  qed
  ultimately show ?thesis by (simp add: table_entry_def slot_page_at)
qed

lemma page_tables_entry:
  assumes "page_tables s nodes leaves" "nodes p = Some i" "unat ofs < 512"
  shows "table_entry (page_at (kernel_pool s) i) ofs = Inr (slot (kernel_pool s) i (unat ofs))"
proof -
  have tree: "table_tree (pg_mem s) (kernel_pool s) nodes leaves" using assms(1) by (simp add: page_tables_def)
  show ?thesis using table_entry_slot [OF table_treeD(1) [OF tree]] table_treeD(4) [OF tree assms(2)] assms(3) by blast
qed

lemma paging_map_page_maps:
  assumes s: "page_tables s nodes leaves" "enough_pages l s nodes D"
    and D: "take 1 (path v) \<in> D" "take 2 (path v) \<in> D" "take 3 (path v) \<in> D"
  shows "\<exists>m' nodes'. paging_map_page v phys s = Inr (s\<lparr>pg_mem := m'\<rparr>) \<and>
    page_tables (s\<lparr>pg_mem := m'\<rparr>) nodes' (leaves(path v := entry_word phys False)) \<and>
    enough_pages l (s\<lparr>pg_mem := m'\<rparr>) nodes' D \<and> maps_ext nodes nodes' \<and> kept_above l (kernel_pool s) (pg_mem s) m'"
proof -
  let ?pool = "kernel_pool s"
  define a where "a = unat (GET_PML4_OFS v)"
  define b where "b = unat (GET_PML3_OFS v)"
  define c where "c = unat (GET_PML2_OFS v)"
  define d where "d = unat (GET_PML1_OFS v)"
  have path: "path v = [a, b, c, d]" by (simp add: path_def a_def b_def c_def d_def)
  have lt: "a < 512" "b < 512" "c < 512" "d < 512" using path_facts(2) [of v] by (simp_all add: path)
  obtain r where r: "nodes [] = Some r" "init_pml4 s = page_at ?pool r" using s(1) by (auto simp: page_tables_def)
  obtain m1 n1 i1 where 1: "pde_init (slot ?pool r a) False s = Inr (page_at ?pool i1, s\<lparr>pg_mem := m1\<rparr>)"
    "page_tables (s\<lparr>pg_mem := m1\<rparr>) n1 leaves" "enough_pages l (s\<lparr>pg_mem := m1\<rparr>) n1 D" "n1 [a] = Some i1" "maps_ext nodes n1"
    "kept_above l ?pool (pg_mem s) m1"
    using pde_init_step [OF s, of "[]" a r] r(1) lt D(1) by (auto simp: path)
  obtain m2 n2 i2 where 2: "pde_init (slot ?pool i1 b) False (s\<lparr>pg_mem := m1\<rparr>) = Inr (page_at ?pool i2, s\<lparr>pg_mem := m2\<rparr>)"
    "page_tables (s\<lparr>pg_mem := m2\<rparr>) n2 leaves" "enough_pages l (s\<lparr>pg_mem := m2\<rparr>) n2 D" "n2 [a, b] = Some i2" "maps_ext n1 n2"
    "kept_above l ?pool m1 m2"
    using pde_init_step [OF 1(2,3), of "[a]" b i1] 1(4) lt D(2) by (auto simp: path)
  obtain m3 n3 i3 where 3: "pde_init (slot ?pool i2 c) False (s\<lparr>pg_mem := m2\<rparr>) = Inr (page_at ?pool i3, s\<lparr>pg_mem := m3\<rparr>)"
    "page_tables (s\<lparr>pg_mem := m3\<rparr>) n3 leaves" "enough_pages l (s\<lparr>pg_mem := m3\<rparr>) n3 D" "n3 [a, b, c] = Some i3" "maps_ext n2 n3"
    "kept_above l ?pool m2 m3"
    using pde_init_step [OF 2(2,3), of "[a, b]" c i2] 2(4) lt D(3) by (auto simp: path eval_nat_numeral)
  define m4 where "m4 = store64 m3 (slot ?pool i3 d) (entry_word phys False)"
  have tree3: "table_tree m3 ?pool n3 leaves" using 3(2) by (simp add: page_tables_def)
  have tree4: "table_tree m4 ?pool n3 (leaves(path v := entry_word phys False))"
    using tree_set_leaf [OF tree3 3(4) lt(4), of "entry_word phys False"] by (simp add: m4_def path)
  have "free_below l m4 ?pool = free_below l m3 ?pool"
    using store_entry(2) [OF tree3 3(4) lt(4) m4_def] by (rule free_below_cong)
  then have "enough_pages l (s\<lparr>pg_mem := m4\<rparr>) n3 D" using 3(3) by (simp add: enough_pages_def)
  moreover have "page_tables (s\<lparr>pg_mem := m4\<rparr>) n3 (leaves(path v := entry_word phys False))"
    using 3(2) tree4 by (auto simp: page_tables_def)
  moreover have "paging_map_page v phys s = Inr (s\<lparr>pg_mem := m4\<rparr>)"
    unfolding paging_map_page_def
    using page_tables_entry [OF s(1) r(1), of "GET_PML4_OFS v"] page_tables_entry [OF 1(2,4), of "GET_PML3_OFS v"]
      page_tables_entry [OF 2(2,4), of "GET_PML2_OFS v"] page_tables_entry [OF 3(2,4), of "GET_PML1_OFS v"] lt
    by (simp add: a_def [symmetric] b_def [symmetric] c_def [symmetric] d_def [symmetric] r(2) 1(1) 2(1) 3(1)
        pte_init_store m4_def)
  moreover have "maps_ext nodes n3" using 1(5) 2(5) 3(5) by (auto simp: maps_ext_def)
  moreover have "kept_above l ?pool (pg_mem s) m4"
  proof -
    have "i3 < l" using 3(3,4) unfolding enough_pages_def by blast
    then have "kept_above l ?pool m3 m4" unfolding m4_def using store_kept [OF tree3 3(4) _ lt(4)] by blast
    then show ?thesis using 1(6) 2(6) 3(6) kept_above_trans by blast
  qed
  ultimately show ?thesis by blast
qed

section \<open>Mapping all of memory\<close>

text \<open>The path and offset of an address of the direct map.\<close>

lemma unat_k_ptov: "a < 2 ^ 31 \<Longrightarrow> unat (k_ptov (of_nat a)) = 2 ^ 64 - 2 ^ 31 + a"
proof -
  assume "a < 2 ^ 31"
  then have lt: "2 ^ 64 - 2 ^ 31 + a < 2 ^ 64" by simp
  have "k_ptov (of_nat a) = of_nat (2 ^ 64 - 2 ^ 31 + a)" by (simp add: k_ptov_def add.commute)
  then show ?thesis using unat_of_nat_u64 [OF lt] by (simp only:)
qed

lemma unat_index: "unat (drop_bit k v AND 0x1FF :: u64) = unat v div 2 ^ k mod 512"
proof -
  have "(0x1FF :: u64) = mask 9" by (simp add: mask_numeral)
  then have "drop_bit k v AND 0x1FF = take_bit 9 (drop_bit k v)" by (simp only: take_bit_eq_mask)
  moreover have "unat (drop_bit k v) = unat v div 2 ^ k"
    by (simp only: unsigned_drop_bit_eq) (use unat_u64_less [of v] in \<open>simp add: drop_bit_eq_div take_bit_eq_mod\<close>)
  ultimately show ?thesis by (simp add: unsigned_take_bit_eq take_bit_eq_mod unat_mod)
qed

definition direct_path :: "nat \<Rightarrow> nat list" where
  "direct_path a = [511, 510 + a div 2 ^ 30, a div 2 ^ 21 mod 512, a div 2 ^ 12 mod 512]"

lemma path_k_ptov:
  assumes "a < 2 ^ 31"
  shows "path (k_ptov (of_nat a)) = direct_path a"
proof -
  have 4: "(2 ^ 64 - 2 ^ 31 + a) div 2 ^ 39 mod 512 = 511"
  proof -
    have "(2 ^ 64 - 2 ^ 31 + a) div 2 ^ 39 = 2 ^ 25 - 1" by (rule div_nat_eqI) (use assms in simp_all)
    then show ?thesis by simp
  qed
  have 3: "(2 ^ 64 - 2 ^ 31 + a) div 2 ^ 30 mod 512 = 510 + a div 2 ^ 30"
  proof -
    have "2 ^ 64 - 2 ^ 31 + a = a + (2 ^ 34 - 2) * 2 ^ 30" by simp
    then have "(2 ^ 64 - 2 ^ 31 + a) div 2 ^ 30 = (2 ^ 34 - 2) + a div 2 ^ 30"
      by (simp only: div_mult_self1 power_not_zero) simp
    moreover have "a div 2 ^ 30 < 2" using assms by (simp add: div_less_iff_less_mult)
    moreover have "((2 ^ 34 - 2) + x) mod 512 = 510 + x" if "x < 2" for x :: nat using that by (cases x) auto
    ultimately show ?thesis by simp
  qed
  have 2: "(2 ^ 64 - 2 ^ 31 + a) div 2 ^ 21 mod 512 = a div 2 ^ 21 mod 512"
  proof -
    have "2 ^ 64 - 2 ^ 31 + a = a + (2 ^ 43 - 2 ^ 10) * 2 ^ 21" by simp
    then have "(2 ^ 64 - 2 ^ 31 + a) div 2 ^ 21 = a div 2 ^ 21 + (2 ^ 34 - 2) * 512"
      by (simp only: div_mult_self1 power_not_zero) simp
    then show ?thesis by (simp only: mod_mult_self1)
  qed
  have 1: "(2 ^ 64 - 2 ^ 31 + a) div 2 ^ 12 mod 512 = a div 2 ^ 12 mod 512"
  proof -
    have "2 ^ 64 - 2 ^ 31 + a = a + (2 ^ 52 - 2 ^ 19) * 2 ^ 12" by simp
    then have "(2 ^ 64 - 2 ^ 31 + a) div 2 ^ 12 = a div 2 ^ 12 + (2 ^ 43 - 2 ^ 10) * 512"
      by (simp only: div_mult_self1 power_not_zero) simp
    then show ?thesis by (simp only: mod_mult_self1)
  qed
  show ?thesis
    unfolding path_def GET_PML4_OFS_def GET_PML3_OFS_def GET_PML2_OFS_def GET_PML1_OFS_def list.map unat_index
      unat_k_ptov [OF assms] 1 2 3 4 direct_path_def ..
qed

lemma offset_k_ptov:
  assumes "a < 2 ^ 31"
  shows "GET_OFS (k_ptov (of_nat a)) = of_nat (a mod 4096)"
proof -
  have "(0xFFF :: u64) = mask 12" by (simp add: mask_numeral)
  then have "GET_OFS v = take_bit 12 v" for v by (simp only: GET_OFS_def take_bit_eq_mask)
  then have "unat (GET_OFS (k_ptov (of_nat a))) = (2 ^ 64 - 2 ^ 31 + a) mod 4096"
    using unat_k_ptov [OF assms] by (simp add: take_bit_eq_mod unat_mod)
  also have "\<dots> = a mod 4096"
  proof -
    have "2 ^ 64 - 2 ^ 31 + a = a + (2 ^ 52 - 2 ^ 19) * 4096" by simp
    then show ?thesis by (simp only: mod_mult_self1)
  qed
  also have "\<dots> = unat (of_nat (a mod 4096) :: u64)"
    by (rule unat_of_nat_u64 [symmetric]) (use mod_less_divisor [of 4096 a] in simp)
  finally show ?thesis by (simp add: word_unat_eq_iff)
qed

lemma direct_path_inj:
  assumes "direct_path a = direct_path b"
  shows "a div 4096 = b div 4096"
proof -
  have split: "x div 4096 = x div 2 ^ 30 * 2 ^ 18 + x div 2 ^ 21 mod 512 * 512 + x div 2 ^ 12 mod 512" for x :: nat
  proof -
    have "x div 2 ^ 30 = x div 4096 div 2 ^ 18" "x div 2 ^ 21 = x div 4096 div 512"
      by (simp_all add: div_mult2_eq [symmetric])
    moreover have "y = y div 2 ^ 18 * 2 ^ 18 + y div 512 mod 512 * 512 + y mod 512" for y :: nat
    proof -
      have "y = y div 512 * 512 + y mod 512" "y div 512 = y div 512 div 512 * 512 + y div 512 mod 512"
        by simp_all
      then have "y = y div 512 div 512 * 262144 + y div 512 mod 512 * 512 + y mod 512" by linarith
      moreover have "y div 512 div 512 = y div 2 ^ 18" by (simp add: div_mult2_eq [symmetric])
      moreover have "(2 :: nat) ^ 18 = 262144" by simp
      ultimately show ?thesis by (simp only:)
    qed
    ultimately show ?thesis by (simp only:) simp
  qed
  show ?thesis using assms unfolding split [of a] split [of b] direct_path_def by simp
qed

lemma direct_path_page: "direct_path a = direct_path (4096 * (a div 4096))"
proof -
  have "4096 * k div (4096 * c) = k div c" for k c :: nat by (rule div_mult_mult1) simp
  from this [of _ "2 ^ 18"] this [of _ "2 ^ 9"]
  have "4096 * k div 2 ^ 30 = k div 2 ^ 18" "4096 * k div 2 ^ 21 = k div 2 ^ 9" for k :: nat by simp_all
  moreover have "a div 2 ^ 30 = a div 4096 div 2 ^ 18" "a div 2 ^ 21 = a div 4096 div 2 ^ 9"
    by (simp_all add: div_mult2_eq [symmetric])
  ultimately show ?thesis by (simp add: direct_path_def)
qed

text \<open>The paths of the tables that map the first \<open>n\<close> pages: one per level above the last, two below
  the root's child at most, and one table of the last level per 512 pages.\<close>

definition direct_tables :: "nat \<Rightarrow> nat list set" where
  "direct_tables n = {[], [511], [511, 510], [511, 511]} \<union>
     (\<lambda>t. [511, 510 + t div 512, t mod 512]) ` {..<(n + 511) div 512}"

lemma direct_tables_card: "finite (direct_tables n)" "card (direct_tables n) \<le> 4 + (n + 511) div 512"
proof -
  show "finite (direct_tables n)" by (simp add: direct_tables_def)
  let ?A = "{[], [511], [511, 510], [511, 511 :: nat]}"
  let ?B = "(\<lambda>t. [511, 510 + t div 512, t mod 512 :: nat]) ` {..<(n + 511) div 512}"
  have "card ?B \<le> card {..<(n + 511) div 512}" by (rule card_image_le) simp
  moreover have "card ?A = 4" by simp
  moreover have "card (?A \<union> ?B) \<le> card ?A + card ?B" by (rule card_Un_le)
  ultimately show "card (direct_tables n) \<le> 4 + (n + 511) div 512"
    unfolding direct_tables_def card_lessThan by linarith
qed

lemma direct_tables_paths:
  assumes "k < n" "n \<le> 2 ^ 19"
  shows "take 1 (direct_path (4096 * k)) \<in> direct_tables n" "take 2 (direct_path (4096 * k)) \<in> direct_tables n"
    "take 3 (direct_path (4096 * k)) \<in> direct_tables n"
proof -
  have k: "k < 2 ^ 19" using assms by simp
  have "4096 * k div (4096 * 2 ^ 18) = k div 2 ^ 18" "4096 * k div (4096 * 512) = k div 512"
    by (rule div_mult_mult1, simp)+
  then have idx: "4096 * k div 2 ^ 30 = k div 2 ^ 18" "4096 * k div 2 ^ 21 = k div 512" by simp_all
  have "k div 2 ^ 18 < 2" using k by (simp add: div_less_iff_less_mult)
  then have "k div 2 ^ 18 = 0 \<or> k div 2 ^ 18 = 1" by auto
  then show "take 1 (direct_path (4096 * k)) \<in> direct_tables n" "take 2 (direct_path (4096 * k)) \<in> direct_tables n"
    by (auto simp: direct_path_def direct_tables_def idx)
  have "k div 512 < (n + 511) div 512" using assms(1) by (simp add: less_eq_div_iff_mult_less_eq Suc_le_eq [symmetric]) 
  moreover have "k div 2 ^ 18 = k div 512 div 512" by (simp add: div_mult2_eq [symmetric])
  ultimately show "take 3 (direct_path (4096 * k)) \<in> direct_tables n"
    by (auto simp: direct_path_def direct_tables_def idx)
qed

text \<open>The leaves after the first \<open>n\<close> pages have been mapped.\<close>

primrec direct_leaves :: "nat \<Rightarrow> nat list \<Rightarrow> u64" where
  "direct_leaves 0 = (\<lambda>_. 0)"
| "direct_leaves (Suc n) = (direct_leaves n)(direct_path (4096 * n) := entry_word (of_nat (4096 * n)) False)"

lemma direct_leaves_path: "k < n \<Longrightarrow> direct_leaves n (direct_path (4096 * k)) = entry_word (of_nat (4096 * k)) False"
proof (induction n)
  case (Suc n)
  then show ?case using direct_path_inj [of "4096 * k" "4096 * n"] by (cases "k = n") auto
qed simp

lemma direct_leaves_translate:
  assumes tree: "table_tree m pool nodes (direct_leaves n)" "nodes [] = Some r" and n: "n \<le> 2 ^ 19" and a: "a < 4096 * n"
  shows "translate m (k_vtop (page_at pool r)) (k_ptov (of_nat a)) = Some (of_nat a)"
proof -
  define k where "k = a div 4096"
  have lt: "a < 2 ^ 31" "k < n" "4096 * k < 2 ^ 31" using a n by (auto simp: k_def div_less_iff_less_mult mult.commute)
  have "direct_path a = direct_path (4096 * k)" unfolding k_def by (rule direct_path_page)
  then have "direct_leaves n (path (k_ptov (of_nat a))) = entry_word (of_nat (4096 * k)) False"
    using direct_leaves_path [OF lt(2)] path_k_ptov [OF lt(1)] by simp
  moreover have "entry_target (entry_word (of_nat (4096 * k)) False) = Some (of_nat (4096 * k))"
  proof -
    have u: "unat (of_nat (4096 * k) :: u64) = 4096 * k" using lt by (intro unat_of_nat_u64) simp
    then have "4096 dvd unat (of_nat (4096 * k) :: u64)" "unat (of_nat (4096 * k) :: u64) < 2 ^ 51"
      using lt by (simp_all only: dvd_triv_left) simp
    then show ?thesis using entry_target_word page_aligned by (simp only:)
  qed
  moreover have "of_nat (4096 * k) + of_nat (a mod 4096) = (of_nat a :: u64)"
    by (simp add: k_def of_nat_add [symmetric] del: of_nat_add of_nat_mult)
  ultimately show ?thesis
    using translate_tree [OF tree, of "k_ptov (of_nat a)"] offset_k_ptov [OF lt(1)] by simp
qed

text \<open>Nothing in the lower half is mapped: its first index is below 256, that of the direct map is 511.\<close>

lemma direct_leaves_other: "hd q \<noteq> 511 \<Longrightarrow> direct_leaves n q = 0"
  by (induction n) (auto simp: direct_path_def)

text \<open>The top 2 GB beyond the direct map are not mapped.\<close>

lemma direct_leaves_unmapped: "n \<le> k \<Longrightarrow> direct_leaves n (direct_path (4096 * k)) = 0"
proof (induction n)
  case (Suc n)
  then show ?case using direct_path_inj [of "4096 * k" "4096 * n"] by auto
qed simp

lemma direct_leaves_beyond:
  assumes "table_tree m pool nodes (direct_leaves n)" "nodes [] = Some r" "4096 * n \<le> a" "a < 2 ^ 31"
  shows "translate m (k_vtop (page_at pool r)) (k_ptov (of_nat a)) = None"
proof -
  have "n \<le> a div 4096" using assms(3) by (simp add: less_eq_div_iff_mult_less_eq mult.commute)
  then have "direct_leaves n (path (k_ptov (of_nat a))) = 0"
    using direct_leaves_unmapped direct_path_page [of a] path_k_ptov [OF assms(4)] by simp
  then show ?thesis using translate_tree [OF assms(1,2), of "k_ptov (of_nat a)"] by simp
qed

lemma direct_leaves_low:
  assumes "table_tree m pool nodes (direct_leaves n)" "nodes [] = Some r" "unat v < 2 ^ 47"
  shows "translate m (k_vtop (page_at pool r)) v = None"
proof -
  have "unat v div 2 ^ 39 < 256" using assms(3) by (simp add: div_less_iff_less_mult)
  then have "unat v div 2 ^ 39 mod 512 \<noteq> 511" by simp
  then have "hd (path v) \<noteq> 511" unfolding path_def GET_PML4_OFS_def list.map list.sel unat_index .
  then show ?thesis using translate_tree [OF assms(1,2), of v] by (simp add: direct_leaves_other)
qed

lemma map_pages_loop:
  assumes "page_tables s nodes (direct_leaves 0)" "enough_pages l s nodes (direct_tables n)" "n \<le> 2 ^ 19" "k \<le> n"
  shows "\<exists>m' nodes'. foldR (\<lambda>page s. let phys_addr = of_nat page * PAGE_SIZE; virt_addr = k_ptov phys_addr
      in paging_map_page virt_addr phys_addr s) [0..<k] s = Inr (s\<lparr>pg_mem := m'\<rparr>) \<and>
    page_tables (s\<lparr>pg_mem := m'\<rparr>) nodes' (direct_leaves k) \<and> enough_pages l (s\<lparr>pg_mem := m'\<rparr>) nodes' (direct_tables n) \<and>
    kept_above l (kernel_pool s) (pg_mem s) m'"
  using assms(4)
proof (induction k)
  case 0
  then show ?case using assms(1,2) by (intro exI [of _ "pg_mem s"] exI [of _ nodes]) (simp add: kept_above_refl)
next
  case (Suc k)
  let ?f = "\<lambda>page s. let phys_addr = of_nat page * PAGE_SIZE; virt_addr = k_ptov phys_addr
      in paging_map_page virt_addr phys_addr s"
  obtain m1 n1 where 1: "foldR ?f [0..<k] s = Inr (s\<lparr>pg_mem := m1\<rparr>)"
    "page_tables (s\<lparr>pg_mem := m1\<rparr>) n1 (direct_leaves k)" "enough_pages l (s\<lparr>pg_mem := m1\<rparr>) n1 (direct_tables n)"
    "kept_above l (kernel_pool s) (pg_mem s) m1"
    using Suc by auto
  have "4096 * k < 2 ^ 31" using Suc.prems assms(3) by simp
  then have path: "path (k_ptov (of_nat (4096 * k))) = direct_path (4096 * k)" by (rule path_k_ptov)
  obtain m2 n2 where 2: "paging_map_page (k_ptov (of_nat (4096 * k))) (of_nat (4096 * k)) (s\<lparr>pg_mem := m1\<rparr>) = Inr (s\<lparr>pg_mem := m2\<rparr>)"
    "page_tables (s\<lparr>pg_mem := m2\<rparr>) n2 (direct_leaves (Suc k))" "enough_pages l (s\<lparr>pg_mem := m2\<rparr>) n2 (direct_tables n)"
    "kept_above l (kernel_pool s) m1 m2"
    using paging_map_page_maps [OF 1(2,3), of "k_ptov (of_nat (4096 * k))" "of_nat (4096 * k)"]
      direct_tables_paths [of k n] Suc.prems assms(3) unfolding path direct_leaves.simps by auto
  have "?f k (s\<lparr>pg_mem := m1\<rparr>) = Inr (s\<lparr>pg_mem := m2\<rparr>)" using 2(1) by (simp add: mult.commute)
  then have "foldR ?f [0..<Suc k] s = Inr (s\<lparr>pg_mem := m2\<rparr>)"
    using 1(1) foldR_upt_Suc [of 0 k ?f s] by (simp only: zero_le bindR_simps)
  then show ?case using 2(2-4) 1(4) kept_above_trans by blast
qed

lemma first_table:
  assumes "pool_ok m pool" "high_pool pool" "pages_given PALLOC_ZERO pool r 1 m m1" "pool_ok m1 pool"
  shows "table_tree m1 pool [[] \<mapsto> r] (\<lambda>_. 0)"
proof -
  have "table_tree m pool Map.empty (\<lambda>_. 0)" using assms(1,2) by (simp add: table_tree_def)
  note new = tree_alloc_page [OF this assms(3,4)]
  show ?thesis unfolding table_tree_def using assms(2,4) new(3-6) by auto
qed

text \<open>The root is the least free page, and the tables lie below any limit that leaves room for them.\<close>

lemma page_tables_init_maps:
  assumes "pool_ok (pg_mem s) (kernel_pool s)" "high_pool (kernel_pool s)"
    "pool_pages_total s \<le> 2 ^ 19" "4 + (unat (pool_pages_total s) + 511) div 512 \<le> free_below l (pg_mem s) (kernel_pool s)"
  shows "\<exists>r m nodes. page_tables_init s =
      Inr (s\<lparr>pg_mem := m, init_pml4 := page_at (kernel_pool s) r, cr3 := k_vtop (page_at (kernel_pool s) r)\<rparr>) \<and>
    nodes [] = Some r \<and> table_tree m (kernel_pool s) nodes (direct_leaves (unat (pool_pages_total s))) \<and>
    \<not> taken (pg_mem s) (kernel_pool s) r \<and> (\<forall>j < r. taken (pg_mem s) (kernel_pool s) j) \<and>
    (\<forall>p i. nodes p = Some i \<longrightarrow> i < l) \<and> kept_above l (kernel_pool s) (pg_mem s) m"
proof -
  let ?pool = "kernel_pool s"
  let ?n = "unat (pool_pages_total s)"
  obtain r m1 where page: "paging_get_page PALLOC_ZERO s = Inr (page_at ?pool r, s\<lparr>pg_mem := m1\<rparr>)"
    and given: "pages_given PALLOC_ZERO ?pool r 1 (pg_mem s) m1" "pool_ok m1 ?pool" and r: "r < l"
    using get_page_free [OF assms(1), of l] assms(4) by auto
  let ?s1 = "s\<lparr>pg_mem := m1, init_pml4 := page_at ?pool r\<rparr>"
  have tree: "table_tree m1 ?pool [[] \<mapsto> r] (\<lambda>_. 0)" using first_table [OF assms(1,2) given] .
  then have tables: "page_tables ?s1 [[] \<mapsto> r] (direct_leaves 0)" by (simp add: page_tables_def)
  have n: "?n \<le> 2 ^ 19" using assms(3) by (simp add: word_le_nat_alt)
  have enough: "enough_pages l ?s1 [[] \<mapsto> r] (direct_tables ?n)"
    using assms(4) direct_tables_card [of ?n] free_below_given [OF given(1) r] r
    by (auto simp: enough_pages_def direct_tables_def)
  obtain m2 nodes where loop: "foldR (\<lambda>page s. let phys_addr = of_nat page * PAGE_SIZE; virt_addr = k_ptov phys_addr
      in paging_map_page virt_addr phys_addr s) [0..<?n] ?s1 = Inr (?s1\<lparr>pg_mem := m2\<rparr>)"
    "page_tables (?s1\<lparr>pg_mem := m2\<rparr>) nodes (direct_leaves ?n)" "enough_pages l (?s1\<lparr>pg_mem := m2\<rparr>) nodes (direct_tables ?n)"
    "kept_above l ?pool m1 m2"
    using map_pages_loop [OF tables enough n order_refl] by auto
  have tree2: "table_tree m2 ?pool nodes (direct_leaves ?n)" using loop(2) by (simp add: page_tables_def)
  obtain r' where r': "nodes [] = Some r'" "page_at ?pool r = page_at ?pool r'"
    using loop(2) by (auto simp: page_tables_def)
  have "r < pages ?pool" "r' < pages ?pool"
    using given(1) table_treeD(4) [OF tree2 r'(1)] by (simp_all add: pages_given_def)
  then have "r = r'" using r'(2) page_at_unat [OF assms(1)] by (metis add_left_cancel mult_left_cancel zero_neq_numeral)
  moreover have "page_tables_init s = Inr (s\<lparr>pg_mem := m2, init_pml4 := page_at ?pool r, cr3 := k_vtop (page_at ?pool r)\<rparr>)"
    using loop(1) page by (simp add: page_tables_init_def)
  moreover have "\<not> taken (pg_mem s) ?pool r" using given(1) by (simp add: pages_given_def)
  moreover have "taken (pg_mem s) ?pool j" if "j < r" for j
    using given_least [OF given(1), of j] that by (meson linorder_not_less)
  moreover have "\<forall>p i. nodes p = Some i \<longrightarrow> i < l" using loop(3) by (simp add: enough_pages_def)
  moreover have "kept_above l ?pool (pg_mem s) m2" using given_kept [OF given(1) r] loop(4) by (rule kept_above_trans)
  ultimately show ?thesis using r'(1) tree2 by blast
qed

section \<open>Properties\<close>

text \<open>A pool of sixteen pages at 2 MB whose bitmap sits in its own first page, which is taken.\<close>

definition sample_pool :: pool_t where
  "sample_pool = \<lparr>allocated_bmp = \<lparr>bmp_buf = 0xFFFFFFFF80200000, bmp_size = 16\<rparr>,
     pinned_bmp = \<lparr>bmp_buf = 0xFFFFFFFF80200002, bmp_size = 16\<rparr>,
     md_base = 0xFFFFFFFF80200000, page_base = 0xFFFFFFFF80200000\<rparr>"

definition sample_paging :: paging where
  "sample_paging = (cold_paging ((\<lambda>_. 0)(0xFFFFFFFF80200000 := 1)))
     \<lparr>kernel_pool := sample_pool, pool_pages_total := 1024\<rparr>"

lemma sample_paging_simps:
  "kernel_pool sample_paging = sample_pool" "pool_pages_total sample_paging = 1024"
  "pg_mem sample_paging = (\<lambda>_. 0)(0xFFFFFFFF80200000 := 1)" "pages sample_pool = 16"
  by (simp_all add: sample_paging_def sample_pool_def)

lemma sample_taken: "i < 16 \<Longrightarrow> taken (pg_mem sample_paging) sample_pool i \<longleftrightarrow> i = 0"
proof -
  assume "i < 16"
  then have "i div 8 = 0 \<and> i < 8 \<or> i div 8 = 1 \<and> i \<noteq> 0" by presburger
  then show ?thesis by (auto simp: bmp_bit_def sample_paging_simps sample_pool_def bit_1_iff)
qed

lemma sample_pool_ok: "pool_ok (pg_mem sample_paging) sample_pool" "high_pool sample_pool"
proof -
  have "taken (pg_mem sample_paging) sample_pool (page_no sample_pool x)" if "in_bitmap sample_pool x" for x
  proof -
    have "page_no sample_pool x = 0" using that by (simp add: in_bitmap_def page_no_def sample_pool_def bmp_extent_def)
    then show ?thesis using sample_taken [of 0] by simp
  qed
  then show "pool_ok (pg_mem sample_paging) sample_pool" by (auto simp: pool_ok_def sample_pool_def)
  show "high_pool sample_pool" by (simp add: high_pool_def sample_pool_def)
qed

lemma sample_free_pages: "free_pages (pg_mem sample_paging) sample_pool = 15"
proof -
  have "{i. i < pages sample_pool \<and> \<not> taken (pg_mem sample_paging) sample_pool i} = {1..<16}"
    using sample_taken by (auto simp: sample_paging_simps(4))
  then show ?thesis by (simp add: free_pages_def)
qed

text \<open>C11: with three pages left for new tables, \<^verbatim>\<open>paging_map_page\<close> returns with sound tables in which
  the page of the address leads to the given frame and every other page to what it led to before.\<close>

theorem paging_map_page_translates:
  assumes "page_tables s nodes leaves" "3 \<le> free_pages (pg_mem s) (kernel_pool s)" "unat phys < 2 ^ 51"
  shows "\<exists>s' nodes' leaves'. paging_map_page v phys s = Inr s' \<and> page_tables s' nodes' leaves' \<and>
    translate (pg_mem s') (k_vtop (init_pml4 s')) v = Some ((phys AND NOT 0xFFF) + GET_OFS v) \<and>
    (\<forall>w. path w \<noteq> path v \<longrightarrow>
       translate (pg_mem s') (k_vtop (init_pml4 s')) w = translate (pg_mem s) (k_vtop (init_pml4 s)) w)"
proof -
  let ?P = "{take 1 (path v), take 2 (path v), take 3 (path v)}"
  have tree: "table_tree (pg_mem s) (kernel_pool s) nodes leaves" using assms(1) by (simp add: page_tables_def)
  have "card ?P \<le> 3" by (auto simp: card_insert_if)
  then have "card (dom nodes \<union> ?P) \<le> 3 + card (dom nodes)" using card_Un_le [of "dom nodes" ?P] by simp
  then have "enough_pages (pages (kernel_pool s)) s nodes (dom nodes \<union> ?P)"
    using assms(2) finite_nodes [OF tree] table_treeD(4) [OF tree] by (auto simp: enough_pages_def free_below_all)
  then obtain m' nodes' where map: "paging_map_page v phys s = Inr (s\<lparr>pg_mem := m'\<rparr>)"
    and tables: "page_tables (s\<lparr>pg_mem := m'\<rparr>) nodes' (leaves(path v := entry_word phys False))"
    using paging_map_page_maps [OF assms(1)] by (metis UnI2 insertCI)
  have "translate (pg_mem s) (k_vtop (init_pml4 s)) w =
      (case entry_target (leaves (path w)) of None \<Rightarrow> None | Some a \<Rightarrow> Some (a + GET_OFS w))" for w
    using assms(1) translate_tree by (auto simp: page_tables_def)
  moreover have "translate m' (k_vtop (init_pml4 s)) w = (case entry_target ((leaves(path v := entry_word phys False)) (path w))
      of None \<Rightarrow> None | Some a \<Rightarrow> Some (a + GET_OFS w))" for w
    using tables translate_tree by (auto simp: page_tables_def)
  ultimately show ?thesis using map tables entry_target_word [OF assms(3), of False]
    by (intro exI [of _ "s\<lparr>pg_mem := m'\<rparr>"] exI) auto
qed

theorem paging_map_page_translates_witness:
  "\<exists>s s'. paging_map_page 0x400123 0x5000 s = Inr s' \<and>
     translate (pg_mem s') (k_vtop (init_pml4 s')) 0x400123 = Some 0x5123"
proof -
  let ?s = sample_paging
  have ok: "pool_ok (pg_mem ?s) (kernel_pool ?s)" "high_pool (kernel_pool ?s)" "free_pages (pg_mem ?s) (kernel_pool ?s) = 15"
    using sample_pool_ok sample_free_pages by (simp_all add: sample_paging_simps(1))
  obtain r m1 where given: "pages_given PALLOC_ZERO (kernel_pool ?s) r 1 (pg_mem ?s) m1" "pool_ok m1 (kernel_pool ?s)"
    using get_page_free [OF ok(1), of "pages (kernel_pool ?s)"] ok(3) by (auto simp: free_below_all)
  let ?s1 = "?s\<lparr>pg_mem := m1, init_pml4 := page_at (kernel_pool ?s) r\<rparr>"
  have "page_tables ?s1 [[] \<mapsto> r] (\<lambda>_. 0)" using first_table [OF ok(1,2) given] by (simp add: page_tables_def)
  moreover have "r < pages (kernel_pool ?s)" using given(1) by (simp add: pages_given_def)
  then have "3 \<le> free_pages (pg_mem ?s1) (kernel_pool ?s1)"
    using ok(3) free_below_given [OF given(1), of "pages (kernel_pool ?s)"] by (simp add: free_below_all)
  moreover have "unat (0x5000 :: u64) < 2 ^ 51" by simp
  ultimately obtain s' where "paging_map_page 0x400123 0x5000 ?s1 = Inr s'"
    "translate (pg_mem s') (k_vtop (init_pml4 s')) 0x400123 = Some ((0x5000 AND NOT 0xFFF) + GET_OFS 0x400123)"
    using paging_map_page_translates by blast
  moreover have "(0x5000 AND NOT 0xFFF) + GET_OFS 0x400123 = 0x5123" by (simp add: GET_OFS_def)
  ultimately show ?thesis by metis
qed

text \<open>A series of requests for pages, and the runs of pages handed out.\<close>

fun get_many :: "(u64 \<times> u8) list \<Rightarrow> paging \<Rightarrow> ((addr \<times> u64) list \<times> paging) outcome" where
  "get_many [] s = Inr ([], s)"
| "get_many ((n, flags) # reqs) s =
     bindR (paging_get_pages n flags s) (\<lambda>(p, s).
     bindR (get_many reqs s) (\<lambda>(ps, s).
     Inr (if p = NULL then ps else (p, n) # ps, s)))"

definition disjoint_runs :: "addr \<times> u64 \<Rightarrow> addr \<times> u64 \<Rightarrow> bool" where
  "disjoint_runs r q \<longleftrightarrow>
     (\<forall>x. \<not> (unat (x - fst r) < 4096 * unat (snd r) \<and> unat (x - fst q) < 4096 * unat (snd q)))"

definition clear_run :: "memory \<Rightarrow> pool_t \<Rightarrow> addr \<times> u64 \<Rightarrow> bool" where
  "clear_run m pool r \<longleftrightarrow> (\<exists>c. fst r = page_at pool c \<and> c + unat (snd r) \<le> pages pool \<and>
     (\<forall>j. c \<le> j \<and> j < c + unat (snd r) \<longrightarrow> \<not> taken m pool j))"

lemma page_at_not_NULL: "pool_ok m pool \<Longrightarrow> i < pages pool \<Longrightarrow> page_at pool i \<noteq> NULL"
  using page_at_unat [of m pool i] by (metis add_is_0 not_less0 pool_ok_def unat_0)

text \<open>A run handed out is disjoint from any that is clear afterwards.\<close>

lemma given_disjoint:
  assumes "pages_given flags pool c (unat n) m m'" "pool_ok m pool" "clear_run m' pool q"
  shows "disjoint_runs (page_at pool c, n) q" "clear_run m pool q"
proof -
  obtain d where d: "fst q = page_at pool d" "d + unat (snd q) \<le> pages pool"
    "\<forall>j. d \<le> j \<and> j < d + unat (snd q) \<longrightarrow> \<not> taken m' pool j"
    using assms(3) by (auto simp: clear_run_def)
  note given = assms(1) [unfolded pages_given_def]
  show "clear_run m pool q" unfolding clear_run_def using d given by (intro exI [of _ d]) auto
  have fits: "4096 * (i + k) \<le> 2 ^ 64" if "i + k \<le> pages pool" for i k
    using that assms(2) by (simp add: pool_ok_def)
  show "disjoint_runs (page_at pool c, n) q"
    unfolding disjoint_runs_def fst_conv snd_conv d(1)
    using d(2,3) given in_pages_iff [OF fits] by (metis less_le_trans)
qed

lemma given_clear: "pages_given flags pool c (unat n) m m' \<Longrightarrow> clear_run m pool (page_at pool c, n)"
  by (auto simp: pages_given_def clear_run_def)

lemma pool_of_mem [simp]: "pool_of flags (s\<lparr>pg_mem := m\<rparr>) = pool_of flags s"
  by (simp add: pool_of_def)

text \<open>The lengths the assertions of the bitmap let through; the others stop the kernel.\<close>

definition good_request :: "pool_t \<Rightarrow> u64 \<times> u8 \<Rightarrow> bool" where
  "good_request pool r \<longleftrightarrow> fst r \<noteq> 0 \<and> unat (fst r) \<le> pages pool"

lemma paging_get_pages_hangs: "\<not> good_request (pool_of flags s) (n, flags) \<Longrightarrow> paging_get_pages n flags s = Inl Assertion_hang"
  using bitmap_runs.alloc_hangs [of n "allocated_bmp (pool_of flags s)" "pg_mem s"]
  by (auto simp: paging_get_pages_alloc good_request_def)

lemma get_many_disjoint:
  assumes "pool_ok (pg_mem s) pool" "\<forall>r \<in> set reqs. pool_of (snd r) s = pool"
  shows "if list_all (good_request pool) reqs
    then \<exists>runs m'. get_many reqs s = Inr (runs, s\<lparr>pg_mem := m'\<rparr>) \<and> pool_ok m' pool \<and>
      sorted_wrt disjoint_runs runs \<and> list_all (clear_run (pg_mem s) pool) runs
    else get_many reqs s = Inl Assertion_hang"
  using assms
proof (induction reqs arbitrary: s)
  case Nil
  then show ?case by (auto intro: exI [of _ "pg_mem s"])
next
  case (Cons r reqs)
  obtain n flags where r: "r = (n, flags)" by fastforce
  have pool: "pool_of flags s = pool" and rest: "\<forall>r \<in> set reqs. pool_of (snd r) s = pool" using Cons.prems(2) by (simp_all add: r)
  show ?case
  proof (cases "good_request pool r")
    case False
    then show ?thesis using paging_get_pages_hangs [of flags s n] by (simp add: r pool)
  next
    case True
    then have req: "n \<noteq> 0" "unat n \<le> pages pool" by (simp_all add: r good_request_def)
    consider c m1 where "paging_get_pages n flags s = Inr (page_at pool c, s\<lparr>pg_mem := m1\<rparr>)"
        "pages_given flags pool c (unat n) (pg_mem s) m1" "pool_ok m1 pool"
      | "paging_get_pages n flags s = Inr (NULL, s)"
      using paging_get_pages_cases [of s flags n] Cons.prems(1) req unfolding pool by auto
    then show ?thesis
    proof cases
      case 1
      have "c < pages pool" using 1(2) req by (auto simp: pages_given_def unat_gt_0 [symmetric])
      then have "page_at pool c \<noteq> NULL" using page_at_not_NULL Cons.prems(1) by blast
      then have step: "get_many (r # reqs) s = bindR (get_many reqs (s\<lparr>pg_mem := m1\<rparr>)) (\<lambda>(ps, s). Inr ((page_at pool c, n) # ps, s))"
        using 1(1) by (simp add: r)
      have "list_all (clear_run m1 pool) runs \<Longrightarrow> \<forall>q \<in> set runs. disjoint_runs (page_at pool c, n) q \<and> clear_run (pg_mem s) pool q" for runs
        using given_disjoint [OF 1(2) Cons.prems(1)] by (auto simp: list_all_iff)
      then show ?thesis
        using Cons.IH [of "s\<lparr>pg_mem := m1\<rparr>"] 1(3) rest True given_clear [OF 1(2)] unfolding step
        by (fastforce simp: list_all_iff split: if_splits)
    next
      case 2
      then show ?thesis using Cons.IH [OF Cons.prems(1) rest] True by (auto simp: r split: if_splits)
    qed
  qed
qed



end
