(* ===== verification/Poolinit.thy ===== *)
theory Poolinit
  imports Pagetables
begin

text \<open>
  Setting up the page pools (\<^verbatim>\<open>memory_pool_init\<close>) and all of \<^verbatim>\<open>paging_init\<close>: the pools the
  code builds are sound in the sense of the page allocator, so the page tables come out as the direct
  map. The hypotheses are on the boot information and on the size of memory.
\<close>

section \<open>Rounding\<close>

lemma unat_and_not_mask: "unat (x AND NOT (mask k) :: u64) = unat x - unat x mod 2 ^ k"
proof -
  have "x AND NOT (mask k) = push_bit k (drop_bit k x)"
    by (rule bit_word_eqI) (auto simp: bit_simps)
  then have sum: "(x AND NOT (mask k)) + take_bit k x = x" by (simp add: bits_ident)
  then have "x AND NOT (mask k) = x - take_bit k x" by (simp add: eq_diff_eq)
  moreover have u: "unat (take_bit k x) = unat x mod 2 ^ k" unfolding unsigned_take_bit_eq by (rule take_bit_eq_mod)
  moreover have "take_bit k x \<le> x" by (simp add: word_le_nat_alt u)
  ultimately show ?thesis by (simp add: unat_sub)
qed

lemma unat_round_up:
  assumes "unat x + 2 ^ k \<le> 2 ^ 64" "k < 64"
  shows "unat (ROUND_UP_TO x (2 ^ k)) = (unat x + 2 ^ k - 1) div 2 ^ k * 2 ^ k"
proof -
  have m: "(2 :: u64) ^ k - 1 = mask k" by (simp add: mask_eq_exp_minus_1)
  have "(2 :: nat) ^ k < 2 ^ 64" using assms(2) by (intro power_strict_increasing) simp_all
  then have "unat (of_nat (2 ^ k) :: u64) = 2 ^ k" by (rule unat_of_nat_u64)
  then have "unat (2 ^ k :: u64) = 2 ^ k" by simp
  then have "unat (mask k :: u64) = 2 ^ k - 1" unfolding m [symmetric] by (subst unat_minus_one) (use assms(2) in auto)
  moreover have "(0 :: nat) < 2 ^ k" by simp
  ultimately have "unat (x + mask k) = unat x + 2 ^ k - 1" using assms(1) by (simp add: unat_word_ariths)
  then show ?thesis unfolding ROUND_UP_TO_def m unat_and_not_mask by (simp add: minus_mod_eq_div_mult)
qed

text \<open>Bytes of a bitmap for \<open>n\<close> pages, and pages of both bitmaps of a pool.\<close>

lemma word_of_unat: "unat (x :: u64) = k \<Longrightarrow> x = of_nat k"
  by auto

lemma unat_mult_2: "2 * unat x < 2 ^ 64 \<Longrightarrow> unat (2 * x :: u64) = 2 * unat x"
  by (simp add: unat_word_ariths)

definition bitmap_bytes :: "nat \<Rightarrow> nat" where
  "bitmap_bytes n = (n + 7) div 8"

definition meta_pages :: "nat \<Rightarrow> nat" where
  "meta_pages n = (2 * bitmap_bytes n + 4095) div 4096"

lemma bitmap_bytes_word:
  assumes "unat n \<le> 2 ^ 18"
  shows "unat (ROUND_UP_TO n 8 div 8) = bitmap_bytes (unat n)"
    and "unat (ROUND_UP_TO (2 * (ROUND_UP_TO n 8 div 8)) 4096 div 4096) = meta_pages (unat n)"
proof -
  show bytes: "unat (ROUND_UP_TO n 8 div 8) = bitmap_bytes (unat n)"
    using unat_round_up [of n 3] assms by (simp add: unat_div bitmap_bytes_def)
  have "bitmap_bytes (unat n) \<le> 2 ^ 16" using assms by (simp add: bitmap_bytes_def)
  then have u: "unat (2 * (ROUND_UP_TO n 8 div 8)) = 2 * bitmap_bytes (unat n)" "bitmap_bytes (unat n) \<le> 2 ^ 16"
    using unat_mult_2 [of "ROUND_UP_TO n 8 div 8"] unfolding bytes by simp_all
  then show "unat (ROUND_UP_TO (2 * (ROUND_UP_TO n 8 div 8)) 4096 div 4096) = meta_pages (unat n)"
    using unat_round_up [of "2 * (ROUND_UP_TO n 8 div 8)" 12] by (simp add: unat_div meta_pages_def)
qed

lemma meta_pages_bounds:
  assumes "0 < n" "n \<le> 2 ^ 18"
  shows "meta_pages n \<le> n" "meta_pages n \<le> 16" "2 * bitmap_bytes n \<le> 4096 * meta_pages n" "0 < bitmap_bytes n"
proof -
  define e where "e = (n + 7) div 8"
  have e: "0 < e" "e \<le> 2 ^ 15" "e \<le> n"
  proof -
    show "e \<le> 2 ^ 15" unfolding e_def by (rule div_le_mono [of _ "2 ^ 18 + 7" 8, THEN order_trans]) (use assms in simp_all)
  qed (use assms in \<open>auto simp: e_def\<close>)
  define d where "d = (2 * e + 4095) div 4096"
  have "d \<le> (2 * 2 ^ 15 + 4095) div 4096" unfolding d_def using e(2) by (intro div_le_mono) simp
  then show "meta_pages n \<le> 16" by (simp add: meta_pages_def bitmap_bytes_def e_def d_def)
  have "2 * e + 4095 < 4096 * d + 4096" using div_mult_mod_eq [of "2 * e + 4095" 4096] mod_less_divisor [of 4096 "2 * e + 4095"]
    unfolding d_def by linarith
  then show "2 * bitmap_bytes n \<le> 4096 * meta_pages n" by (simp add: meta_pages_def bitmap_bytes_def e_def d_def)
  have "4096 * d \<le> 2 * e + 4095" unfolding d_def by simp
  then have "d \<le> n" using e by linarith
  then show "meta_pages n \<le> n" by (simp add: meta_pages_def bitmap_bytes_def e_def d_def)
  show "0 < bitmap_bytes n" using e(1) by (simp add: bitmap_bytes_def e_def)
qed

lemma bmp_extent_bytes: "bmp_extent bmp \<le> bitmap_bytes (unat (bmp_size bmp)) + 7"
  unfolding bmp_extent_def bitmap_bytes_def by linarith

lemma bmp_bit_cong_bytes:
  assumes "\<And>x. unat (x - bmp_buf bmp) < bitmap_bytes (unat (bmp_size bmp)) \<Longrightarrow> m x = m' x" "i < unat (bmp_size bmp)"
  shows "bmp_bit m bmp i = bmp_bit m' bmp i"
proof -
  have "i div 8 < bitmap_bytes (unat (bmp_size bmp))" using assms(2) by (auto simp: bitmap_bytes_def)
  moreover have "i div 8 < 2 ^ 64" using assms(2) unat_u64_less [of "bmp_size bmp"] by simp
  ultimately have "m (bmp_buf bmp + of_nat (i div 8)) = m' (bmp_buf bmp + of_nat (i div 8))"
    by (intro assms(1)) (simp add: unat_of_nat_u64)
  then show ?thesis by (simp add: bmp_bit_def)
qed

section \<open>Marking pages\<close>

text \<open>Setting one of the low bits, where \<^verbatim>\<open>bitmap_set\<close> is defined.\<close>

lemma bitmap_set_low:
  assumes "i < 31" "i < unat (bmp_size bmp)"
  shows "\<exists>m'. bitmap_set m bmp (of_nat i) True = Inr m' \<and>
    (\<forall>j < 2 ^ 64. bmp_bit m' bmp j \<longleftrightarrow> j = i \<or> bmp_bit m bmp j) \<and>
    (\<forall>x. \<not> unat (x - bmp_buf bmp) < 8 \<longrightarrow> m' x = m x)"
proof -
  have u: "unat (of_nat i :: u64) = i" using assms(1) by (intro unat_of_nat_u64) simp
  have lt: "of_nat i < bmp_size bmp" using assms(2) by (simp add: word_less_nat_alt u)
  have low: "unat (of_nat i :: u64) mod 64 < 32" using assms(1) by (simp add: u)
  have "drop_bit 6 (of_nat i :: u64) = 0" using assms(1) u unat_drop_bit_6 [of "of_nat i"] by (simp add: unat_eq_0 [symmetric])
  then have word: "bmp_word bmp (drop_bit 6 (of_nat i)) = bmp_buf bmp" by (simp add: bmp_word_def)
  obtain m' where m': "bitmap_set m bmp (of_nat i) True = Inr m'"
    "m' = (let m = store64 m (bmp_buf bmp) (load64 m (bmp_buf bmp) AND NOT (push_bit (unat (of_nat i :: u64) mod 64) 1))
      in store64 m (bmp_buf bmp) (load64 m (bmp_buf bmp) OR scast (push_bit (unat (of_nat i :: u64) mod 64) (of_bool True :: u32))))"
    using bitmap_set_eq [OF lt low, of m True] by (simp add: Let_def word)
  have "bmp_bit m' bmp j \<longleftrightarrow> j = i \<or> bmp_bit m bmp j" if "j < 2 ^ 64" for j
    using bitmap_set_bits [OF lt low m'(1) that] assms(1) by (auto simp: u)
  moreover have "m' x = m x" if "\<not> unat (x - bmp_buf bmp) < 8" for x
    using that by (simp add: m'(2) Let_def store64_def store_le_outside)
  ultimately show ?thesis using m'(1) by blast
qed

text \<open>The layout of a new pool: the second bitmap follows the bytes of the first.\<close>

definition pool_layout :: "pool_t \<Rightarrow> addr \<Rightarrow> nat \<Rightarrow> bool" where
  "pool_layout pool b0 n \<longleftrightarrow>
     allocated_bmp pool = \<lparr>bmp_buf = b0, bmp_size = of_nat n\<rparr> \<and>
     pinned_bmp pool = \<lparr>bmp_buf = b0 + of_nat (bitmap_bytes n), bmp_size = of_nat n\<rparr> \<and> md_base pool = b0 \<and>
     0 < n \<and> n \<le> 2 ^ 18 \<and> 0 < unat b0 \<and> unat b0 + 2 * bitmap_bytes n + 8 \<le> 2 ^ 64"

lemma mark_page_low:
  assumes "pool_layout pool b0 n" "i < 31" "i < n"
  shows "\<exists>m'. mark_page pool (of_nat i) m = Inr m' \<and> (\<forall>j < n. taken m' pool j \<longleftrightarrow> j = i \<or> taken m pool j) \<and>
    (\<forall>x. 2 * bitmap_bytes n + 8 \<le> unat (x - b0) \<longrightarrow> m' x = m x)"
proof -
  let ?e = "bitmap_bytes n"
  have pool: "allocated_bmp pool = \<lparr>bmp_buf = b0, bmp_size = of_nat n\<rparr>"
    "pinned_bmp pool = \<lparr>bmp_buf = b0 + of_nat ?e, bmp_size = of_nat n\<rparr>"
    "0 < n" "n \<le> 2 ^ 18" "unat b0 + 2 * ?e + 8 \<le> 2 ^ 64"
    using assms(1) by (simp_all add: pool_layout_def)
  have n: "unat (of_nat n :: u64) = n" using pool(4) by (intro unat_of_nat_u64) simp
  obtain m1 where 1: "bitmap_set m (allocated_bmp pool) (of_nat i) True = Inr m1"
    "\<forall>j < 2 ^ 64. taken m1 pool j \<longleftrightarrow> j = i \<or> taken m pool j" "\<forall>x. \<not> unat (x - b0) < 8 \<longrightarrow> m1 x = m x"
    using bitmap_set_low [of i "allocated_bmp pool" m] assms(2,3) by (auto simp: pool n)
  obtain m2 where 2: "bitmap_set m1 (pinned_bmp pool) (of_nat i) True = Inr m2"
    "\<forall>x. \<not> unat (x - (b0 + of_nat ?e)) < 8 \<longrightarrow> m2 x = m1 x"
    using bitmap_set_low [of i "pinned_bmp pool" m1] assms(2,3) by (auto simp: pool n)
  have e: "?e + 8 \<le> 2 ^ 64" using pool(5) by simp
  have "taken m2 pool j \<longleftrightarrow> j = i \<or> taken m pool j" if "j < n" for j
  proof -
    have "taken m1 pool j = taken m2 pool j"
      using that 2(2) bytes_after [OF e, of _ b0] by (intro bmp_bit_cong_bytes) (simp_all add: pool n)
    then show ?thesis using 1(2) that pool(4) by simp
  qed
  moreover have "m2 x = m x" if "2 * ?e + 8 \<le> unat (x - b0)" for x
    using 1(3) 2(2) bytes_after [OF e, of x b0] that by simp
  ultimately show ?thesis using 1(1) 2(1) by (simp add: mark_page_def)
qed

lemma mark_pages_low:
  assumes "pool_layout pool b0 n" "d \<le> 31" "d \<le> n"
  shows "\<exists>m'. mark_pages pool 0 (of_nat d) m = Inr m' \<and> (\<forall>j < n. taken m' pool j \<longleftrightarrow> j < d \<or> taken m pool j) \<and>
    (\<forall>x. 2 * bitmap_bytes n + 8 \<le> unat (x - b0) \<longrightarrow> m' x = m x)"
proof -
  have "\<exists>m'. foldR (\<lambda>i. mark_page pool (of_nat i)) [0..<d] m = Inr m' \<and>
    (\<forall>j < n. taken m' pool j \<longleftrightarrow> j < d \<or> taken m pool j) \<and>
    (\<forall>x. 2 * bitmap_bytes n + 8 \<le> unat (x - b0) \<longrightarrow> m' x = m x)"
    using assms(2,3)
  proof (induction d)
    case (Suc d)
    then obtain m1 where 1: "foldR (\<lambda>i. mark_page pool (of_nat i)) [0..<d] m = Inr m1"
      "\<forall>j < n. taken m1 pool j \<longleftrightarrow> j < d \<or> taken m pool j"
      "\<forall>x. 2 * bitmap_bytes n + 8 \<le> unat (x - b0) \<longrightarrow> m1 x = m x" by auto
    obtain m2 where 2: "mark_page pool (of_nat d) m1 = Inr m2"
      "\<forall>j < n. taken m2 pool j \<longleftrightarrow> j = d \<or> taken m1 pool j"
      "\<forall>x. 2 * bitmap_bytes n + 8 \<le> unat (x - b0) \<longrightarrow> m2 x = m1 x"
      using mark_page_low [OF assms(1), of d m1] Suc.prems by auto
    have "foldR (\<lambda>i. mark_page pool (of_nat i)) [0..<Suc d] m = Inr m2"
      using 1(1) 2(1) foldR_upt_Suc [of 0 d "\<lambda>i. mark_page pool (of_nat i)" m] by simp
    then show ?case using 1(2,3) 2(2,3) by (auto simp: less_Suc_eq)
  qed simp
  moreover have "unat (of_nat d :: u64) = d" using assms(2) by (intro unat_of_nat_u64) simp
  ultimately show ?thesis by (simp add: mark_pages_def)
qed

section \<open>A pool\<close>

text \<open>The entry asks for nothing to be reserved in the range the code takes for the pool.\<close>

definition entry_apart :: "addr \<Rightarrow> u64 \<Rightarrow> mmap_entry \<Rightarrow> bool" where
  "entry_apart pool_start pool_pages entry \<longleftrightarrow>
     entry_type entry = MULTIBOOT_MEMORY_AVAILABLE \<or>
     (let pool_end = pool_start + pool_pages * 4096;
          region_start = k_ptov (entry_addr entry);
          region_end = k_ptov (entry_addr entry + entry_len entry)
      in \<not> max region_start pool_start < min region_end pool_end)"

lemma reserve_nothing: "entry_apart (md_base pool) n entry \<Longrightarrow> reserve_entry pool n entry m = Inr m"
  by (auto simp: reserve_entry_def entry_apart_def Let_def max_def min_def split: if_splits)

lemma reserve_nothing_loop:
  assumes "l \<le> length es" "\<forall>e \<in> set (take l es). entry_apart (md_base pool) n e"
  shows "foldR (reserve_nth pool n es) [0..<l] m = Inr m"
  using assms
proof (induction l)
  case (Suc l)
  then have "reserve_nth pool n es l m = Inr m"
    by (simp add: reserve_nth_def reserve_nothing take_Suc_conv_app_nth)
  moreover have "foldR (reserve_nth pool n es) [0..<l] m = Inr m" using Suc by (simp add: take_Suc_conv_app_nth)
  ultimately show ?case using foldR_upt_Suc [of 0 l "reserve_nth pool n es" m] by simp
qed simp

lemma memory_pool_init_low:
  assumes "0 < n" "n \<le> 2 ^ 18" "0 < unat b0" "unat b0 + 2 * bitmap_bytes n + 8 \<le> 2 ^ 64"
    and entries: "nat len \<le> length es" "\<forall>e \<in> set (take (nat len) es). entry_apart b0 (of_nat n) e"
  shows "\<exists>pool m'. memory_pool_init b0 pb (of_nat n) es len m = Inr (pool, m') \<and>
    pool_layout pool b0 n \<and> page_base pool = pb \<and>
    (\<forall>j < n. taken m' pool j \<longrightarrow> j < meta_pages n \<or> 8 * (n div 8) \<le> j) \<and> (\<forall>j < meta_pages n. taken m' pool j) \<and>
    (\<forall>x. 2 * bitmap_bytes n + 8 \<le> unat (x - b0) \<longrightarrow> m' x = m x)"
proof -
  let ?e = "bitmap_bytes n"
  have n: "unat (of_nat n :: u64) = n" using assms(2) by (intro unat_of_nat_u64) simp
  have "unat (ROUND_UP_TO (of_nat n) 8 div 8) = ?e"
    using bitmap_bytes_word(1) [of "of_nat n"] assms(2) n by simp
  then have bytes: "ROUND_UP_TO (of_nat n) 8 div 8 = of_nat ?e" by (rule word_of_unat)
  have "unat (ROUND_UP_TO (2 * of_nat ?e) 4096 div 4096) = meta_pages n"
    using bitmap_bytes_word(2) [of "of_nat n"] assms(2) n unfolding bytes by simp
  then have meta: "ROUND_UP_TO (2 * of_nat ?e) 4096 div 4096 = of_nat (meta_pages n)" by (rule word_of_unat)
  note small = meta_pages_bounds [OF assms(1,2)]
  have nonnull: "b0 \<noteq> NULL" "b0 + of_nat ?e \<noteq> NULL"
  proof -
    show "b0 \<noteq> NULL" using assms(3) by auto
    have "unat (of_nat ?e :: u64) = ?e" using assms(4) by (intro unat_of_nat_u64) simp
    then have "unat (b0 + of_nat ?e) = unat b0 + ?e" using assms(4) by (simp add: unat_word_ariths)
    then show "b0 + of_nat ?e \<noteq> NULL" using assms(3) by (metis add_is_0 less_numeral_extra(3) unat_0)
  qed
  define pool where "pool = \<lparr>allocated_bmp = \<lparr>bmp_buf = b0, bmp_size = of_nat n\<rparr>,
    pinned_bmp = \<lparr>bmp_buf = b0 + of_nat ?e, bmp_size = of_nat n\<rparr>, md_base = b0, page_base = pb\<rparr>"
  have layout: "pool_layout pool b0 n" using assms by (simp add: pool_layout_def pool_def)
  define m1 where "m1 = memset m b0 0 (of_nat n div 8)"
  define m2 where "m2 = memset m1 (b0 + of_nat ?e) 0 (of_nat n div 8)"
  have div8: "unat (of_nat n div 8 :: u64) = n div 8" by (simp add: unat_div n)
  have e8: "n div 8 \<le> ?e" by (simp add: bitmap_bytes_def div_le_mono)
  have out: "\<not> unat (x - (b0 + of_nat ?e)) < n div 8"
    if "unat (x - b0) < ?e \<or> 2 * ?e \<le> unat (x - b0)" for x
    by (rule bytes_after) (use that e8 assms(4) in auto)
  have bits: "taken m2 pool j \<longleftrightarrow> taken m pool j \<and> 8 * (n div 8) \<le> j" if "j < n" for j
  proof -
    have "taken m1 pool j = taken m2 pool j"
      using that out by (intro bmp_bit_cong_bytes) (simp_all add: pool_def n m2_def memset_apply div8)
    moreover have "taken m1 pool j \<longleftrightarrow> taken m pool j \<and> 8 * (n div 8) \<le> j"
      using memset_bits [of j m "allocated_bmp pool" "of_nat n"] that assms(2) by (simp add: pool_def m1_def n)
    ultimately show ?thesis by simp
  qed
  have frame: "m2 x = m x" if "2 * ?e + 8 \<le> unat (x - b0)" for x
    using out [of x] that e8 by (simp add: m2_def m1_def memset_apply div8)
  obtain m' where m': "mark_pages pool 0 (of_nat (meta_pages n)) m2 = Inr m'"
    "\<forall>j < n. taken m' pool j \<longleftrightarrow> j < meta_pages n \<or> taken m2 pool j"
    "\<forall>x. 2 * ?e + 8 \<le> unat (x - b0) \<longrightarrow> m' x = m2 x"
    using mark_pages_low [OF layout, of "meta_pages n" m2] small by auto
  have "foldR (reserve_nth pool (of_nat n) es) [0..<nat len] m' = Inr m'"
    using reserve_nothing_loop [OF entries(1), of pool "of_nat n" m'] entries(2) by (simp add: pool_def)
  then have "memory_pool_init b0 pb (of_nat n) es len m = Inr (pool, m')"
    using m'(1) nonnull unfolding memory_pool_init_def Let_def bytes meta bitmap_init_buf_def
    by (simp add: m1_def [symmetric] m2_def [symmetric] pool_def [symmetric])
  then show ?thesis using layout m'(2,3) bits frame small(1) by (intro exI [of _ pool] exI [of _ m']) (auto simp: pool_def)
qed

text \<open>The kernel's pool starts at its own bitmaps: it is sound, and most of its pages are free.\<close>

lemma layout_extent:
  assumes "pool_layout pool b0 n"
  shows "pages pool = n" "bmp_extent (allocated_bmp pool) \<le> 4096 * meta_pages n"
proof -
  have n: "0 < n" "n \<le> 2 ^ 18" and bmp: "allocated_bmp pool = \<lparr>bmp_buf = b0, bmp_size = of_nat n\<rparr>"
    using assms by (simp_all add: pool_layout_def)
  show pages: "pages pool = n" unfolding bmp using n by (simp add: unat_of_nat_u64)
  note small = meta_pages_bounds [OF n]
  show "bmp_extent (allocated_bmp pool) \<le> 4096 * meta_pages n"
  proof (cases "bitmap_bytes n < 7")
    case True
    have "0 < meta_pages n" using small(3,4) by (cases "meta_pages n = 0") auto
    then show ?thesis using True bmp_extent_bytes [of "allocated_bmp pool"] pages by simp
  next
    case False
    then show ?thesis using bmp_extent_bytes [of "allocated_bmp pool"] pages small(3) by simp
  qed
qed

lemma layout_pool_ok:
  assumes "pool_layout pool b0 n" "page_base pool = b0" "unat b0 + 4096 * n \<le> 2 ^ 64" "\<forall>j < meta_pages n. taken m pool j"
  shows "pool_ok m pool"
proof -
  have b0: "0 < unat b0" "bmp_buf (allocated_bmp pool) = b0" using assms(1) by (simp_all add: pool_layout_def)
  note extent = layout_extent [OF assms(1)]
  have "\<not> in_bitmap pool x" if "\<not> taken m pool (page_no pool x)" for x
  proof -
    have "meta_pages n \<le> unat (x - b0) div 4096" 
      by (rule ccontr) (use that assms(2,4) in \<open>simp add: page_no_def not_le\<close>)
    then have "4096 * meta_pages n \<le> unat (x - b0)" by (simp add: less_eq_div_iff_mult_less_eq mult.commute)
    then show ?thesis using extent(2) by (simp add: in_bitmap_def b0(2))
  qed
  then show ?thesis using assms(2,3) b0(1) by (auto simp: pool_ok_def extent(1))
qed

lemma layout_free_pages:
  assumes "pool_layout pool b0 n" "\<forall>j < n. taken m pool j \<longrightarrow> j < meta_pages n \<or> 8 * (n div 8) \<le> j"
    "meta_pages n + k \<le> 8 * (n div 8)"
  shows "k \<le> free_below (meta_pages n + k) m pool"
proof -
  have pages: "pages pool = n" using layout_extent(1) [OF assms(1)] .
  have "{meta_pages n..<meta_pages n + k} \<subseteq> {i. i < meta_pages n + k \<and> i < pages pool \<and> \<not> taken m pool i}"
  proof
    fix i assume i: "i \<in> {meta_pages n..<meta_pages n + k}"
    then have "i < 8 * (n div 8)" "i < n" using assms(3) by auto
    then show "i \<in> {i. i < meta_pages n + k \<and> i < pages pool \<and> \<not> taken m pool i}" using i assms(2) pages by fastforce
  qed
  then have "card {meta_pages n..<meta_pages n + k} \<le> free_below (meta_pages n + k) m pool"
    unfolding free_below_def by (intro card_mono) auto
  then show ?thesis by simp
qed

section \<open>All of paging\<close>

text \<open>The number of pages after the kernel, and a memory with room for the pools and the tables.\<close>

definition total_pages :: "addr \<Rightarrow> u64 \<Rightarrow> u64" where
  "total_pages kernel_end phys_end = (k_ptov phys_end - ROUND_UP_TO kernel_end 4096) div 4096"

definition memory_room :: "addr \<Rightarrow> u64 \<Rightarrow> bool" where
  "memory_room kernel_end phys_end \<longleftrightarrow>
     2 ^ 64 - 2 ^ 31 \<le> unat kernel_end \<and> unat phys_end < 2 ^ 31 \<and>
     unat kernel_end + 66 * 4096 \<le> 2 ^ 64 - 2 ^ 31 + unat phys_end"

text \<open>No reserved region meets the ranges the code takes for the two pools.\<close>

definition entry_clear :: "addr \<Rightarrow> u64 \<Rightarrow> mmap_entry \<Rightarrow> bool" where
  "entry_clear kernel_end phys_end e \<longleftrightarrow>
     (let total = total_pages kernel_end phys_end;
          k_start = ROUND_UP_TO kernel_end 4096;
          u_start = k_start + (ROUND_UP_TO (total div 2) 8 div 8) * 2
      in entry_apart k_start (total div 2) e \<and> entry_apart u_start (total - total div 2) e)"

definition entries_apart :: "addr \<Rightarrow> paging \<Rightarrow> bool" where
  "entries_apart kernel_end s \<longleftrightarrow> nat (memory_map_len s) \<le> length (memory_map s) \<and>
     (\<forall>e \<in> set (take (nat (memory_map_len s)) (memory_map s)). entry_clear kernel_end (phys_mem_end_paddr s) e)"

lemma room_facts:
  assumes "memory_room kernel_end phys_end"
  shows "4096 dvd unat (ROUND_UP_TO kernel_end 4096)" "2 ^ 64 - 2 ^ 31 \<le> unat (ROUND_UP_TO kernel_end 4096)"
    "unat (ROUND_UP_TO kernel_end 4096) + 4096 * unat (total_pages kernel_end phys_end) \<le> 2 ^ 64"
    "64 \<le> unat (total_pages kernel_end phys_end)" "unat (total_pages kernel_end phys_end) \<le> 2 ^ 19"
    "unat kernel_end \<le> unat (ROUND_UP_TO kernel_end 4096)"
proof -
  define ke where "ke = unat kernel_end"
  define pe where "pe = unat phys_end"
  define f where "f = (ke + 4095) div 4096 * 4096"
  have room: "2 ^ 64 - 2 ^ 31 \<le> ke" "pe < 2 ^ 31" "ke + 66 * 4096 \<le> 2 ^ 64 - 2 ^ 31 + pe"
    using assms by (simp_all add: memory_room_def ke_def pe_def)
  then have f: "unat (ROUND_UP_TO kernel_end 4096) = f"
    using unat_round_up [of kernel_end 12] by (simp add: f_def ke_def)
  have bounds: "ke \<le> f" "f \<le> ke + 4095" unfolding f_def by linarith+
  then show "unat kernel_end \<le> unat (ROUND_UP_TO kernel_end 4096)" by (simp add: f ke_def)
  show "4096 dvd unat (ROUND_UP_TO kernel_end 4096)" unfolding f f_def by simp
  show "2 ^ 64 - 2 ^ 31 \<le> unat (ROUND_UP_TO kernel_end 4096)" unfolding f using bounds room by linarith
  have top: "unat (k_ptov phys_end) = 2 ^ 64 - 2 ^ 31 + pe" using unat_k_ptov [of pe] room(2) by (simp add: pe_def)
  moreover have "ROUND_UP_TO kernel_end 4096 \<le> k_ptov phys_end"
    unfolding word_le_nat_alt top f using bounds room by linarith
  ultimately have total: "unat (total_pages kernel_end phys_end) = (2 ^ 64 - 2 ^ 31 + pe - f) div 4096"
    by (simp add: total_pages_def unat_div unat_sub f)
  have "64 * 4096 \<le> 2 ^ 64 - 2 ^ 31 + pe - f" using bounds room by linarith
  then have "64 * 4096 div 4096 \<le> (2 ^ 64 - 2 ^ 31 + pe - f) div 4096" by (rule div_le_mono)
  then show "64 \<le> unat (total_pages kernel_end phys_end)" unfolding total by simp
  show "unat (total_pages kernel_end phys_end) \<le> 2 ^ 19"
  proof -
    have "2 ^ 64 - 2 ^ 31 + pe - f \<le> 2 ^ 31" using bounds room by linarith
    then have "(2 ^ 64 - 2 ^ 31 + pe - f) div 4096 \<le> 2 ^ 31 div 4096" by (rule div_le_mono)
    then show ?thesis unfolding total by simp
  qed
  define x where "x = 2 ^ 64 - 2 ^ 31 + pe - f"
  have "f \<le> 2 ^ 64 - 2 ^ 31 + pe" using bounds room by linarith
  then have "f + x = 2 ^ 64 - 2 ^ 31 + pe" unfolding x_def by (rule le_add_diff_inverse)
  then have "f + x \<le> 2 ^ 64" using room(2) by simp
  moreover have "x div 4096 * 4096 \<le> x" by (rule div_times_less_eq_dividend)
  ultimately have "f + 4096 * (x div 4096) \<le> 2 ^ 64" by linarith
  then show "unat (ROUND_UP_TO kernel_end 4096) + 4096 * unat (total_pages kernel_end phys_end) \<le> 2 ^ 64"
    unfolding f total x_def .
qed

text \<open>The first page behind the tables; with 64 pages or more there are enough for all of them and ten more.\<close>

definition table_limit :: "nat \<Rightarrow> nat" where
  "table_limit t = meta_pages (t div 2) + (4 + (t + 511) div 512)"

lemma tables_fit:
  assumes "64 \<le> t" "t \<le> 2 ^ 19"
  shows "table_limit t + 10 \<le> 8 * (t div 2 div 8)"
proof -
  define n where "n = t div 2"
  have n: "32 \<le> n" "n \<le> 2 ^ 18" "t \<le> 2 * n + 1" using assms by (auto simp: n_def)
  have "4096 * meta_pages n \<le> 2 * bitmap_bytes n + 4095" by (simp add: meta_pages_def)
  moreover have "8 * bitmap_bytes n \<le> n + 7" by (simp add: bitmap_bytes_def)
  moreover have "512 * ((t + 511) div 512) \<le> t + 511" by simp
  moreover have "n \<le> 8 * (n div 8) + 7" by linarith
  ultimately show ?thesis unfolding table_limit_def n_def [symmetric] using n by linarith
qed

lemma page_fault_vector [simp]: "vector_value EXC_PAGE_FAULT = 14"
  by (simp add: vector_value_def interrupt_vectors_def)

lemma pool_ok_bits: "(\<And>j. j < pages pool \<Longrightarrow> taken m' pool j = taken m pool j) \<Longrightarrow> pool_ok m pool \<Longrightarrow> pool_ok m' pool"
  unfolding pool_ok_def by blast

text \<open>Where the two pools are: both bitmaps of each behind the kernel, one pool after the other, and
  the pages of the user's pool behind those of the kernel's.\<close>

definition pools_placed :: "addr \<Rightarrow> nat \<Rightarrow> pool_t \<Rightarrow> pool_t \<Rightarrow> bool" where
  "pools_placed fs t kp up \<longleftrightarrow>
     pool_layout kp fs (t div 2) \<and> page_base kp = fs \<and>
     pool_layout up (fs + of_nat (2 * bitmap_bytes (t div 2))) (t - t div 2) \<and>
     page_base up = fs + of_nat (4096 * (t div 2))"

lemma bitmaps_small:
  assumes "64 \<le> t"
  shows "2 * bitmap_bytes (t div 2) + 2 * bitmap_bytes (t - t div 2) + 8 \<le> 4096 * (t div 2)"
proof -
  have "8 * bitmap_bytes (t div 2) \<le> t div 2 + 7" "8 * bitmap_bytes (t - t div 2) \<le> (t - t div 2) + 7"
    "32 \<le> t div 2" "t - t div 2 \<le> t div 2 + 1"
    using assms by (auto simp: bitmap_bytes_def)
  then show ?thesis by linarith
qed

lemma pools_built:
  assumes t: "64 \<le> t" "t \<le> 2 ^ 19" "2 ^ 64 - 2 ^ 31 \<le> unat fs" "unat fs + 4096 * t \<le> 2 ^ 64"
    and n: "n = t div 2" and u: "u = t - t div 2" and us: "us = fs + of_nat (2 * bitmap_bytes n)"
    and es: "nat len \<le> length es" "\<forall>e \<in> set (take (nat len) es). entry_apart fs (of_nat n) e"
      "\<forall>e \<in> set (take (nat len) es). entry_apart us (of_nat u) e"
  shows "\<exists>kp m1 up m2. memory_pool_init fs fs (of_nat n) es len m = Inr (kp, m1) \<and>
    memory_pool_init us (fs + of_nat n * 4096) (of_nat u) es len m1 = Inr (up, m2) \<and> pools_placed fs t kp up \<and>
    (\<forall>j < n. taken m2 kp j \<longrightarrow> j < meta_pages n \<or> 8 * (n div 8) \<le> j) \<and> (\<forall>j < meta_pages n. taken m2 kp j) \<and>
    (\<forall>x. 2 * bitmap_bytes n + 2 * bitmap_bytes u + 8 \<le> unat (x - fs) \<longrightarrow> m2 x = m x)"
proof -
  have nu: "0 < n" "n \<le> 2 ^ 18" "0 < u" "u \<le> 2 ^ 18" using t(1,2) by (auto simp: n u)
  have un: "unat (of_nat n :: u64) = n" using nu by (intro unat_of_nat_u64) simp
  have small: "2 * bitmap_bytes n + 2 * bitmap_bytes u + 8 \<le> 4096 * n" using bitmaps_small [OF t(1)] by (simp add: n u)
  have space: "unat fs + 2 * bitmap_bytes n + 2 * bitmap_bytes u + 8 \<le> 2 ^ 64" using small t(4) n by linarith
  have "unat (of_nat (2 * bitmap_bytes n) :: u64) = 2 * bitmap_bytes n" using space by (intro unat_of_nat_u64) simp
  then have uus: "unat us = unat fs + 2 * bitmap_bytes n" unfolding us using space by (simp add: unat_word_ariths)
  have fs: "0 < unat fs" "unat fs + 2 * bitmap_bytes n + 8 \<le> 2 ^ 64" "0 < unat us" "unat us + 2 * bitmap_bytes u + 8 \<le> 2 ^ 64"
    using t(3) space uus by auto
  obtain kp m1 where kp: "memory_pool_init fs fs (of_nat n) es len m = Inr (kp, m1)"
    "pool_layout kp fs n" "page_base kp = fs" "\<forall>j < n. taken m1 kp j \<longrightarrow> j < meta_pages n \<or> 8 * (n div 8) \<le> j"
    "\<forall>j < meta_pages n. taken m1 kp j" "\<forall>x. 2 * bitmap_bytes n + 8 \<le> unat (x - fs) \<longrightarrow> m1 x = m x"
    using memory_pool_init_low [OF nu(1,2) fs(1,2) es(1,2), of fs m] by blast
  obtain up m2 where up: "memory_pool_init us (fs + of_nat n * 4096) (of_nat u) es len m1 = Inr (up, m2)"
    "pool_layout up us u" "page_base up = fs + of_nat n * 4096"
    "\<forall>x. 2 * bitmap_bytes u + 8 \<le> unat (x - us) \<longrightarrow> m2 x = m1 x"
    using memory_pool_init_low [OF nu(3,4) fs(3,4) es(1,3), of "fs + of_nat n * 4096" m1] by blast
  have outside: "m2 x = m1 x" if "unat (x - fs) < bitmap_bytes n \<or> 2 * bitmap_bytes n + (2 * bitmap_bytes u + 8) \<le> unat (x - fs)" for x
  proof -
    have "\<not> unat (x - us) < 2 * bitmap_bytes u + 8" unfolding us using space that by (intro bytes_after) auto
    then show ?thesis using up(4) by simp
  qed
  have bmp: "allocated_bmp kp = \<lparr>bmp_buf = fs, bmp_size = of_nat n\<rparr>" using kp(2) by (simp add: pool_layout_def)
  have bits: "taken m2 kp j = taken m1 kp j" if "j < n" for j
    using outside that by (intro bmp_bit_cong_bytes) (simp_all add: bmp un)
  have "meta_pages n \<le> n" using meta_pages_bounds(1) [OF nu(1,2)] .
  then have "\<forall>j < meta_pages n. taken m2 kp j" using kp(5) bits by simp
  moreover have "m2 x = m x" if "2 * bitmap_bytes n + 2 * bitmap_bytes u + 8 \<le> unat (x - fs)" for x
    using outside [of x] kp(6) that by simp
  moreover have "pools_placed fs t kp up" using kp(2,3) up(2,3) by (simp add: pools_placed_def n u us mult.commute)
  ultimately show ?thesis using kp(1,4) up(1) bits by (intro exI conjI) auto
qed

lemma layout_room:
  assumes "memory_room kernel_end phys_end"
  defines "tp \<equiv> total_pages kernel_end phys_end"
  shows "tp div 2 = of_nat (unat tp div 2)" "tp - of_nat (unat tp div 2) = of_nat (unat tp - unat tp div 2)"
    "ROUND_UP_TO (of_nat (unat tp div 2)) 8 div 8 = of_nat (bitmap_bytes (unat tp div 2))"
proof -
  have t: "unat tp \<le> 2 ^ 19" using room_facts(5) [OF assms(1)] by (simp add: tp_def)
  have half: "unat (tp div 2) = unat tp div 2" by (simp add: unat_div)
  then show eq: "tp div 2 = of_nat (unat tp div 2)" by (rule word_of_unat)
  have "tp div 2 \<le> tp" by (simp add: word_le_nat_alt unat_div)
  then show "tp - of_nat (unat tp div 2) = of_nat (unat tp - unat tp div 2)"
    unfolding eq [symmetric] by (intro word_of_unat) (simp add: unat_sub half)
  show "ROUND_UP_TO (of_nat (unat tp div 2)) 8 div 8 = of_nat (bitmap_bytes (unat tp div 2))"
    unfolding eq [symmetric] using bitmap_bytes_word(1) [of "tp div 2"] t half by (intro word_of_unat) simp
qed

lemma memory_map_init_mem: "memory_map_init mboot s = Inr s1 \<Longrightarrow> pg_mem s1 = pg_mem s"
  by (auto simp: memory_map_init_def bindR_eq_Inr Let_def split: if_splits)

text \<open>The state after \<^verbatim>\<open>paging_init\<close>, for \<open>t\<close> pages from \<open>fs\<close> on.\<close>

definition paging_built :: "addr \<Rightarrow> nat \<Rightarrow> memory \<Rightarrow> paging \<Rightarrow> (nat list \<Rightarrow> nat option) \<Rightarrow> bool" where
  "paging_built fs t m s nodes \<longleftrightarrow>
     pools_placed fs t (kernel_pool s) (user_pool s) \<and> page_tables s nodes (direct_leaves t) \<and>
     init_pml4 s = page_at (kernel_pool s) (meta_pages (t div 2)) \<and> cr3 s = k_vtop (init_pml4 s) \<and>
     (\<forall>j < meta_pages (t div 2). taken (pg_mem s) (kernel_pool s) j) \<and> (\<forall>p i. nodes p = Some i \<longrightarrow> i < table_limit t) \<and>
     (\<forall>j. table_limit t \<le> j \<and> j < 8 * (t div 2 div 8) \<longrightarrow> \<not> taken (pg_mem s) (kernel_pool s) j) \<and>
     (\<forall>x. 4096 * table_limit t \<le> unat (x - fs) \<longrightarrow> pg_mem s x = m x)"

lemma tables_built:
  assumes t: "64 \<le> t" "t \<le> 2 ^ 19" "unat (pool_pages_total s) = t"
    and fs: "4096 dvd unat fs" "2 ^ 64 - 2 ^ 31 \<le> unat fs" "unat fs + 4096 * t \<le> 2 ^ 64"
    and pools: "pools_placed fs t (kernel_pool s) (user_pool s)"
      "\<forall>j < t div 2. taken (pg_mem s) (kernel_pool s) j \<longrightarrow> j < meta_pages (t div 2) \<or> 8 * (t div 2 div 8) \<le> j"
      "\<forall>j < meta_pages (t div 2). taken (pg_mem s) (kernel_pool s) j"
      "\<forall>x. 4096 * table_limit t \<le> unat (x - fs) \<longrightarrow> pg_mem s x = m x"
  shows "\<exists>s' nodes. page_tables_init s = Inr s' \<and> paging_built fs t m s' nodes"
proof -
  let ?kp = "kernel_pool s"
  let ?n = "t div 2"
  have lay: "pool_layout ?kp fs ?n" "page_base ?kp = fs" using pools(1) by (simp_all add: pools_placed_def)
  note extent = layout_extent [OF lay(1)]
  have ok: "pool_ok (pg_mem s) ?kp" using layout_pool_ok [OF lay _ pools(3)] fs(3) by simp
  have high: "high_pool ?kp" using fs(1,2) lay(2) by (simp add: high_pool_def)
  have lim: "meta_pages ?n + (4 + (t + 511) div 512) \<le> 8 * (?n div 8)" using tables_fit [OF t(1,2)] by (simp add: table_limit_def)
  have le: "pool_pages_total s \<le> 2 ^ 19" using t(2,3) by (simp add: word_le_nat_alt)
  have "4 + (t + 511) div 512 \<le> free_below (table_limit t) (pg_mem s) ?kp"
    using layout_free_pages [OF lay(1) pools(2) lim] by (simp add: table_limit_def)
  then obtain r m3 nodes where tables: "page_tables_init s =
      Inr (s\<lparr>pg_mem := m3, init_pml4 := page_at ?kp r, cr3 := k_vtop (page_at ?kp r)\<rparr>)"
    "nodes [] = Some r" "table_tree m3 ?kp nodes (direct_leaves t)" "\<not> taken (pg_mem s) ?kp r"
    "\<forall>j < r. taken (pg_mem s) ?kp j" "\<forall>p i. nodes p = Some i \<longrightarrow> i < table_limit t" "kept_above (table_limit t) ?kp (pg_mem s) m3"
    using page_tables_init_maps [OF ok high le, of "table_limit t"] t(3) by auto
  have r: "r = meta_pages ?n"
  proof (rule antisym)
    have "meta_pages ?n < 8 * (?n div 8)" "meta_pages ?n < ?n" using lim by linarith+
    then have "\<not> taken (pg_mem s) ?kp (meta_pages ?n)" using pools(2) by fastforce
    then show "r \<le> meta_pages ?n" using tables(5) not_le by blast
    show "meta_pages ?n \<le> r" by (rule ccontr) (use tables(4) pools(3) in auto)
  qed
  have "m3 x = m x" if "4096 * table_limit t \<le> unat (x - fs)" for x
  proof -
    have "\<not> in_bitmap ?kp x" using extent(2) that lay(1) by (simp add: in_bitmap_def pool_layout_def table_limit_def)
    moreover have "table_limit t \<le> page_no ?kp x" using that lay(2) by (simp add: page_no_def less_eq_div_iff_mult_less_eq mult.commute)
    ultimately show ?thesis using tables(7) pools(4) that by (simp add: kept_above_def)
  qed
  moreover have "meta_pages ?n \<le> pages ?kp" using lim extent(1) by linarith
  then have "\<forall>j < meta_pages ?n. taken m3 ?kp j" using tables(7) pools(3) by (simp add: kept_above_def)
  moreover have "\<not> taken m3 ?kp j" if j: "table_limit t \<le> j" "j < 8 * (?n div 8)" for j
  proof -
    have "j < ?n" using j(2) by linarith
    moreover have "meta_pages ?n \<le> j" using j(1) by (simp add: table_limit_def)
    ultimately have "\<not> taken (pg_mem s) ?kp j" using pools(2) j(2) by fastforce
    then show ?thesis using tables(7) j(1) \<open>j < ?n\<close> extent(1) by (simp add: kept_above_def)
  qed
  ultimately have "paging_built fs t m (s\<lparr>pg_mem := m3, init_pml4 := page_at ?kp r, cr3 := k_vtop (page_at ?kp r)\<rparr>) nodes"
    using pools(1) tables(2,3,6) by (simp add: paging_built_def page_tables_def r)
  then show ?thesis using tables(1) by blast
qed

lemma paging_init_result:
  assumes map: "memory_map_init mboot s = Inr s1" and room: "memory_room kernel_end (phys_mem_end_paddr s1)"
    and entries: "entries_apart kernel_end s1"
  defines "t \<equiv> unat (total_pages kernel_end (phys_mem_end_paddr s1))"
  shows "\<exists>s' nodes. paging_init dev mboot kernel_end handler s i = Inr (s', i\<lparr>exc_handlers := (exc_handlers i)[14 := handler]\<rparr>) \<and>
    paging_built (ROUND_UP_TO kernel_end 4096) t (pg_mem s) s' nodes \<and> t \<le> 2 ^ 19"
proof -
  define tp where "tp = total_pages kernel_end (phys_mem_end_paddr s1)"
  define fs where "fs = ROUND_UP_TO kernel_end 4096"
  define n u where "n = t div 2" and "u = t - t div 2"
  define us where "us = fs + of_nat (2 * bitmap_bytes n)"
  note facts = room_facts [OF room, folded tp_def fs_def, folded t_def [folded tp_def]]
  note words = layout_room [OF room, folded tp_def, folded t_def [folded tp_def], folded n_def u_def]
  have start: "fs + of_nat (bitmap_bytes n) * 2 = us" by (simp add: us_def)
  have apart: "nat (memory_map_len s1) \<le> length (memory_map s1)"
    "\<forall>e \<in> set (take (nat (memory_map_len s1)) (memory_map s1)). entry_apart fs (of_nat n) e"
    "\<forall>e \<in> set (take (nat (memory_map_len s1)) (memory_map s1)). entry_apart us (of_nat u) e"
    using entries unfolding entries_apart_def entry_clear_def Let_def tp_def [symmetric] fs_def [symmetric] words start by auto
  obtain kp m1 up m2 where pools: "memory_pool_init fs fs (of_nat n) (memory_map s1) (memory_map_len s1) (pg_mem s1) = Inr (kp, m1)"
    "memory_pool_init us (fs + of_nat n * 4096) (of_nat u) (memory_map s1) (memory_map_len s1) m1 = Inr (up, m2)"
    "pools_placed fs t kp up" "\<forall>j < n. taken m2 kp j \<longrightarrow> j < meta_pages n \<or> 8 * (n div 8) \<le> j" "\<forall>j < meta_pages n. taken m2 kp j"
    "\<forall>x. 2 * bitmap_bytes n + 2 * bitmap_bytes u + 8 \<le> unat (x - fs) \<longrightarrow> m2 x = pg_mem s1 x"
    using pools_built [OF facts(4,5,2,3) n_def u_def us_def apart, of "pg_mem s1"] by blast
  have mem: "pg_mem s1 = pg_mem s" using memory_map_init_mem [OF map] .
  have "2 * bitmap_bytes n + 2 * bitmap_bytes u + 8 \<le> 4096 * table_limit t"
  proof -
    have "2 * bitmap_bytes n \<le> 4096 * meta_pages n" using facts(4,5) by (intro meta_pages_bounds) (auto simp: n_def)
    moreover define q where "q = (t + 511) div 512"
    moreover have "8 * bitmap_bytes u \<le> u + 7" "t \<le> 512 * q" "u \<le> t" by (auto simp: bitmap_bytes_def u_def q_def)
    ultimately show ?thesis unfolding table_limit_def n_def [symmetric] by (simp add: algebra_simps)
  qed
  then have kept: "\<forall>x. 4096 * table_limit t \<le> unat (x - fs) \<longrightarrow> m2 x = pg_mem s x" unfolding mem [symmetric] using pools(6) order_trans by blast
  let ?s = "s1\<lparr>pool_pages_total := tp, pg_mem := m2, kernel_pool := kp, user_pool := up\<rparr>"
  have "unat (pool_pages_total ?s) = t" by (simp add: t_def tp_def)
  then obtain s' nodes where s': "page_tables_init ?s = Inr s'" "paging_built fs t (pg_mem s) s' nodes"
    using tables_built [OF facts(4,5) _ facts(1-3), of ?s "pg_mem s"] pools(3-5) kept by (auto simp: n_def)
  have tp: "(k_ptov (phys_mem_end_paddr s1) - fs) div 4096 = tp" by (simp add: tp_def total_pages_def fs_def)
  have "paging_init dev mboot kernel_end handler s i = Inr (s', i\<lparr>exc_handlers := (exc_handlers i)[14 := handler]\<rparr>)"
    using pools(1,2) s'(1) unfolding paging_init_def map interrupts_register_handler_def Let_def fs_def [symmetric]
    by (simp add: tp words start)
  then show ?thesis using s'(2) facts(5) by (auto simp: fs_def)
qed

text \<open>The tables the state holds translate the direct map.\<close>

lemma page_tables_direct:
  assumes "page_tables s nodes (direct_leaves n)" "cr3 s = k_vtop (init_pml4 s)" "n \<le> 2 ^ 19" "a < 4096 * n"
  shows "translate (pg_mem s) (cr3 s) (k_ptov (of_nat a)) = Some (of_nat a)"
  using direct_leaves_translate [OF _ _ assms(3,4)] assms(1,2) by (auto simp: page_tables_def)

lemma page_tables_low:
  "page_tables s nodes (direct_leaves n) \<Longrightarrow> cr3 s = k_vtop (init_pml4 s) \<Longrightarrow> unat v < 2 ^ 47 \<Longrightarrow> translate (pg_mem s) (cr3 s) v = None"
  using direct_leaves_low by (auto simp: page_tables_def)

lemma page_tables_beyond:
  "page_tables s nodes (direct_leaves n) \<Longrightarrow> cr3 s = k_vtop (init_pml4 s) \<Longrightarrow> 4096 * n \<le> a \<Longrightarrow> a < 2 ^ 31 \<Longrightarrow>
    translate (pg_mem s) (cr3 s) (k_ptov (of_nat a)) = None"
  using direct_leaves_beyond by (auto simp: page_tables_def)

section \<open>The user's pool\<close>

text \<open>Offsets from the end of the kernel: where the bitmaps of the user's pool are.\<close>

lemma user_bitmaps_at:
  assumes "pools_placed fs t kp up" "64 \<le> t" "unat fs + 4096 * t \<le> 2 ^ 64" "n = t div 2" "u = t - t div 2"
    "k \<le> 2 * bitmap_bytes u + 8"
  shows "unat (x - md_base up) < k \<longleftrightarrow> 2 * bitmap_bytes n \<le> unat (x - fs) \<and> unat (x - fs) < 2 * bitmap_bytes n + k"
proof -
  define d where "d = unat (x - fs)"
  have x: "x = fs + of_nat d" "d < 2 ^ 64" using unat_u64_less [of "x - fs"] by (simp_all add: d_def)
  have "md_base up = fs + of_nat (2 * bitmap_bytes n)" using assms(1,4) by (simp add: pools_placed_def pool_layout_def)
  moreover have "2 * bitmap_bytes n + k \<le> 2 ^ 64"
    using bitmaps_small [OF assms(2)] assms(3,6) unfolding assms(4,5) by linarith
  ultimately have "unat (x - md_base up) < k \<longleftrightarrow> 2 * bitmap_bytes n \<le> d \<and> d < 2 * bitmap_bytes n + k"
    unfolding x(1) using x(2) by (simp only: unat_of_nat_diff)
  then show ?thesis by (simp only: d_def)
qed

lemma user_pool_ok:
  assumes "pools_placed fs t kp up" "64 \<le> t" "unat fs + 4096 * t \<le> 2 ^ 64"
  shows "pool_ok m up"
proof -
  define n u where "n = t div 2" and "u = t - t div 2"
  have lay: "pool_layout up (fs + of_nat (2 * bitmap_bytes n)) u" "page_base up = fs + of_nat (4096 * n)"
    using assms(1) by (simp_all add: pools_placed_def n_def u_def)
  have md: "bmp_buf (allocated_bmp up) = md_base up" using lay(1) by (simp add: pool_layout_def)
  have nu: "n + u = t" "0 < u" "0 < n" using assms(2) by (auto simp: n_def u_def)
  have base: "unat (page_base up) = unat fs + 4096 * n"
  proof -
    have "unat (of_nat (unat fs + 4096 * n) :: u64) = unat fs + 4096 * n"
      using assms(3) nu by (intro unat_of_nat_u64) simp
    then show ?thesis by (simp add: lay(2))
  qed
  have "\<not> in_bitmap up x" if x: "page_no up x < u" for x
  proof
    assume "in_bitmap up x"
    then have "unat (x - md_base up) < bitmap_bytes u + 7"
      using bmp_extent_bytes [of "allocated_bmp up"] layout_extent(1) [OF lay(1)] by (simp add: in_bitmap_def md)
    then have "unat (x - fs) < 2 * bitmap_bytes n + (bitmap_bytes u + 7)"
      using user_bitmaps_at [OF assms n_def u_def, where x = x and k = "bitmap_bytes u + 7"] by simp
    then have "unat (x - fs) < 4096 * n" using bitmaps_small [OF assms(2)] by (simp add: n_def u_def)
    moreover have "unat (x - page_base up) < 4096 * u" using x by (simp add: page_no_def div_less_iff_less_mult mult.commute)
    then have "unat (fs + of_nat (unat (x - fs)) - (fs + of_nat (4096 * n))) < 4096 * u" by (simp add: lay(2))
    then have "4096 * n \<le> unat (x - fs)"
      using unat_of_nat_diff [of "unat (x - fs)" "4096 * n" "4096 * u" fs] assms(3) nu unat_u64_less [of "x - fs"] by simp
    ultimately show False by simp
  qed
  then show ?thesis using base assms(3) nu(1,3) layout_extent(1) [OF lay(1)] lay(1) by (auto simp: pool_ok_def pool_layout_def)
qed

lemma user_root:
  assumes "pools_placed fs t kp up" "64 \<le> t" "unat fs + 4096 * t \<le> 2 ^ 64" "r = page_at kp (meta_pages n)"
    "n = t div 2" "u = t - t div 2"
  shows "(\<exists>x. unat (x - md_base up) < 2 * bitmap_bytes u \<and> unat (x - r) < 4096) \<longleftrightarrow>
    4096 * meta_pages n < 2 * bitmap_bytes n + 2 * bitmap_bytes u"
proof -
  have nu: "0 < n" "n \<le> 2 ^ 18" "n \<le> t" "0 < u" and base: "page_base kp = fs"
    using assms(1,2,5,6) by (auto simp: pools_placed_def pool_layout_def)
  note small = meta_pages_bounds [OF nu(1,2)]
  have fits: "4096 * (meta_pages n + 1) \<le> 2 ^ 64" using small(2) by simp
  have iff: "unat (x - md_base up) < 2 * bitmap_bytes u \<and> unat (x - r) < 4096 \<longleftrightarrow>
      (2 * bitmap_bytes n \<le> unat (x - fs) \<and> unat (x - fs) < 2 * bitmap_bytes n + 2 * bitmap_bytes u) \<and>
      unat (x - fs) div 4096 = meta_pages n" for x
    using user_bitmaps_at [OF assms(1-3,5,6), where x = x and k = "2 * bitmap_bytes u"] in_pages_iff [OF fits, of x kp]
    by (auto simp: assms(4) page_no_def base)
  show ?thesis
  proof
    assume "\<exists>x. unat (x - md_base up) < 2 * bitmap_bytes u \<and> unat (x - r) < 4096"
    then obtain x where "unat (x - fs) < 2 * bitmap_bytes n + 2 * bitmap_bytes u" "unat (x - fs) div 4096 = meta_pages n"
      using iff by blast
    then show "4096 * meta_pages n < 2 * bitmap_bytes n + 2 * bitmap_bytes u"
      using times_div_less_eq_dividend [of 4096 "unat (x - fs)"] by simp
  next
    assume lt: "4096 * meta_pages n < 2 * bitmap_bytes n + 2 * bitmap_bytes u"
    have "unat (of_nat (4096 * meta_pages n) :: u64) = 4096 * meta_pages n" using small(2) by (intro unat_of_nat_u64) simp
    then have "unat (fs + of_nat (4096 * meta_pages n) - fs) = 4096 * meta_pages n" by simp
    then show "\<exists>x. unat (x - md_base up) < 2 * bitmap_bytes u \<and> unat (x - r) < 4096"
      unfolding iff using lt small(3) by (intro exI [of _ "fs + of_nat (4096 * meta_pages n)"]) simp
  qed
qed

lemma user_safe:
  assumes "pools_placed fs t kp up" "64 \<le> t" "unat fs + 4096 * t \<le> 2 ^ 64" "\<forall>j < meta_pages n. taken m kp j"
    "n = t div 2" "u = t - t div 2"
  shows "2 * bitmap_bytes n + 2 * bitmap_bytes u \<le> 4096 * meta_pages n \<longrightarrow>
    (\<forall>x. unat (x - md_base up) < 2 * bitmap_bytes u \<longrightarrow> taken m kp (page_no kp x))"
proof (intro impI allI)
  fix x assume le: "2 * bitmap_bytes n + 2 * bitmap_bytes u \<le> 4096 * meta_pages n"
    and x: "unat (x - md_base up) < 2 * bitmap_bytes u"
  have "unat (x - fs) < 4096 * meta_pages n"
    using user_bitmaps_at [OF assms(1-3,5,6), where x = x and k = "2 * bitmap_bytes u"] le x by simp
  moreover have "page_base kp = fs" using assms(1) by (simp add: pools_placed_def)
  ultimately have "page_no kp x < meta_pages n" by (simp add: page_no_def div_less_iff_less_mult mult.commute)
  then show "taken m kp (page_no kp x)" using assms(4) by blast
qed

section \<open>Properties\<close>

text \<open>C9: when the memory map can be read, there is room for the pools and no reserved region meets them,
  \<^verbatim>\<open>paging_init\<close> returns: the page fault handler is registered, the kernel's pool is sound, and the
  tables in CR3 translate the direct map of as many pages as there are behind the kernel, counted from
  physical address 0, and no address of the lower half, where the text screen and the boot information are. All memory it writes, the tables included, is in the pages from the end of the kernel to
  \<open>table_limit\<close>.\<close>

theorem paging_init_maps_memory:
  assumes "memory_map_init mboot s = Inr s1" "memory_room kernel_end (phys_mem_end_paddr s1)"
    "entries_apart kernel_end s1" "length (exc_handlers i) = 32"
  shows "\<exists>s' i'. paging_init dev mboot kernel_end handler s i = Inr (s', i') \<and>
    exc_handlers i' ! unat (vector_value EXC_PAGE_FAULT) = handler \<and> pool_ok (pg_mem s') (kernel_pool s') \<and>
    (\<forall>a < 4096 * unat (total_pages kernel_end (phys_mem_end_paddr s1)).
       translate (pg_mem s') (cr3 s') (k_ptov (of_nat a)) = Some (of_nat a)) \<and>
    (\<forall>v. unat v < 2 ^ 47 \<longrightarrow> translate (pg_mem s') (cr3 s') v = None) \<and>
    (\<forall>x. 4096 * table_limit (unat (total_pages kernel_end (phys_mem_end_paddr s1))) \<le> unat (x - ROUND_UP_TO kernel_end 4096) \<longrightarrow>
       pg_mem s' x = pg_mem s x)"
proof -
  obtain s' nodes where s': "paging_init dev mboot kernel_end handler s i = Inr (s', i\<lparr>exc_handlers := (exc_handlers i)[14 := handler]\<rparr>)"
    "page_tables s' nodes (direct_leaves (unat (total_pages kernel_end (phys_mem_end_paddr s1))))"
    "cr3 s' = k_vtop (init_pml4 s')" "unat (total_pages kernel_end (phys_mem_end_paddr s1)) \<le> 2 ^ 19"
    "\<forall>x. 4096 * table_limit (unat (total_pages kernel_end (phys_mem_end_paddr s1))) \<le> unat (x - ROUND_UP_TO kernel_end 4096) \<longrightarrow>
       pg_mem s' x = pg_mem s x"
    using paging_init_result [OF assms(1-3), of dev handler i] unfolding paging_built_def by blast
  have "pool_ok (pg_mem s') (kernel_pool s')" using s'(2) table_treeD(1) unfolding page_tables_def by blast
  then show ?thesis using s'(1,5) page_tables_direct [OF s'(2-4)] page_tables_low [OF s'(2,3)] assms(4) by (intro exI conjI) auto
qed

text \<open>C10: where the bitmaps of the user's pool end up. After \<^verbatim>\<open>paging_init\<close> the user's pool never hands out
  its own bitmaps, but these lie in pages of the kernel's pool, behind the bitmaps of that pool. They share
  memory with the root of the page tables exactly when the bitmaps of both pools take more than the pages
  reserved for those of the kernel's pool, as they do with 128 MB; otherwise they lie in pages the
  kernel's pool has taken.\<close>

theorem user_bitmaps_meet_root:
  assumes "memory_map_init mboot s = Inr s1" "memory_room kernel_end (phys_mem_end_paddr s1)" "entries_apart kernel_end s1"
    "t = unat (total_pages kernel_end (phys_mem_end_paddr s1))" "n = t div 2" "u = t - n"
  shows "\<exists>s' i'. paging_init dev mboot kernel_end handler s i = Inr (s', i') \<and> pool_ok (pg_mem s') (user_pool s') \<and>
    ((\<exists>x. unat (x - md_base (user_pool s')) < 2 * bitmap_bytes u \<and> unat (x - init_pml4 s') < 4096) \<longleftrightarrow>
       4096 * meta_pages n < 2 * bitmap_bytes n + 2 * bitmap_bytes u) \<and>
    (2 * bitmap_bytes n + 2 * bitmap_bytes u \<le> 4096 * meta_pages n \<longrightarrow>
       (\<forall>x. unat (x - md_base (user_pool s')) < 2 * bitmap_bytes u \<longrightarrow>
          taken (pg_mem s') (kernel_pool s') (page_no (kernel_pool s') x)))"
proof -
  define fs where "fs = ROUND_UP_TO kernel_end 4096"
  note facts = room_facts [OF assms(2), folded assms(4) fs_def]
  obtain s' nodes where s': "paging_init dev mboot kernel_end handler s i = Inr (s', i\<lparr>exc_handlers := (exc_handlers i)[14 := handler]\<rparr>)"
    "paging_built fs t (pg_mem s) s' nodes"
    using paging_init_result [OF assms(1-3), of dev handler i, folded assms(4) fs_def] by blast
  let ?up = "user_pool s'" and ?kp = "kernel_pool s'"
  have u: "u = t - t div 2" using assms(5,6) by simp
  have placed: "pools_placed fs t ?kp ?up" and root: "init_pml4 s' = page_at ?kp (meta_pages n)"
    and meta: "\<forall>j < meta_pages n. taken (pg_mem s') ?kp j"
    using s'(2) by (simp_all add: paging_built_def assms(5))
  show ?thesis
    using s'(1) user_pool_ok [OF placed facts(4,3)] user_root [OF placed facts(4,3) root assms(5) u]
      user_safe [OF placed facts(4,3) meta assms(5) u] by blast
qed

text \<open>A machine with 8 MB: the last of two entries of the map is lost.\<close>

definition sample_ram :: memory where
  "sample_ram = (\<lambda>_. 0)(0x1008 := 6, 0x100C := 64, 0x1010 := 24, 0x1022 := 0x80, 0x1028 := 1)"

abbreviation (input) sample_end :: addr where "sample_end \<equiv> 0xFFFFFFFF80200123"

lemma one_region_map:
  assumes fields: "tag_type m 0x1008 = 6" "tag_size m 0x1008 = 64" "mmap_tag_entry_size m 0x1008 = 24"
    and entry: "entry_addr (load_mmap_entry m 0x1018) = 0" "entry_len (load_mmap_entry m 0x1018) = l" "entry_type (load_mmap_entry m 0x1018) = 1"
  shows "\<exists>s1. memory_map_init 0x1000 (cold_paging m) = Inr s1 \<and> phys_mem_end_paddr s1 = l \<and> entries_apart kernel_end s1"
proof -
  let ?e = "load_mmap_entry m 0x1018"
  have tag: "multiboot_get_tag m 0x1000 6 = Inr 0x1008"
    by (simp add: multiboot_get_tag_def tag_loop.simps [of m] fields(1))
  obtain es top where map: "memory_map_init 0x1000 (cold_paging m) = Inr ((cold_paging m)
      \<lparr>memory_map := es, memory_map_len := 1, phys_mem_end_paddr := entry_addr top + entry_len top\<rparr>)"
    "mset (take 1 es) = mset [?e]" "top = last (take 1 es)"
    using memory_map_init_copies [of "cold_paging m" "0x1000" "0x1008" 2] tag fields by auto
  then have one: "take 1 es = [?e]" by (metis mset_single_iff_right)
  then have "1 \<le> length es" by (cases es) auto
  then show ?thesis using map one entry by (auto simp: entries_apart_def entry_clear_def entry_apart_def Let_def)
qed

lemma sample_ram_map:
  "\<exists>s1. memory_map_init 0x1000 (cold_paging sample_ram) = Inr s1 \<and> phys_mem_end_paddr s1 = 0x800000 \<and>
     entries_apart sample_end s1"
  by (rule one_region_map)
    (simp_all add: sample_ram_def tag_type_def tag_size_def mmap_tag_entry_size_def load_mmap_entry_def mem_eval)

theorem paging_init_maps_memory_witness:
  "\<exists>s' i'. paging_init latch 0x1000 sample_end 0x2000 (cold_paging sample_ram) cold_intr = Inr (s', i') \<and>
     translate (pg_mem s') (cr3 s') 0xFFFFFFFF80012345 = Some 0x12345 \<and> translate (pg_mem s') (cr3 s') 0xB8000 = None"
proof -
  obtain s1 where s1: "memory_map_init 0x1000 (cold_paging sample_ram) = Inr s1" "phys_mem_end_paddr s1 = 0x800000"
    "entries_apart sample_end s1" using sample_ram_map by blast
  have room: "memory_room sample_end (phys_mem_end_paddr s1)" by (simp add: memory_room_def s1(2))
  have "0x12345 < 4096 * unat (total_pages sample_end (phys_mem_end_paddr s1))"
    using room_facts(4) [OF room] by simp
  then obtain s' i' where "paging_init latch 0x1000 sample_end 0x2000 (cold_paging sample_ram) cold_intr = Inr (s', i')"
    "translate (pg_mem s') (cr3 s') (k_ptov (of_nat 0x12345)) = Some (of_nat 0x12345)"
    "\<forall>v. unat v < 2 ^ 47 \<longrightarrow> translate (pg_mem s') (cr3 s') v = None"
    using paging_init_maps_memory [OF s1(1) room s1(3), of cold_intr latch "0x2000"] by (auto simp: cold_intr_def)
  then show ?thesis by (simp add: k_ptov_def)
qed

text \<open>The same machine with 128 MB.\<close>

definition big_ram :: memory where
  "big_ram = (\<lambda>_. 0)(0x1008 := 6, 0x100C := 64, 0x1010 := 24, 0x1023 := 8, 0x1028 := 1)"

theorem user_bitmaps_meet_root_witness:
  "\<exists>s' i'. paging_init latch 0x1000 sample_end 0x2000 (cold_paging big_ram) cold_intr = Inr (s', i') \<and>
     (\<exists>x. unat (x - md_base (user_pool s')) < 2 * bitmap_bytes 16128 \<and> unat (x - init_pml4 s') < 4096)"
proof -
  obtain s1 where s1: "memory_map_init 0x1000 (cold_paging big_ram) = Inr s1" "phys_mem_end_paddr s1 = 0x8000000" "entries_apart sample_end s1"
    using one_region_map [of big_ram "0x8000000" sample_end]
    by (auto simp: big_ram_def tag_type_def tag_size_def mmap_tag_entry_size_def load_mmap_entry_def mem_eval)
  have room: "memory_room sample_end (phys_mem_end_paddr s1)" by (simp add: memory_room_def s1(2))
  have "32255 = unat (total_pages sample_end (phys_mem_end_paddr s1))"
    by (simp add: s1(2) total_pages_def k_ptov_def ROUND_UP_TO_def)
  moreover have "4096 * meta_pages 16127 < 2 * bitmap_bytes 16127 + 2 * bitmap_bytes 16128"
    by (simp add: meta_pages_def bitmap_bytes_def)
  ultimately show ?thesis
    using user_bitmaps_meet_root [OF s1(1) room s1(3), of 32255 16127 16128 latch "0x2000" cold_intr] by auto
qed

end
