(* ===== verification/Pit.thy ===== *)
theory Pit
  imports Interrupts
begin

text \<open>
  The programmable interval timer (\<^verbatim>\<open>src/kernel/drivers/pit.c\<close>): the rate it is programmed with
  and the registration of its handler, whose address is a parameter.
\<close>

section \<open>Definitions\<close>

abbreviation PIT_DATA_0 :: u16 where "PIT_DATA_0 \<equiv> 0x40"
abbreviation PIT_COMMAND :: u16 where "PIT_COMMAND \<equiv> 0x43"
abbreviation PIT_CHAN_SEL_0 :: u8 where "PIT_CHAN_SEL_0 \<equiv> 0x00"
abbreviation PIT_ACCESSMODE_LOHIBYTE :: u8 where "PIT_ACCESSMODE_LOHIBYTE \<equiv> 0x30"
abbreviation PIT_OPERATING_MODE_3 :: u8 where "PIT_OPERATING_MODE_3 \<equiv> 0x06"

definition PIT_INITIAL_FREQ :: nat where
  "PIT_INITIAL_FREQ = 1193180"

text \<open>The handler only logs, and logging is compiled out of the file.\<close>

definition timer_interrupt :: "addr \<Rightarrow> intr \<Rightarrow> intr outcome" where
  "timer_interrupt interrupt_frame s = Inr s"

definition intr_out :: "u16 \<Rightarrow> u8 \<Rightarrow> intr \<Rightarrow> intr" where
  "intr_out port val s = s\<lparr>ipic := pic_out port val (ipic s)\<rparr>"

definition pit_init :: "device \<Rightarrow> addr \<Rightarrow> u16 \<Rightarrow> intr \<Rightarrow> intr outcome" where
  "pit_init dev timer_handler timer_freq_hz s =
     ASSERT (\<not> interrupts_active s)
    (bindR (interrupts_register_handler dev 0x20 timer_handler s) (\<lambda>s.
       if timer_freq_hz = 0 then Inl Division_by_zero
       else let divisor = (of_nat (PIT_INITIAL_FREQ div unat timer_freq_hz) :: u16);
                s = intr_out PIT_COMMAND (PIT_CHAN_SEL_0 OR PIT_ACCESSMODE_LOHIBYTE OR PIT_OPERATING_MODE_3) s;
                s = intr_out PIT_DATA_0 (ucast (divisor AND 0xFF)) s;
                s = intr_out PIT_DATA_0 (ucast (drop_bit 8 divisor AND 0xFF)) s
            in Inr s))"

section \<open>Properties\<close>

lemma two_bytes: "unat (ucast (d AND 0xFF) :: u8) + 256 * unat (ucast (drop_bit 8 d AND 0xFF) :: u8) = unat (d :: u16)"
proof -
  have m: "(0xFF :: u16) = mask 8" by (simp add: mask_eq_exp_minus_1)
  have d: "unat d < 65536" using unsigned_less [of d] by simp
  have lo: "unat (ucast (d AND 0xFF) :: u8) = unat d mod 256"
    unfolding m take_bit_eq_mask [symmetric]
    by (simp add: unsigned_ucast_eq take_bit_eq_mod unat_mod)
  have "unat (ucast (drop_bit 8 d AND 0xFF) :: u8) = unat d div 256 mod 256"
    unfolding m take_bit_eq_mask [symmetric]
    by (simp add: unsigned_ucast_eq take_bit_eq_mod unat_mod drop_bit_eq_div unat_div)
  then show ?thesis using lo d by simp
qed

text \<open>C34: \<^verbatim>\<open>pit_init\<close> with interrupts off writes the command for channel 0, low then high byte,
  square wave, and then the low and the high byte of the divisor: the quotient of the input clock
  and the frequency, cut to 16 bits. From 19 Hz on nothing is cut and the timer runs at the rate
  nearest below; from 1 to 18 Hz the divisor does not fit and the rate is a much higher one; for 0 Hz
  the division traps.\<close>

theorem pit_init_programs_rate:
  assumes "\<not> i_active s" "interrupts_register_handler dev 0x20 h s = Inr s1"
  shows "if f = 0 then pit_init dev h f s = Inl Division_by_zero
    else \<exists>s2 lo hi. pit_init dev h f s = Inr s2 \<and> isr_handlers s2 = isr_handlers s1 \<and>
      pic_io (ipic s2) = pic_io (ipic s1) @ [Out PIT_COMMAND 0x36, Out PIT_DATA_0 lo, Out PIT_DATA_0 hi] \<and>
      unat lo + 256 * unat hi = (PIT_INITIAL_FREQ div unat f) mod 65536 \<and>
      (19 \<le> unat f \<longrightarrow> unat lo + 256 * unat hi = PIT_INITIAL_FREQ div unat f)"
proof (cases "f = 0")
  case True
  then show ?thesis using assms by (simp add: pit_init_def interrupts_active_def)
next
  case False
  let ?d = "of_nat (PIT_INITIAL_FREQ div unat f) :: u16"
  have "PIT_INITIAL_FREQ div unat f < 65536" if "19 \<le> unat f"
  proof -
    have "PIT_INITIAL_FREQ div unat f \<le> PIT_INITIAL_FREQ div 19" using that by (simp add: div_le_mono2)
    then show ?thesis by (simp add: PIT_INITIAL_FREQ_def)
  qed
  moreover have "unat ?d = (PIT_INITIAL_FREQ div unat f) mod 65536" by (simp add: unat_of_nat)
  ultimately show ?thesis
    using assms False two_bytes [of ?d]
    by (auto simp: pit_init_def interrupts_active_def Let_def intr_out_def pic_out_def outb_def)
qed

theorem pit_init_programs_rate_witness:
  "\<exists>s1. interrupts_register_handler latch 0x20 0x3000 (cold_intr\<lparr>i_active := False, ipic := fresh_pic\<rparr>) = Inr s1 \<and>
    (\<exists>s2 lo hi. pit_init latch 0x3000 100 (cold_intr\<lparr>i_active := False, ipic := fresh_pic\<rparr>) = Inr s2 \<and>
      pic_io (ipic s2) = pic_io (ipic s1) @ [Out PIT_COMMAND 0x36, Out PIT_DATA_0 lo, Out PIT_DATA_0 hi] \<and>
      unat lo + 256 * unat hi = 11931)"
proof -
  let ?s = "cold_intr\<lparr>i_active := False, ipic := fresh_pic\<rparr>"
  have "pic_vector_ok 0x20 fresh_pic" "vector_port 0x20 fresh_pic = MASTER_PIC_DATA"
    by (simp_all add: pic_vector_ok_def vector_port_def fresh_pic_facts)
  then obtain p where "pic_clear_mask latch 0x20 fresh_pic = Inr p"
    using mask_update(1) [OF fresh_pic_facts(3), of "0x20" latch "0xFF" MASTER_PIC_DATA] fresh_pic_facts by auto
  then obtain s1 where s1: "interrupts_register_handler latch 0x20 0x3000 ?s = Inr s1"
    by (simp add: interrupts_register_handler_def on_pic_def)
  have "\<not> i_active ?s" by simp
  from pit_init_programs_rate [OF this s1, of 100] s1 show ?thesis by (auto simp: PIT_INITIAL_FREQ_def)
qed

end
