(* ===== verification/Wdmalloc.thy ===== *)
theory Wdmalloc
  imports Kstring
begin

text \<open>
  The kernel heap of \<^verbatim>\<open>src/kernel/mem/wdmalloc.c\<close>. The headers live in the byte memory as the
  packed 12-byte structure does: \<^verbatim>\<open>prev_sz\<close> at offset 0, \<^verbatim>\<open>sz\<close> at 2, the link or
  magic at 4. The loops over the free list are partial functions: a cyclic list makes them run
  for ever.
  The invariant \<open>heap_inv\<close> relates memory to the sequence of blocks that tiles the heap and to
  the free list; every operation is described by what it does to that sequence.
\<close>

section \<open>Definitions\<close>

definition WDM_ALLOC_BIT :: u16 where
  "WDM_ALLOC_BIT = 0x8000"

definition WDM_MAGIC :: u64 where
  "WDM_MAGIC = 0xDEADBEEFBABECAFE"

abbreviation UINT16_MAX :: u16 where "UINT16_MAX \<equiv> 0xFFFF"

record wdm =
  freelist_head :: addr
  heap_start :: addr
  heap_size :: u16
  wmem :: memory

text \<open>The fields of \<^verbatim>\<open>struct wdmalloc_hdr\<close> at an address.\<close>

definition hdr_prev_sz :: "wdm \<Rightarrow> addr \<Rightarrow> u16" where
  "hdr_prev_sz w p = load16 (wmem w) p"

definition hdr_sz :: "wdm \<Rightarrow> addr \<Rightarrow> u16" where
  "hdr_sz w p = load16 (wmem w) (p + 2)"

definition hdr_lom :: "wdm \<Rightarrow> addr \<Rightarrow> u64" where
  "hdr_lom w p = load64 (wmem w) (p + 4)"

definition set_prev_sz :: "addr \<Rightarrow> u16 \<Rightarrow> wdm \<Rightarrow> wdm" where
  "set_prev_sz p v w = w\<lparr>wmem := store16 (wmem w) p v\<rparr>"

definition set_sz :: "addr \<Rightarrow> u16 \<Rightarrow> wdm \<Rightarrow> wdm" where
  "set_sz p v w = w\<lparr>wmem := store16 (wmem w) (p + 2) v\<rparr>"

definition set_lom :: "addr \<Rightarrow> u64 \<Rightarrow> wdm \<Rightarrow> wdm" where
  "set_lom p v w = w\<lparr>wmem := store64 (wmem w) (p + 4) v\<rparr>"

definition WDM_IS_FREE :: "wdm \<Rightarrow> addr \<Rightarrow> bool" where
  "WDM_IS_FREE w p \<longleftrightarrow> hdr_sz w p AND WDM_ALLOC_BIT = 0"

definition WDM_ACTUAL_SIZE :: "wdm \<Rightarrow> addr \<Rightarrow> u16" where
  "WDM_ACTUAL_SIZE w p = hdr_sz w p AND NOT WDM_ALLOC_BIT"

definition WDM_IN_HEAP :: "wdm \<Rightarrow> addr \<Rightarrow> bool" where
  "WDM_IN_HEAP w p \<longleftrightarrow> p < heap_start w + ucast (heap_size w) \<and> p \<ge> heap_start w"

text \<open>The guard most calls begin with.\<close>

definition heap_unusable :: "wdm \<Rightarrow> bool" where
  "heap_unusable w \<longleftrightarrow> freelist_head w = NULL \<or> heap_start w = NULL \<or> heap_size w = 0"

definition wdmalloc_init :: "addr \<Rightarrow> u16 \<Rightarrow> wdm \<Rightarrow> wdm outcome" where
  "wdmalloc_init start_addr sz w =
     ASSERT (sz > 12)
       (let w = w\<lparr>heap_start := start_addr\<rparr>;
            w = w\<lparr>heap_size := sz\<rparr>;
            w = w\<lparr>freelist_head := start_addr\<rparr>;
            w = set_prev_sz (freelist_head w) 0 w;
            w = set_sz (freelist_head w) (sz - 12) w;
            w = set_lom (freelist_head w) NULL w
        in Inr w)"

text \<open>The best-fit search; \<open>best\<close> is \<^verbatim>\<open>min\<close>, \<^verbatim>\<open>min_prev\<close>, \<^verbatim>\<open>min_sz\<close>.\<close>

partial_function (option) best_fit ::
  "wdm \<Rightarrow> u16 \<Rightarrow> addr \<Rightarrow> addr \<Rightarrow> addr \<times> addr \<times> u16 \<Rightarrow> (addr \<times> addr \<times> u16) option" where
  "best_fit w sz cur prev best =
     (if cur = NULL then Some best
      else best_fit w sz (hdr_lom w cur) cur
             (if WDM_IS_FREE w cur \<and> hdr_sz w cur \<ge> sz \<and> hdr_sz w cur < snd (snd best)
              then (cur, prev, hdr_sz w cur) else best))"

text \<open>A neighbour above a block learns the size of the block, when there is one.\<close>

definition fix_prev :: "addr \<Rightarrow> u16 \<Rightarrow> wdm \<Rightarrow> wdm" where
  "fix_prev p sz w = (if WDM_IN_HEAP w p then set_prev_sz p sz w else w)"

text \<open>The two ways to serve a request from the block found: its upper part, or all of it.\<close>

definition alloc_split :: "addr \<Rightarrow> u16 \<Rightarrow> wdm \<Rightarrow> addr \<times> wdm" where
  "alloc_split blk sz w =
     (let w = set_sz blk (hdr_sz w blk - sz - 12) w;
          new_alloc = blk + 12 + ucast (hdr_sz w blk);
          w = set_prev_sz new_alloc (hdr_sz w blk) w;
          w = set_sz new_alloc (sz OR WDM_ALLOC_BIT) w;
          w = set_lom new_alloc WDM_MAGIC w;
          new_alloc_adj = new_alloc + 12 + ucast sz;
          w = fix_prev new_alloc_adj sz w
      in (new_alloc + 12, w))"

definition alloc_whole :: "addr \<Rightarrow> addr \<Rightarrow> wdm \<Rightarrow> addr \<times> wdm" where
  "alloc_whole blk min_prev w =
     (let w = (if min_prev = NULL then w\<lparr>freelist_head := hdr_lom w (freelist_head w)\<rparr>
               else set_lom min_prev (hdr_lom w blk) w);
          w = set_lom blk WDM_MAGIC w;
          w = set_sz blk (hdr_sz w blk OR WDM_ALLOC_BIT) w
      in (blk + 12, w))"

definition wdmalloc :: "u16 \<Rightarrow> wdm \<Rightarrow> (addr \<times> wdm) outcome" where
  "wdmalloc sz w =
     (if heap_unusable w then Inr (NULL, w)
      else bindR (of_loop (best_fit w sz (freelist_head w) NULL (NULL, NULL, UINT16_MAX)))
        (\<lambda>(min, min_prev, min_sz).
         if min = NULL \<or> min_sz = UINT16_MAX then Inr (NULL, w)
         else if hdr_sz w min > sz \<and> hdr_sz w min - sz \<ge> 12 then Inr (alloc_split min sz w)
         else Inr (alloc_whole min min_prev w)))"

definition wdcalloc :: "u64 \<Rightarrow> u16 \<Rightarrow> wdm \<Rightarrow> (addr \<times> wdm) outcome" where
  "wdcalloc num sz w =
     (if heap_unusable w then Inr (NULL, w)
      else if num * ucast sz > ucast UINT16_MAX then Inr (NULL, w)
      else wdmalloc (ucast (num * ucast sz)) w)"

text \<open>The search of \<^verbatim>\<open>coalesce\<close> for a block in the free list: it returns \<^verbatim>\<open>curr\<close> and \<^verbatim>\<open>prev\<close>.\<close>

partial_function (option) find_link :: "wdm \<Rightarrow> addr \<Rightarrow> addr \<Rightarrow> addr \<Rightarrow> (addr \<times> addr) option" where
  "find_link w target cur prev =
     (if cur \<noteq> target \<and> cur \<noteq> NULL then find_link w target (hdr_lom w cur) cur
      else Some (cur, prev))"

text \<open>The neighbours of a block, NULL where the heap ends.\<close>

definition prev_neighbour :: "addr \<Rightarrow> wdm \<Rightarrow> addr" where
  "prev_neighbour hdr w =
     (let p = hdr - ucast (hdr_prev_sz w hdr) - 12 in if WDM_IN_HEAP w p then p else NULL)"

definition next_neighbour :: "addr \<Rightarrow> wdm \<Rightarrow> addr" where
  "next_neighbour hdr w =
     (let p = hdr + 12 + ucast (WDM_ACTUAL_SIZE w hdr) in if WDM_IN_HEAP w p then p else NULL)"

definition next_next_neighbour :: "addr \<Rightarrow> wdm \<Rightarrow> addr" where
  "next_next_neighbour nxt w =
     (let p = (if nxt \<noteq> NULL then nxt + 12 + ucast (WDM_ACTUAL_SIZE w nxt) else NULL)
      in if WDM_IN_HEAP w p then p else NULL)"

text \<open>The link to a block: in the header before it in the free list, or in the head.\<close>

definition relink :: "addr \<Rightarrow> addr \<Rightarrow> wdm \<Rightarrow> wdm" where
  "relink prv v w = (if prv \<noteq> NULL then set_lom prv v w else w\<lparr>freelist_head := v\<rparr>)"

definition set_prev_sz_if :: "addr \<Rightarrow> u16 \<Rightarrow> wdm \<Rightarrow> wdm" where
  "set_prev_sz_if p v w = (if p \<noteq> NULL then set_prev_sz p v w else w)"

text \<open>The four cases of \<^verbatim>\<open>coalesce\<close>.\<close>

definition merge_both :: "addr \<Rightarrow> addr \<Rightarrow> addr \<Rightarrow> addr \<Rightarrow> wdm \<Rightarrow> wdm outcome" where
  "merge_both prv hdr nxt nn w =
     (let w = set_sz prv (hdr_sz w prv + (12 + hdr_sz w hdr + 12 + hdr_sz w nxt)) w
      in bindR (of_loop (find_link w nxt (freelist_head w) NULL)) (\<lambda>(cur, prev).
           ASSERT (cur = nxt)
           (let w = relink prev (hdr_lom w nxt) w;
                w = set_prev_sz_if nn (hdr_sz w prv) w
            in Inr w)))"

definition merge_prev :: "addr \<Rightarrow> addr \<Rightarrow> addr \<Rightarrow> wdm \<Rightarrow> wdm outcome" where
  "merge_prev prv hdr nxt w =
     (let w = set_sz prv (hdr_sz w prv + (12 + hdr_sz w hdr)) w;
          w = set_prev_sz_if nxt (hdr_sz w prv) w
      in Inr w)"

definition merge_next :: "addr \<Rightarrow> addr \<Rightarrow> addr \<Rightarrow> wdm \<Rightarrow> wdm outcome" where
  "merge_next hdr nxt nn w =
     (let w = set_sz hdr (hdr_sz w hdr + (12 + hdr_sz w nxt)) w;
          w = (if hdr_lom w nxt \<noteq> NULL then set_lom hdr (hdr_lom w nxt) w else set_lom hdr NULL w)
      in bindR (of_loop (find_link w nxt (freelist_head w) NULL)) (\<lambda>(cur, prev).
           ASSERT (cur = nxt)
           (let w = relink prev hdr w;
                w = set_prev_sz_if nn (hdr_sz w hdr) w
            in Inr w)))"

definition merge_none :: "addr \<Rightarrow> wdm \<Rightarrow> wdm outcome" where
  "merge_none hdr w =
     (let tmp = freelist_head w;
          w = w\<lparr>freelist_head := hdr\<rparr>;
          w = set_lom hdr tmp w
      in Inr w)"

definition coalesce :: "addr \<Rightarrow> wdm \<Rightarrow> wdm outcome" where
  "coalesce hdr w =
     (let prv = prev_neighbour hdr w;
          nxt = next_neighbour hdr w;
          nn = next_next_neighbour nxt w
      in if prv \<noteq> NULL \<and> WDM_IS_FREE w prv \<and> nxt \<noteq> NULL \<and> WDM_IS_FREE w nxt
         then merge_both prv hdr nxt nn w
         else if prv \<noteq> NULL \<and> WDM_IS_FREE w prv then merge_prev prv hdr nxt w
         else if nxt \<noteq> NULL \<and> WDM_IS_FREE w nxt then merge_next hdr nxt nn w
         else merge_none hdr w)"

definition wdfree :: "addr \<Rightarrow> wdm \<Rightarrow> wdm outcome" where
  "wdfree ptr w =
     (if heap_unusable w then Inr w
      else if \<not> WDM_IN_HEAP w ptr then Inr w
      else let hdr = ptr - 12 in
        if \<not> WDM_IN_HEAP w hdr then Inr w
        else let w = set_sz hdr (hdr_sz w hdr AND NOT WDM_ALLOC_BIT) w;
                 w = set_lom hdr 0 w
             in coalesce hdr w)"

text \<open>The loop of \<^verbatim>\<open>wdrealloc\<close> that takes one or two blocks out of the free list.\<close>

partial_function (option) unlink_loop :: "addr \<Rightarrow> addr \<Rightarrow> addr \<Rightarrow> addr \<Rightarrow> wdm \<Rightarrow> wdm option" where
  "unlink_loop r0 r1 cur prev w =
     (if cur = NULL then Some w
      else if cur = r0 \<or> cur = r1 then
        (let w = (if prev \<noteq> NULL then set_lom prev (hdr_lom w cur) w else w);
             w = (if cur = freelist_head w then w\<lparr>freelist_head := hdr_lom w cur\<rparr> else w)
         in unlink_loop r0 r1 (hdr_lom w cur) prev w)
      else unlink_loop r0 r1 (hdr_lom w cur) cur w)"

definition wmemmove :: "addr \<Rightarrow> addr \<Rightarrow> u16 \<Rightarrow> wdm \<Rightarrow> wdm" where
  "wmemmove d s n w = w\<lparr>wmem := memmove (wmem w) d s (ucast n)\<rparr>"

text \<open>
  The three local scenarios of a growing \<^verbatim>\<open>wdrealloc\<close>: the bytes available, the start of the
  new block and the two blocks to unlink. The sums are compared at 64 bits and then stored in 16.
\<close>

definition realloc_plan :: "addr \<Rightarrow> u16 \<Rightarrow> wdm \<Rightarrow> (u16 \<times> addr \<times> addr \<times> addr) option" where
  "realloc_plan hdr sz w =
     (let prev_nghbr = prev_neighbour hdr w;
          next_nghbr = next_neighbour hdr w;
          with_next = (ucast (hdr_sz w next_nghbr) + 12 + ucast (WDM_ACTUAL_SIZE w hdr) :: u64);
          with_prev = (ucast (hdr_sz w prev_nghbr) + 12 + ucast (WDM_ACTUAL_SIZE w hdr) :: u64);
          with_both = (ucast (hdr_sz w prev_nghbr) + 12 + ucast (WDM_ACTUAL_SIZE w hdr) + 12
                       + ucast (hdr_sz w next_nghbr) :: u64)
      in if next_nghbr \<noteq> NULL \<and> WDM_IS_FREE w next_nghbr \<and> with_next \<ge> ucast sz
         then Some (ucast with_next, hdr, next_nghbr, NULL)
         else if prev_nghbr \<noteq> NULL \<and> WDM_IS_FREE w prev_nghbr \<and> with_prev \<ge> ucast sz
         then Some (ucast with_prev, prev_nghbr, prev_nghbr, NULL)
         else if next_nghbr \<noteq> NULL \<and> prev_nghbr \<noteq> NULL \<and> WDM_IS_FREE w next_nghbr \<and>
                 WDM_IS_FREE w prev_nghbr \<and> with_both \<ge> ucast sz
         then Some (ucast with_both, prev_nghbr, prev_nghbr, next_nghbr)
         else None)"

text \<open>The rest of the local case, once the blocks are unlinked.\<close>

definition realloc_place :: "addr \<Rightarrow> addr \<Rightarrow> addr \<Rightarrow> u16 \<Rightarrow> u16 \<Rightarrow> wdm \<Rightarrow> addr \<times> wdm" where
  "realloc_place start hdr ptr bytes_avail sz w =
     (if (ucast bytes_avail - ucast sz :: u64) \<ge> 12 + 4 then
        (let w = set_sz start (sz OR WDM_ALLOC_BIT) w;
             w = set_lom start WDM_MAGIC w;
             w = wmemmove (start + 12) ptr (WDM_ACTUAL_SIZE w hdr) w;
             split_loc = start + 12 + ucast sz;
             w = set_sz split_loc (bytes_avail - sz - 12) w;
             w = set_prev_sz split_loc sz w;
             w = set_lom split_loc (freelist_head w) w;
             w = w\<lparr>freelist_head := split_loc\<rparr>;
             after_split = split_loc + 12 + ucast (hdr_sz w split_loc);
             w = fix_prev after_split (hdr_sz w split_loc) w
         in (start + 12, w))
      else
        (let w = set_sz start (bytes_avail OR WDM_ALLOC_BIT) w;
             w = set_lom start WDM_MAGIC w;
             after = start + 12 + ucast (WDM_ACTUAL_SIZE w start);
             w = fix_prev after bytes_avail w;
             w = wmemmove (start + 12) ptr (WDM_ACTUAL_SIZE w hdr) w
         in (start + 12, w)))"

definition wdrealloc :: "addr \<Rightarrow> u16 \<Rightarrow> wdm \<Rightarrow> (addr \<times> wdm) outcome" where
  "wdrealloc ptr sz w =
     (if heap_unusable w then Inr (NULL, w)
      else if ptr = NULL then wdmalloc sz w
      else let hdr = ptr - 12 in
        if sz = WDM_ACTUAL_SIZE w hdr then Inr (ptr, w)
        else if sz > WDM_ACTUAL_SIZE w hdr then
          (case realloc_plan hdr sz w of
             Some (bytes_avail, start, r0, r1) \<Rightarrow>
               bindR (of_loop (unlink_loop r0 r1 (freelist_head w) NULL w)) (\<lambda>w.
                 Inr (realloc_place start hdr ptr bytes_avail sz w))
           | None \<Rightarrow>
               bindR (wdmalloc sz w) (\<lambda>(new_loc, w).
                 if new_loc = NULL then Inr (NULL, w)
                 else let w = wmemmove new_loc ptr (WDM_ACTUAL_SIZE w hdr) w
                      in bindR (wdfree ptr w) (\<lambda>w. Inr (new_loc, w))))
        else if sz = 0 then bindR (wdfree ptr w) (\<lambda>w. Inr (NULL, w))
        else let bytes_avail = WDM_ACTUAL_SIZE w hdr in
          if (ucast bytes_avail - ucast sz :: u64) \<ge> 12 + 4 then
            (let w = set_sz hdr (sz OR WDM_ALLOC_BIT) w;
                 split_loc = hdr + 12 + ucast sz;
                 w = set_prev_sz split_loc sz w;
                 w = set_sz split_loc (bytes_avail - 12 - sz) w;
                 w = set_lom split_loc 0 w
             in bindR (coalesce split_loc w) (\<lambda>w.
                  let after_split = split_loc + 12 + ucast (hdr_sz w split_loc);
                      w = fix_prev after_split (hdr_sz w split_loc) w
                  in Inr (ptr, w)))
          else Inr (ptr, w))"

section \<open>Header accesses\<close>

text \<open>Facts that reduce a read of one header after writes to the same or to other headers.\<close>

named_theorems hdr_simps

lemma hdr_globals [simp]:
  "freelist_head (set_prev_sz p v16 w) = freelist_head w" "heap_start (set_prev_sz p v16 w) = heap_start w"
  "heap_size (set_prev_sz p v16 w) = heap_size w"
  "freelist_head (set_sz p v16 w) = freelist_head w" "heap_start (set_sz p v16 w) = heap_start w"
  "heap_size (set_sz p v16 w) = heap_size w"
  "freelist_head (set_lom p v64 w) = freelist_head w" "heap_start (set_lom p v64 w) = heap_start w"
  "heap_size (set_lom p v64 w) = heap_size w"
  by (simp_all add: set_prev_sz_def set_sz_def set_lom_def)

lemma hdr_freelist_update [simp]:
  "hdr_prev_sz (w\<lparr>freelist_head := h\<rparr>) p = hdr_prev_sz w p"
  "hdr_sz (w\<lparr>freelist_head := h\<rparr>) p = hdr_sz w p"
  "hdr_lom (w\<lparr>freelist_head := h\<rparr>) p = hdr_lom w p"
  by (simp_all add: hdr_prev_sz_def hdr_sz_def hdr_lom_def)

lemmas hdr_access_defs = hdr_prev_sz_def hdr_sz_def hdr_lom_def set_prev_sz_def set_sz_def set_lom_def
  load16_def load64_def store16_def store64_def

lemma hdr_same [simp]:
  "hdr_prev_sz (set_prev_sz p v16 w) p = v16"
  "hdr_sz (set_sz p v16 w) p = v16"
  "hdr_lom (set_lom p v64 w) p = v64"
  by (simp_all add: hdr_access_defs load_store_same)

lemma hdr_cross [simp]:
  "hdr_prev_sz (set_sz p v16 w) p = hdr_prev_sz w p"
  "hdr_prev_sz (set_lom p v64 w) p = hdr_prev_sz w p"
  "hdr_sz (set_prev_sz p v16 w) p = hdr_sz w p"
  "hdr_sz (set_lom p v64 w) p = hdr_sz w p"
  "hdr_lom (set_prev_sz p v16 w) p = hdr_lom w p"
  "hdr_lom (set_sz p v16 w) p = hdr_lom w p"
  using load_store_offsets [of 2 2 0 2 "wmem w" p v16] load_store_offsets [of 4 8 0 2 "wmem w" p v64]
    load_store_offsets [of 0 2 2 2 "wmem w" p v16] load_store_offsets [of 4 8 2 2 "wmem w" p v64]
    load_store_offsets [of 0 2 4 8 "wmem w" p v16] load_store_offsets [of 2 2 4 8 "wmem w" p v16]
  by (simp_all add: hdr_access_defs)

text \<open>Two headers that do not overlap.\<close>

definition sep :: "addr \<Rightarrow> addr \<Rightarrow> bool" where
  "sep p q \<longleftrightarrow> 12 \<le> unat (p - q) \<and> 12 \<le> unat (q - p)"

lemma sep_sym: "sep p q \<longleftrightarrow> sep q p"
  by (auto simp: sep_def)

lemma sep_bytes:
  assumes "sep p q" "unat (x - q) < 12"
  shows "\<not> unat (x - p) < 12"
proof -
  have ne: "p - q \<noteq> 0" using assms(1) by (auto simp: sep_def)
  have "q - p = 0 - (p - q)" by simp
  moreover have "unat (0 - (p - q)) = 2 ^ 64 - unat (p - q)"
    using ne unat_sub_if' [of 0 "p - q"] by (simp add: unat_gt_0)
  ultimately have "unat (q - p) = 2 ^ 64 - unat (p - q)" by (simp only:)
  moreover have "12 \<le> unat (p - q)" using assms by (simp add: sep_def)
  ultimately have "unat (x - q) + unat (q - p) < 2 ^ 64"
    using assms(2) unat_u64_less [of "p - q"] by simp
  then have "unat (x - p) = unat (x - q) + unat (q - p)"
    using unat_add_lem [of "x - q" "q - p"] by simp
  then show ?thesis using assms by (simp add: sep_def)
qed

lemma wmem_set_outside:
  assumes "\<not> unat (x - p) < 12"
  shows "wmem (set_prev_sz p v16 w) x = wmem w x" "wmem (set_sz p v16 w) x = wmem w x"
    "wmem (set_lom p v64 w) x = wmem w x"
  using store_le_offset_outside [OF _ _ assms, of 0 2 "wmem w" v16]
    store_le_offset_outside [OF _ _ assms, of 2 2 "wmem w" v16]
    store_le_offset_outside [OF _ _ assms, of 4 8 "wmem w" v64]
  by (simp_all add: hdr_access_defs)

lemma hdr_cong:
  assumes "\<And>x. unat (x - p) < 12 \<Longrightarrow> wmem w' x = wmem w x"
  shows "hdr_prev_sz w' p = hdr_prev_sz w p" "hdr_sz w' p = hdr_sz w p" "hdr_lom w' p = hdr_lom w p"
proof -
  have eq: "wmem w' (p + of_nat j + of_nat i) = wmem w (p + of_nat j + of_nat i)" if "j + i < 12" for i j
  proof (rule assms)
    have "p + of_nat j + of_nat i - p = of_nat (j + i)" by simp
    moreover have "unat (of_nat (j + i) :: u64) = j + i" by (rule unat_of_nat_u64) (use that in simp)
    ultimately show "unat (p + of_nat j + of_nat i - p) < 12" using that by (simp only:)
  qed
  have "load_le n (wmem w') (p + of_nat j) = (load_le n (wmem w) (p + of_nat j) :: 'a::len word)"
    if "j + n \<le> 12" for n j using that by (intro load_le_cong eq) simp
  from this [of 0 2] this [of 2 2] this [of 4 8]
  show "hdr_prev_sz w' p = hdr_prev_sz w p" "hdr_sz w' p = hdr_sz w p" "hdr_lom w' p = hdr_lom w p"
    by (simp_all add: hdr_access_defs)
qed

lemma hdr_sep [hdr_simps]:
  assumes "sep p q"
  shows "hdr_prev_sz (set_prev_sz p v16 w) q = hdr_prev_sz w q"
    "hdr_prev_sz (set_sz p v16 w) q = hdr_prev_sz w q"
    "hdr_prev_sz (set_lom p v64 w) q = hdr_prev_sz w q"
    "hdr_sz (set_prev_sz p v16 w) q = hdr_sz w q"
    "hdr_sz (set_sz p v16 w) q = hdr_sz w q"
    "hdr_sz (set_lom p v64 w) q = hdr_sz w q"
    "hdr_lom (set_prev_sz p v16 w) q = hdr_lom w q"
    "hdr_lom (set_sz p v16 w) q = hdr_lom w q"
    "hdr_lom (set_lom p v64 w) q = hdr_lom w q"
  by (rule hdr_cong, rule wmem_set_outside, erule sep_bytes [OF assms])+

section \<open>The heap as a sequence of blocks\<close>

text \<open>
  A block is its payload size and whether it is free. Addresses of the abstraction are natural
  numbers, so that the layout is linear arithmetic; \<open>ad\<close> gives the machine address.
\<close>

type_synonym blk = "nat \<times> bool"

definition ad :: "nat \<Rightarrow> addr" where
  "ad n = of_nat n"

primrec span :: "blk list \<Rightarrow> nat" where
  "span [] = 0"
| "span (b # bs) = 12 + fst b + span bs"

definition lastsz :: "nat \<Rightarrow> blk list \<Rightarrow> nat" where
  "lastsz p bs = (if bs = [] then p else fst (last bs))"

primrec frees :: "nat \<Rightarrow> blk list \<Rightarrow> nat list" where
  "frees a [] = []"
| "frees a (b # bs) = (if snd b then [a] else []) @ frees (a + 12 + fst b) bs"

primrec hdrs :: "nat \<Rightarrow> blk list \<Rightarrow> nat list" where
  "hdrs a [] = []"
| "hdrs a (b # bs) = a # hdrs (a + 12 + fst b) bs"

text \<open>The payloads handed out: start and length.\<close>

primrec used :: "nat \<Rightarrow> blk list \<Rightarrow> (nat \<times> nat) list" where
  "used a [] = []"
| "used a (b # bs) = (if snd b then [] else [(a + 12, fst b)]) @ used (a + 12 + fst b) bs"

text \<open>The sizes in the headers from address \<open>a\<close> on describe the blocks \<open>bs\<close>; \<open>p\<close> is the size
  of the block before them.\<close>

primrec chain :: "wdm \<Rightarrow> nat \<Rightarrow> nat \<Rightarrow> blk list \<Rightarrow> bool" where
  "chain w a p [] = True"
| "chain w a p (b # bs) \<longleftrightarrow> hdr_prev_sz w (ad a) = of_nat p \<and>
     hdr_sz w (ad a) = of_nat (fst b) OR (if snd b then 0 else WDM_ALLOC_BIT) \<and>
     chain w (a + 12 + fst b) (fst b) bs"

primrec flinks :: "wdm \<Rightarrow> addr \<Rightarrow> nat list \<Rightarrow> bool" where
  "flinks w p [] \<longleftrightarrow> p = NULL"
| "flinks w p (x # xs) \<longleftrightarrow> p = ad x \<and> flinks w (hdr_lom w (ad x)) xs"

text \<open>The heap is small enough for every block size to stay clear of the allocation bit.\<close>

definition heap_bounds :: "wdm \<Rightarrow> blk list \<Rightarrow> bool" where
  "heap_bounds w bs \<longleftrightarrow> heap_start w \<noteq> NULL \<and> span bs = unat (heap_size w) \<and>
     unat (heap_start w) + span bs < 2 ^ 64 \<and> span bs < 2 ^ 15 + 12"

definition heap_inv :: "wdm \<Rightarrow> blk list \<Rightarrow> nat list \<Rightarrow> bool" where
  "heap_inv w bs fl \<longleftrightarrow> heap_bounds w bs \<and> chain w (unat (heap_start w)) 0 bs \<and>
     flinks w (freelist_head w) fl \<and> distinct fl \<and> set fl = set (frees (unat (heap_start w)) bs)"

lemma span_append [simp]: "span (xs @ ys) = span xs + span ys"
  by (induction xs) auto

lemma lastsz_simps [simp]:
  "lastsz p [] = p" "lastsz p (b # bs) = lastsz (fst b) bs" "lastsz p (xs @ ys) = lastsz (lastsz p xs) ys"
  by (auto simp: lastsz_def)

lemma chain_append [simp]:
  "chain w a p (xs @ ys) \<longleftrightarrow> chain w a p xs \<and> chain w (a + span xs) (lastsz p xs) ys"
  by (induction xs arbitrary: a p) (auto simp: add.assoc)

lemma frees_append [simp]: "frees a (xs @ ys) = frees a xs @ frees (a + span xs) ys"
  by (induction xs arbitrary: a) (auto simp: add.assoc)

lemma hdrs_append [simp]: "hdrs a (xs @ ys) = hdrs a xs @ hdrs (a + span xs) ys"
  by (induction xs arbitrary: a) (auto simp: add.assoc)

lemma hdrs_bounds: "x \<in> set (hdrs a bs) \<Longrightarrow> a \<le> x \<and> x + 12 \<le> a + span bs"
  by (induction bs arbitrary: a) fastforce+

lemma frees_hdrs: "x \<in> set (frees a bs) \<Longrightarrow> x \<in> set (hdrs a bs)"
  by (induction bs arbitrary: a) (auto split: if_splits)

lemma used_append [simp]: "used a (xs @ ys) = used a xs @ used (a + span xs) ys"
  by (induction xs arbitrary: a) (auto simp: add.assoc)

lemma frees_bounds: "x \<in> set (frees a bs) \<Longrightarrow> a \<le> x \<and> x + 12 \<le> a + span bs"
  by (induction bs arbitrary: a) (auto split: if_splits, fastforce+)

lemma distinct_frees: "distinct (frees a bs)"
  by (induction bs arbitrary: a) (auto dest: frees_bounds)

lemma frees_split:
  assumes "x \<in> set (frees a bs)"
  obtains xs s ys where "bs = xs @ (s, True) # ys" "x = a + span xs"
  using assms
proof (induction bs arbitrary: a thesis)
  case (Cons b bs)
  show ?case
  proof (cases "x \<in> set (frees (a + 12 + fst b) bs)")
    case True
    from Cons.IH [OF _ True] obtain xs s ys
      where "bs = xs @ (s, True) # ys" "x = a + 12 + fst b + span xs" by metis
    then show ?thesis using Cons.prems(1) [of "b # xs" s ys] by simp
  next
    case False
    then have "snd b" "x = a" using Cons.prems(2) by (auto split: if_splits)
    then show ?thesis using Cons.prems(1) [of "[]" "fst b" bs] by (cases b) simp
  qed
qed simp

section \<open>Framing\<close>

text \<open>Headers at natural addresses that do not overlap.\<close>

definition apart :: "nat \<Rightarrow> nat \<Rightarrow> bool" where
  "apart x y \<longleftrightarrow> (x + 12 \<le> y \<or> y + 12 \<le> x) \<and> x + 12 \<le> 2 ^ 64 \<and> y + 12 \<le> 2 ^ 64"

lemma apart_sep: "apart x y \<Longrightarrow> sep (ad x) (ad y)"
  using unat_of_nat_diff [of x y 12 0] unat_of_nat_diff [of y x 12 0]
  by (auto simp: apart_def sep_def not_less ad_def)

lemmas hdr_apart [hdr_simps] = hdr_sep [OF apart_sep]

lemma hdrs_apart:
  assumes "x \<in> set (hdrs a bs)" "y \<in> set (hdrs a bs)" "a + span bs \<le> 2 ^ 64"
  shows "x = y \<or> apart x y"
  using assms
proof (induction bs arbitrary: a)
  case (Cons b bs)
  then show ?case
    using hdrs_bounds [of x "a + 12 + fst b" bs] hdrs_bounds [of y "a + 12 + fst b" bs]
    by (auto simp: apart_def)
qed simp

text \<open>Size fields never change a link, nor a link a size field.\<close>

lemma hdr_field_frame [hdr_simps]:
  assumes "x = y \<or> apart x y"
  shows "hdr_lom (set_sz (ad x) v16 w) (ad y) = hdr_lom w (ad y)"
    "hdr_lom (set_prev_sz (ad x) v16 w) (ad y) = hdr_lom w (ad y)"
    "hdr_sz (set_lom (ad x) v64 w) (ad y) = hdr_sz w (ad y)"
    "hdr_sz (set_prev_sz (ad x) v16 w) (ad y) = hdr_sz w (ad y)"
    "hdr_prev_sz (set_lom (ad x) v64 w) (ad y) = hdr_prev_sz w (ad y)"
    "hdr_prev_sz (set_sz (ad x) v16 w) (ad y) = hdr_prev_sz w (ad y)"
  using assms by (auto simp: hdr_sep apart_sep)

lemma flinks_cong: "(\<And>x. x \<in> set fl \<Longrightarrow> hdr_lom w' (ad x) = hdr_lom w (ad x)) \<Longrightarrow> flinks w' p fl = flinks w p fl"
  by (induction fl arbitrary: p) auto

lemma chain_outside_all:
  assumes "x + 12 \<le> a \<or> a + span bs \<le> x" "x + 12 \<le> 2 ^ 64" "a + span bs \<le> 2 ^ 64"
  shows "chain (set_prev_sz (ad x) v16 w) a p bs = chain w a p bs \<and>
    chain (set_sz (ad x) v16 w) a p bs = chain w a p bs \<and>
    chain (set_lom (ad x) v64 w) a p bs = chain w a p bs"
  using assms
proof (induction bs arbitrary: a p)
  case (Cons b bs)
  have "apart x a" using Cons.prems by (auto simp: apart_def)
  moreover have "x + 12 \<le> a + 12 + fst b \<or> a + 12 + fst b + span bs \<le> x"
    "a + 12 + fst b + span bs \<le> 2 ^ 64" using Cons.prems by auto
  ultimately show ?case
    using Cons.IH [of "a + 12 + fst b" "fst b"] Cons.prems(2) by (simp add: hdr_simps)
qed simp

lemmas chain_outside =
  chain_outside_all [THEN conjunct1] chain_outside_all [THEN conjunct2, THEN conjunct1]
  chain_outside_all [THEN conjunct2, THEN conjunct2]

lemma chain_set_lom_frees:
  assumes "x \<in> set (frees a bs)" "a + span bs \<le> 2 ^ 64"
  shows "chain (set_lom (ad x) v w) a p bs = chain w a p bs"
proof -
  obtain xs s ys where "bs = xs @ (s, True) # ys" "x = a + span xs" using frees_split [OF assms(1)] .
  then show ?thesis using assms(2) by (simp add: chain_outside)
qed

lemma chain_freelist_update [simp]: "chain (w\<lparr>freelist_head := h\<rparr>) a p bs = chain w a p bs"
  by (induction bs arbitrary: a p) auto

lemma flinks_freelist_update [simp]: "flinks (w\<lparr>freelist_head := h\<rparr>) p fl = flinks w p fl"
  by (rule flinks_cong) simp

section \<open>Addresses and size fields\<close>

lemma ad_inj: "x < 2 ^ 64 \<Longrightarrow> y < 2 ^ 64 \<Longrightarrow> ad x = ad y \<longleftrightarrow> x = y"
  unfolding ad_def by (rule of_nat_u64_inj)

lemma ad_NULL: "x < 2 ^ 64 \<Longrightarrow> ad x = NULL \<longleftrightarrow> x = 0"
  using ad_inj [of x 0] by (simp add: ad_def)

lemma ad_plus_12: "ad x + 12 = ad (x + 12)"
  by (simp add: ad_def)

lemma ucast_of_nat_u16: "s < 2 ^ 16 \<Longrightarrow> (ucast (of_nat s :: u16) :: u64) = of_nat s"
  by (simp add: word_unat_eq_iff unsigned_ucast_eq unsigned_of_nat take_bit_nat_eq_self)

lemma ad_plus_size: "s < 2 ^ 16 \<Longrightarrow> ad x + ucast (of_nat s :: u16) = ad (x + s)"
  by (simp add: ad_def ucast_of_nat_u16)

lemma ad_heap_start [simp]: "ad (unat (heap_start w)) = heap_start w"
  by (simp add: ad_def)

lemma unat_ucast_u16 [simp]: "unat (ucast (x :: u16) :: u64) = unat x"
proof -
  have "unat x < 2 ^ 16" using unsigned_less [of x] by simp
  then show ?thesis by (simp add: unsigned_ucast_eq take_bit_nat_eq_self)
qed

lemma in_heap_ad:
  assumes "heap_bounds w bs" "x < 2 ^ 64"
  shows "WDM_IN_HEAP w (ad x) \<longleftrightarrow> unat (heap_start w) \<le> x \<and> x < unat (heap_start w) + span bs"
proof -
  have x: "unat (ad x) = x" unfolding ad_def using assms(2) by (rule unat_of_nat_u64)
  have "unat (heap_start w) + unat (ucast (heap_size w) :: u64) < 2 ^ 64"
    using assms(1) by (simp add: heap_bounds_def)
  then have "unat (heap_start w + ucast (heap_size w)) = unat (heap_start w) + span bs"
    using assms(1) unat_add_lem [of "heap_start w" "ucast (heap_size w)"] by (simp add: heap_bounds_def)
  then show ?thesis
    by (auto simp: WDM_IN_HEAP_def word_less_nat_alt word_le_nat_alt x)
qed

lemma alloc_bit_facts:
  assumes "s < 2 ^ 15"
  shows "(of_nat s :: u16) AND WDM_ALLOC_BIT = 0"
    "(of_nat s OR WDM_ALLOC_BIT :: u16) AND WDM_ALLOC_BIT \<noteq> 0"
    "(of_nat s OR WDM_ALLOC_BIT :: u16) AND NOT WDM_ALLOC_BIT = of_nat s"
    "(of_nat s :: u16) AND NOT WDM_ALLOC_BIT = of_nat s"
proof -
  have b: "bit WDM_ALLOC_BIT n \<longleftrightarrow> n = 15" for n
  proof -
    have eq: "WDM_ALLOC_BIT = push_bit 15 1" by (simp add: WDM_ALLOC_BIT_def)
    show ?thesis unfolding eq bit_push_bit_iff by (auto simp: bit_1_iff)
  qed
  have n: "\<not> bit (of_nat s :: u16) 15"
  proof -
    have "unat (of_nat s :: u16) = s" using assms by (simp add: unat_of_nat)
    then have "(of_nat s :: u16) div 2 ^ 15 = 0" using assms by (simp add: word_unat_eq_iff unat_div)
    then show ?thesis by (simp add: bit_iff_odd)
  qed
  show "(of_nat s :: u16) AND WDM_ALLOC_BIT = 0"
    by (rule bit_word_eqI) (use n in \<open>auto simp: bit_and_iff b\<close>)
  have "bit ((of_nat s OR WDM_ALLOC_BIT) AND WDM_ALLOC_BIT) 15" by (simp add: bit_and_iff bit_or_iff b)
  then show "(of_nat s OR WDM_ALLOC_BIT :: u16) AND WDM_ALLOC_BIT \<noteq> 0" by (metis bit_0_eq bot_apply bot_bool_def)
  show "(of_nat s OR WDM_ALLOC_BIT :: u16) AND NOT WDM_ALLOC_BIT = of_nat s"
    by (rule bit_word_eqI) (use n in \<open>auto simp: bit_and_iff bit_or_iff bit_not_iff b\<close>)
  show "(of_nat s :: u16) AND NOT WDM_ALLOC_BIT = of_nat s"
    by (rule bit_word_eqI) (use n in \<open>auto simp: bit_and_iff bit_not_iff b\<close>)
qed

lemma alloc_bit_nonzero: "WDM_ALLOC_BIT \<noteq> 0"
  by (simp add: WDM_ALLOC_BIT_def)

lemma u16_of_nat_simps:
  assumes "s < 2 ^ 16" "t < 2 ^ 16"
  shows "unat (of_nat s :: u16) = s" "(of_nat s :: u16) \<le> of_nat t \<longleftrightarrow> s \<le> t"
    "(of_nat s :: u16) < of_nat t \<longleftrightarrow> s < t"
proof -
  have *: "unat (of_nat r :: u16) = r" if "r < 2 ^ 16" for r using that by (simp add: unat_of_nat)
  show "unat (of_nat s :: u16) = s" "(of_nat s :: u16) \<le> of_nat t \<longleftrightarrow> s \<le> t"
    "(of_nat s :: u16) < of_nat t \<longleftrightarrow> s < t"
    using assms by (simp_all only: word_le_nat_alt word_less_nat_alt *)
qed

text \<open>What the size field of a block in the chain says.\<close>

lemma chain_block:
  assumes "chain w a p ((s, f) # bs)" "s < 2 ^ 15"
  shows "WDM_IS_FREE w (ad a) \<longleftrightarrow> f" "WDM_ACTUAL_SIZE w (ad a) = of_nat s"
    "f \<Longrightarrow> hdr_sz w (ad a) = of_nat s" "hdr_prev_sz w (ad a) = of_nat p"
  using assms by (auto simp: WDM_IS_FREE_def WDM_ACTUAL_SIZE_def alloc_bit_facts alloc_bit_nonzero)

section \<open>Walking the free list\<close>

lemma flinks_append: "flinks w p (us @ x # vs) \<Longrightarrow> flinks w (hdr_lom w (ad x)) vs"
  by (induction us arbitrary: p) auto

text \<open>
  What the search may return when it starts from \<open>best\<close>: \<open>best\<close> itself when no block beats it, or
  a block of the list, the one before it and its size, when its size is the smallest that fits.
\<close>

definition best_of ::
  "wdm \<Rightarrow> u16 \<Rightarrow> addr \<Rightarrow> addr \<times> addr \<times> u16 \<Rightarrow> nat list \<Rightarrow> addr \<times> addr \<times> u16 \<Rightarrow> bool" where
  "best_of w n prv best fl r \<longleftrightarrow>
     (r = best \<and> (\<forall>x \<in> set fl. n \<le> hdr_sz w (ad x) \<longrightarrow> snd (snd best) \<le> hdr_sz w (ad x))) \<or>
     (\<exists>us x vs. fl = us @ x # vs \<and> r = (ad x, if us = [] then prv else ad (last us), hdr_sz w (ad x)) \<and>
        n \<le> hdr_sz w (ad x) \<and> hdr_sz w (ad x) < snd (snd best) \<and>
        (\<forall>y \<in> set fl. n \<le> hdr_sz w (ad y) \<longrightarrow> hdr_sz w (ad x) \<le> hdr_sz w (ad y)))"

lemma best_of_better:
  assumes "best_of w n (ad x) (ad x, prv, hdr_sz w (ad x)) xs r" "n \<le> hdr_sz w (ad x)"
    "hdr_sz w (ad x) < snd (snd best)"
  shows "best_of w n prv best (x # xs) r"
  using assms(1) unfolding best_of_def [of _ _ "ad x"]
proof (elim disjE exE conjE)
  assume c: "r = (ad x, prv, hdr_sz w (ad x))"
    "\<forall>y \<in> set xs. n \<le> hdr_sz w (ad y) \<longrightarrow> snd (snd (ad x, prv, hdr_sz w (ad x))) \<le> hdr_sz w (ad y)"
  then show ?thesis
    using assms(2,3) unfolding best_of_def
    by (intro disjI2 exI [of _ "[]"] exI [of _ x] exI [of _ xs]) simp
next
  fix us y vs
  assume c: "xs = us @ y # vs" "r = (ad y, if us = [] then ad x else ad (last us), hdr_sz w (ad y))"
    "n \<le> hdr_sz w (ad y)" "hdr_sz w (ad y) < snd (snd (ad x, prv, hdr_sz w (ad x)))"
    "\<forall>z \<in> set xs. n \<le> hdr_sz w (ad z) \<longrightarrow> hdr_sz w (ad y) \<le> hdr_sz w (ad z)"
  moreover have "hdr_sz w (ad y) < snd (snd best)" using c(4) assms(3) by simp
  ultimately show ?thesis
    unfolding best_of_def
    by (intro disjI2 exI [of _ "x # us"] exI [of _ y] exI [of _ vs]) auto
qed

lemma best_of_worse:
  assumes "best_of w n (ad x) best xs r" "\<not> (n \<le> hdr_sz w (ad x) \<and> hdr_sz w (ad x) < snd (snd best))"
  shows "best_of w n prv best (x # xs) r"
  using assms(1) unfolding best_of_def [of _ _ "ad x"]
proof (elim disjE exE conjE)
  assume "r = best" "\<forall>y \<in> set xs. n \<le> hdr_sz w (ad y) \<longrightarrow> snd (snd best) \<le> hdr_sz w (ad y)"
  then show ?thesis using assms(2) unfolding best_of_def by (intro disjI1) auto
next
  fix us y vs
  assume c: "xs = us @ y # vs" "r = (ad y, if us = [] then ad x else ad (last us), hdr_sz w (ad y))"
    "n \<le> hdr_sz w (ad y)" "hdr_sz w (ad y) < snd (snd best)"
    "\<forall>z \<in> set xs. n \<le> hdr_sz w (ad z) \<longrightarrow> hdr_sz w (ad y) \<le> hdr_sz w (ad z)"
  moreover have "n \<le> hdr_sz w (ad x) \<Longrightarrow> hdr_sz w (ad y) \<le> hdr_sz w (ad x)" using c(4) assms(2) by auto
  ultimately show ?thesis
    unfolding best_of_def
    by (intro disjI2 exI [of _ "x # us"] exI [of _ y] exI [of _ vs]) auto
qed

lemma best_fit_spec:
  assumes "flinks w p fl" "\<forall>x \<in> set fl. ad x \<noteq> NULL \<and> WDM_IS_FREE w (ad x)"
  shows "\<exists>r. best_fit w n p prv best = Some r \<and> best_of w n prv best fl r"
  using assms
proof (induction fl arbitrary: p prv best)
  case Nil
  then show ?case by (simp add: best_fit.simps best_of_def)
next
  case (Cons x xs)
  define best' where "best' = (if n \<le> hdr_sz w (ad x) \<and> hdr_sz w (ad x) < snd (snd best)
    then (ad x, prv, hdr_sz w (ad x)) else best)"
  have step: "best_fit w n p prv best = best_fit w n (hdr_lom w (ad x)) (ad x) best'"
    using Cons.prems by (subst best_fit.simps) (auto simp: best'_def)
  have "flinks w (hdr_lom w (ad x)) xs" "\<forall>x \<in> set xs. ad x \<noteq> NULL \<and> WDM_IS_FREE w (ad x)"
    using Cons.prems by auto
  from Cons.IH [OF this, of "ad x" best'] obtain r
    where r: "best_fit w n (hdr_lom w (ad x)) (ad x) best' = Some r" "best_of w n (ad x) best' xs r" by blast
  have "best_of w n prv best (x # xs) r"
    using r(2) best_of_better [of w n x prv xs r best] best_of_worse [of w n x best xs r prv]
    unfolding best'_def by (auto split: if_splits)
  then show ?case using r(1) step by simp
qed

lemma find_link_spec:
  assumes "flinks w p (us @ x # vs)" "x \<notin> set us" "\<forall>y \<in> set us. ad y \<noteq> NULL \<and> ad y \<noteq> ad x"
  shows "find_link w (ad x) p prv = Some (ad x, if us = [] then prv else ad (last us))"
  using assms
proof (induction us arbitrary: p prv)
  case Nil
  then show ?case by (simp add: find_link.simps)
next
  case (Cons u us)
  then show ?case by (subst find_link.simps) auto
qed

section \<open>What an operation may not touch\<close>

definition used_bytes :: "nat \<Rightarrow> blk list \<Rightarrow> nat set" where
  "used_bytes a bs = (\<Union>(x, n) \<in> set (used a bs). {x..<x + n})"

lemma used_bytes_simps [simp]:
  "used_bytes a [] = {}"
  "used_bytes a (b # bs) =
     (if snd b then {} else {a + 12..<a + 12 + fst b}) \<union> used_bytes (a + 12 + fst b) bs"
  "used_bytes a (xs @ ys) = used_bytes a xs \<union> used_bytes (a + span xs) ys"
  by (auto simp: used_bytes_def)

lemma used_bytes_bounds: "y \<in> used_bytes a bs \<Longrightarrow> a + 12 \<le> y \<and> y < a + span bs"
  by (induction bs arbitrary: a) (auto split: if_splits, fastforce+)

lemma hdrs_used_bytes: "x \<in> set (hdrs a bs) \<Longrightarrow> x \<le> y \<Longrightarrow> y < x + 12 \<Longrightarrow> y \<notin> used_bytes a bs"
proof (induction bs arbitrary: a)
  case (Cons b bs)
  then show ?case
    using used_bytes_bounds [of y "a + 12 + fst b" bs] hdrs_bounds [of x "a + 12 + fst b" bs]
    by (auto split: if_splits)
qed simp

text \<open>The payloads in use and everything outside the heap.\<close>

definition protected :: "wdm \<Rightarrow> blk list \<Rightarrow> nat set" where
  "protected w bs = used_bytes (unat (heap_start w)) bs \<union>
     {x. x < unat (heap_start w) \<or> unat (heap_start w) + span bs \<le> x}"

definition keeps :: "nat set \<Rightarrow> wdm \<Rightarrow> wdm \<Rightarrow> bool" where
  "keeps X w w' \<longleftrightarrow> heap_start w' = heap_start w \<and> heap_size w' = heap_size w \<and>
     (\<forall>x \<in> X. x < 2 ^ 64 \<longrightarrow> wmem w' (ad x) = wmem w (ad x))"

lemma keeps_refl [simp]: "keeps X w w"
  by (simp add: keeps_def)

lemma keeps_trans: "keeps X w w' \<Longrightarrow> keeps X w' w'' \<Longrightarrow> keeps X w w''"
  by (auto simp: keeps_def)

lemma keeps_mono: "keeps X w w' \<Longrightarrow> Y \<subseteq> X \<Longrightarrow> keeps Y w w'"
  by (auto simp: keeps_def)

lemma wmem_set_ad:
  assumes "\<not> (x \<le> y \<and> y < x + 12)" "x + 12 \<le> 2 ^ 64" "y < 2 ^ 64"
  shows "wmem (set_prev_sz (ad x) v16 w) (ad y) = wmem w (ad y)"
    "wmem (set_sz (ad x) v16 w) (ad y) = wmem w (ad y)"
    "wmem (set_lom (ad x) v64 w) (ad y) = wmem w (ad y)"
proof -
  have "\<not> unat (ad y - ad x) < 12"
    using unat_of_nat_diff [of y x 12 0] assms by (simp add: ad_def)
  then show "wmem (set_prev_sz (ad x) v16 w) (ad y) = wmem w (ad y)"
    "wmem (set_sz (ad x) v16 w) (ad y) = wmem w (ad y)"
    "wmem (set_lom (ad x) v64 w) (ad y) = wmem w (ad y)"
    by (simp_all add: wmem_set_outside)
qed

lemma keeps_set:
  assumes "\<forall>y \<in> X. \<not> (x \<le> y \<and> y < x + 12)" "x + 12 \<le> 2 ^ 64"
  shows "keeps X w (set_prev_sz (ad x) v16 w)" "keeps X w (set_sz (ad x) v16 w)"
    "keeps X w (set_lom (ad x) v64 w)" "keeps X w (w\<lparr>freelist_head := h\<rparr>)"
  using assms by (auto simp: keeps_def wmem_set_ad)

lemma hdrs_protected:
  assumes "x \<in> set (hdrs (unat (heap_start w)) bs)" "y \<in> protected w bs"
  shows "\<not> (x \<le> y \<and> y < x + 12)"
  using assms hdrs_used_bytes [OF assms(1)] hdrs_bounds [OF assms(1)] by (auto simp: protected_def)

text \<open>The correction of the size kept in the header after a block.\<close>

lemma fix_prev_globals [simp]:
  "freelist_head (fix_prev p v w) = freelist_head w" "heap_start (fix_prev p v w) = heap_start w"
  "heap_size (fix_prev p v w) = heap_size w"
  by (simp_all add: fix_prev_def)

lemma in_heap_end:
  assumes "heap_bounds w (pre @ ys)"
  shows "WDM_IN_HEAP w (ad (unat (heap_start w) + span pre)) \<longleftrightarrow> ys \<noteq> []"
  using in_heap_ad [OF assms] assms by (cases ys) (auto simp: heap_bounds_def)

lemma in_heap_at:
  "heap_bounds w bs \<Longrightarrow> bs = pre @ ys \<Longrightarrow> e = unat (heap_start w) + span pre \<Longrightarrow> WDM_IN_HEAP w (ad e) \<longleftrightarrow> ys \<noteq> []"
  using in_heap_end by blast

lemma fix_prev_eq:
  assumes "heap_bounds w (pre @ ys)"
  shows "fix_prev (ad (unat (heap_start w) + span pre)) v w =
    (if ys = [] then w else set_prev_sz (ad (unat (heap_start w) + span pre)) v w)"
  using in_heap_end [OF assms] by (simp add: fix_prev_def)

lemma fix_prev_chain:
  assumes "heap_bounds w (pre @ ys)" "chain w (unat (heap_start w)) 0 pre"
    "chain w (unat (heap_start w) + span pre) q ys"
  shows "chain (fix_prev (ad (unat (heap_start w) + span pre)) (of_nat (lastsz 0 pre)) w)
    (unat (heap_start w)) 0 (pre @ ys)"
  unfolding fix_prev_eq [OF assms(1)] using assms
  by (cases ys) (auto simp: chain_outside heap_bounds_def)

lemma fix_prev_frame:
  assumes "heap_bounds w (pre @ ys)"
  shows "keeps (protected w (pre @ ys)) w (fix_prev (ad (unat (heap_start w) + span pre)) v w)"
    "y \<in> set (hdrs (unat (heap_start w)) (pre @ ys)) \<Longrightarrow>
      hdr_lom (fix_prev (ad (unat (heap_start w) + span pre)) v w) (ad y) = hdr_lom w (ad y)"
proof -
  let ?e = "unat (heap_start w) + span pre"
  have e: "?e \<in> set (hdrs (unat (heap_start w)) (pre @ ys))" if "ys \<noteq> []" using that by (cases ys) auto
  then have lim: "?e + 12 \<le> 2 ^ 64" if "ys \<noteq> []"
    using that assms by (cases ys) (auto simp: heap_bounds_def)
  show "keeps (protected w (pre @ ys)) w (fix_prev (ad ?e) v w)"
    using hdrs_protected [OF e] lim by (auto simp: fix_prev_eq [OF assms] intro: keeps_set)
  assume y: "y \<in> set (hdrs (unat (heap_start w)) (pre @ ys))"
  have "?e = y \<or> apart ?e y" if "ys \<noteq> []"
    using hdrs_apart [OF e [OF that] y] assms by (simp add: heap_bounds_def)
  then show "hdr_lom (fix_prev (ad ?e) v w) (ad y) = hdr_lom w (ad y)"
    by (auto simp: fix_prev_eq [OF assms] hdr_simps)
qed

section \<open>Allocation\<close>

lemma heap_inv_block:
  assumes "heap_inv w (xs @ (s, f) # ys) fl"
  shows "s < 2 ^ 15" "unat (heap_start w) + span xs + 12 + s + span ys < 2 ^ 64" "0 < unat (heap_start w)"
    "chain w (unat (heap_start w)) 0 xs"
    "chain w (unat (heap_start w) + span xs) (lastsz 0 xs) ((s, f) # ys)"
    "chain w (unat (heap_start w) + span xs + 12 + s) s ys"
  using assms by (auto simp: heap_inv_def heap_bounds_def unat_gt_0)

lemma heap_inv_update:
  assumes "heap_inv w bs fl" "keeps X w w'" "span bs' = span bs" "chain w' (unat (heap_start w)) 0 bs'"
    "flinks w' (freelist_head w') fl'" "distinct fl'" "set fl' = set (frees (unat (heap_start w)) bs')"
  shows "heap_inv w' bs' fl'"
  using assms by (simp add: heap_inv_def heap_bounds_def keeps_def)

lemma alloc_split_correct:
  assumes inv: "heap_inv w (xs @ (s, True) # ys) fl" and n: "unat n + 12 \<le> s"
    and x: "x = unat (heap_start w) + span xs"
  shows "\<exists>w'. alloc_split (ad x) n w = (ad (x + 12 + (s - unat n)), w') \<and>
    heap_inv w' (xs @ (s - unat n - 12, True) # (unat n, False) # ys) fl \<and>
    keeps (protected w (xs @ (s, True) # ys)) w w'"
proof -
  let ?H = "unat (heap_start w)" and ?bs = "xs @ (s, True) # ys"
  define k r where "k = unat n" and "r = s - k - 12"
  define pre where "pre = xs @ [(r, True), (k, False)]"
  define na where "na = x + 12 + r"
  note blk = heap_inv_block [OF inv, folded x]
  have s: "s = r + 12 + k" and k: "of_nat k = n" "k < 2 ^ 16"
    using n unsigned_less [of n] by (simp_all add: r_def k_def)
  have e: "x + 12 + s = na + 12 + k" "?H + span pre = na + 12 + k" and sp: "span (pre @ ys) = span ?bs"
    by (simp_all add: s na_def pre_def x)
  have lim: "na + 12 + k + span ys < 2 ^ 64" "x + 12 \<le> na" using blk(2) e(1) by (simp_all add: na_def)
  have sz: "hdr_sz w (ad x) - n - 12 = of_nat r"
    using chain_block(3) [OF blk(5)] blk(1) k by (simp add: s)
  have "ad x + 12 + ucast (of_nat r :: u16) = ad na" "ad na + 12 + ucast n = ad (na + 12 + k)"
    using ad_plus_size [of k "na + 12"] blk(1) s k by (simp_all add: ad_plus_12 ad_plus_size na_def)
  moreover define w1 where "w1 = set_lom (ad na) WDM_MAGIC (set_sz (ad na) (n OR WDM_ALLOC_BIT)
    (set_prev_sz (ad na) (of_nat r) (set_sz (ad x) (of_nat r) w)))"
  moreover define w' where "w' = fix_prev (ad (?H + span pre)) n w1"
  ultimately have code: "alloc_split (ad x) n w = (ad (na + 12), w')"
    unfolding alloc_split_def Let_def hdr_same sz by (simp add: ad_plus_12 e)
  have h1: "heap_start w1 = heap_start w" "heap_size w1 = heap_size w" "freelist_head w1 = freelist_head w"
    by (simp_all add: w1_def)
  have b1: "heap_bounds w1 (pre @ ys)" using inv sp by (simp add: heap_inv_def heap_bounds_def h1)
  have ap: "apart na x" "apart x na" using lim by (auto simp: apart_def na_def)
  have "chain w1 ?H 0 pre" "chain w1 (?H + span pre) s ys"
    using blk(4-6) ap lim k unfolding e by (simp_all add: w1_def pre_def chain_outside hdr_simps x [symmetric] na_def [symmetric] s)
  then have c: "chain w' ?H 0 (pre @ ys)"
    using fix_prev_chain [OF b1, unfolded h1] k by (simp add: w'_def pre_def)
  have fr: "frees ?H (pre @ ys) = frees ?H ?bs" by (simp add: pre_def s add.assoc)
  have hd: "x \<in> set (hdrs ?H (pre @ ys))" "na \<in> set (hdrs ?H (pre @ ys))"
    by (simp_all add: pre_def x na_def)
  have "hdr_lom w' (ad y) = hdr_lom w (ad y)" if "y \<in> set fl" for y
  proof -
    have fy: "y \<in> set (frees ?H (pre @ ys))" using that inv fr by (simp add: heap_inv_def)
    note y = frees_hdrs [OF fy]
    have "y \<noteq> na"
      using fy frees_bounds [of y ?H xs] frees_bounds [of y "na + 12 + k" ys] lim
      by (auto simp: pre_def x na_def add.assoc)
    then have "apart na y" "x = y \<or> apart x y"
      using hdrs_apart [OF hd(1) y] hdrs_apart [OF hd(2) y] b1 h1 by (auto simp: heap_bounds_def)
    then show ?thesis
      using fix_prev_frame(2) [OF b1, of y] y by (simp add: w'_def w1_def hdr_simps)
  qed
  then have fw: "flinks w' (freelist_head w') fl"
    using inv flinks_cong [of fl w' w] by (simp add: heap_inv_def w'_def h1)
  have "keeps (protected w (pre @ ys)) w w1"
    using hdrs_protected [OF hd(1)] hdrs_protected [OF hd(2)] lim
    by (auto simp: keeps_def w1_def wmem_set_ad)
  moreover have "keeps (protected w (pre @ ys)) w1 w'"
    using fix_prev_frame(1) [OF b1] by (simp add: w'_def protected_def h1)
  moreover have "protected w ?bs \<subseteq> protected w (pre @ ys)"
    using sp by (auto simp: protected_def pre_def s add.assoc)
  ultimately have kp: "keeps (protected w ?bs) w w'" by (meson keeps_trans keeps_mono)
  have "heap_inv w' (pre @ ys) fl"
    by (rule heap_inv_update [OF inv kp sp c fw]) (use inv in \<open>simp_all only: fr heap_inv_def\<close>)
  moreover have "pre @ ys = xs @ (s - unat n - 12, True) # (unat n, False) # ys" "na + 12 = x + 12 + (s - unat n)"
    unfolding na_def k_def [symmetric] by (simp_all add: pre_def s)
  ultimately show ?thesis using code kp by (metis (no_types))
qed

lemma flinks_relink:
  assumes "flinks w p (us @ x # vs)" "us \<noteq> []" "flinks w v zs" "distinct (us @ zs)"
    "\<forall>y \<in> set (us @ zs). last us = y \<or> apart (last us) y"
  shows "flinks (set_lom (ad (last us)) v w) p (us @ zs)"
  using assms
proof (induction us arbitrary: p)
  case (Cons u us)
  show ?case
  proof (cases "us = []")
    case True
    have "flinks (set_lom (ad u) v w) v zs"
      using Cons.prems True by (subst flinks_cong [of zs _ w]) (auto simp: hdr_simps)
    then show ?thesis using Cons.prems True by simp
  next
    case False
    then have "apart (last us) u" using Cons.prems by auto
    moreover have "flinks (set_lom (ad (last us)) v w) (hdr_lom w (ad u)) (us @ zs)"
      using Cons.prems False by (intro Cons.IH) auto
    ultimately show ?thesis using Cons.prems False by (simp add: hdr_simps)
  qed
qed simp

lemma heap_inv_fl:
  assumes "heap_inv w bs fl" "x \<in> set fl"
  shows "ad x \<noteq> NULL" "x \<in> set (hdrs (unat (heap_start w)) bs)" "x + 12 < 2 ^ 64"
proof -
  show h: "x \<in> set (hdrs (unat (heap_start w)) bs)" using assms frees_hdrs by (auto simp: heap_inv_def)
  show "x + 12 < 2 ^ 64" using hdrs_bounds [OF h] assms by (simp add: heap_inv_def heap_bounds_def)
  moreover have "0 < unat (heap_start w)" using assms(1) by (simp add: heap_inv_def heap_bounds_def unat_gt_0)
  then have "0 < x" using hdrs_bounds [OF h] by simp
  ultimately show "ad x \<noteq> NULL" by (simp add: ad_NULL)
qed

lemma heap_inv_apart:
  assumes "heap_inv w bs fl" "x \<in> set (hdrs (unat (heap_start w)) bs)" "y \<in> set (hdrs (unat (heap_start w)) bs)"
  shows "x = y \<or> apart x y"
  using hdrs_apart [OF assms(2,3)] assms(1) by (simp add: heap_inv_def heap_bounds_def)

text \<open>
  Redirecting the link to the member \<open>x\<close> of the free list: the list goes on with \<open>zs\<close>, and the
  blocks and their sizes stay.
\<close>

definition link_before :: "nat list \<Rightarrow> addr" where
  "link_before us = (if us = [] then NULL else ad (last us))"

lemma relink_flinks:
  assumes "flinks w (freelist_head w) (us @ x # vs)" "flinks w v zs" "distinct (us @ zs)"
    "set (us @ zs) \<subseteq> set (hdrs a bs)" "0 < a" "a + span bs < 2 ^ 64"
  defines "w' \<equiv> relink (link_before us) v w"
  shows "w' = (if us = [] then w\<lparr>freelist_head := v\<rparr> else set_lom (ad (last us)) v w)"
    "flinks w' (freelist_head w') (us @ zs)"
proof -
  have l: "last us \<in> set (hdrs a bs)" if "us \<noteq> []" using that assms(4) by auto
  have "ad (last us) \<noteq> NULL" if "us \<noteq> []"
    using hdrs_bounds [OF l [OF that]] assms(5,6) ad_NULL [of "last us"] by simp
  then show w': "w' = (if us = [] then w\<lparr>freelist_head := v\<rparr> else set_lom (ad (last us)) v w)"
    by (auto simp: w'_def relink_def link_before_def)
  show "flinks w' (freelist_head w') (us @ zs)"
  proof (cases "us = []")
    case False
    have "\<forall>y \<in> set (us @ zs). last us = y \<or> apart (last us) y"
      using hdrs_apart [OF l [OF False]] assms(4,6) by auto
    then show ?thesis using flinks_relink [OF assms(1) False assms(2,3)] False by (simp add: w')
  next
    case True
    then show ?thesis using assms(2) by (simp add: w')
  qed
qed

lemma relink_frame:
  assumes "w' = (if us = [] then w\<lparr>freelist_head := v\<rparr> else set_lom (ad (last us)) v w)"
    "set us \<subseteq> set (hdrs (unat (heap_start w)) bs)" "unat (heap_start w) + span bs < 2 ^ 64"
  shows "keeps (protected w bs) w w'"
    "y \<in> set (hdrs (unat (heap_start w)) bs) \<Longrightarrow> hdr_sz w' (ad y) = hdr_sz w (ad y)"
    "y \<in> set (hdrs (unat (heap_start w)) bs) \<Longrightarrow> hdr_prev_sz w' (ad y) = hdr_prev_sz w (ad y)"
proof -
  have l: "last us \<in> set (hdrs (unat (heap_start w)) bs)" if "us \<noteq> []" using that assms(2) by auto
  then have "last us + 12 \<le> 2 ^ 64" if "us \<noteq> []" using hdrs_bounds [OF l [OF that]] assms(3) by simp
  then show "keeps (protected w bs) w w'"
    using hdrs_protected [OF l] by (auto simp: assms(1) keeps_def wmem_set_ad)
  assume "y \<in> set (hdrs (unat (heap_start w)) bs)"
  then have "last us = y \<or> apart (last us) y" if "us \<noteq> []" using hdrs_apart [OF l [OF that]] assms(3) by simp
  then show "hdr_sz w' (ad y) = hdr_sz w (ad y)" "hdr_prev_sz w' (ad y) = hdr_prev_sz w (ad y)"
    by (auto simp: assms(1) hdr_simps)
qed

text \<open>Sizes decide the chain.\<close>

lemma chain_cong:
  "(\<And>y. y \<in> set (hdrs a bs) \<Longrightarrow> hdr_sz w' (ad y) = hdr_sz w (ad y) \<and> hdr_prev_sz w' (ad y) = hdr_prev_sz w (ad y))
    \<Longrightarrow> chain w' a p bs = chain w a p bs"
  by (induction bs arbitrary: a p) auto

lemma alloc_whole_correct:
  assumes inv: "heap_inv w (xs @ (s, True) # ys) (us @ x # vs)" and x: "x = unat (heap_start w) + span xs"
  shows "\<exists>w'. alloc_whole (ad x) (link_before us) w = (ad (x + 12), w') \<and>
    heap_inv w' (xs @ (s, False) # ys) (us @ vs) \<and> keeps (protected w (xs @ (s, True) # ys)) w w'"
proof -
  let ?H = "unat (heap_start w)" and ?bs = "xs @ (s, True) # ys"
  define w1 where "w1 = relink (link_before us) (hdr_lom w (ad x)) w"
  define w' where "w' = set_sz (ad x) (of_nat s OR WDM_ALLOC_BIT) (set_lom (ad x) WDM_MAGIC w1)"
  note blk = heap_inv_block [OF inv, folded x]
  have fl: "flinks w (freelist_head w) (us @ x # vs)" "distinct (us @ x # vs)"
    "set (us @ x # vs) = set (frees ?H ?bs)" and lim: "?H + span ?bs < 2 ^ 64"
    using inv by (simp_all add: heap_inv_def heap_bounds_def)
  have sub: "set (us @ vs) \<subseteq> set (hdrs ?H ?bs)" using heap_inv_fl(2) [OF inv] by auto
  have "flinks w (hdr_lom w (ad x)) vs" using fl(1) by (auto simp: flinks_append)
  note r = relink_flinks [OF fl(1) this _ sub blk(3) lim, folded w1_def]
  have d: "distinct (us @ vs)" and su: "set us \<subseteq> set (hdrs ?H ?bs)" using fl(2) sub by auto
  note f = relink_frame [OF r(1) su lim, OF d]
  have xh: "x \<in> set (hdrs ?H ?bs)" by (simp add: x)
  have "hdr_sz (set_lom (ad x) WDM_MAGIC w1) (ad x) = of_nat s"
    using chain_block(3) [OF blk(5) blk(1)] f(2) [OF xh] by simp
  moreover have "(if link_before us = NULL then w\<lparr>freelist_head := hdr_lom w (freelist_head w)\<rparr>
      else set_lom (link_before us) (hdr_lom w (ad x)) w) = w1"
    using fl(1) heap_inv_fl(1) [OF inv, of "last us"] by (auto simp: w1_def relink_def link_before_def)
  ultimately have code: "alloc_whole (ad x) (link_before us) w = (ad (x + 12), w')"
    by (simp add: alloc_whole_def Let_def w'_def ad_plus_12 del: hdr_cross)
  have "chain w ?H 0 ?bs" using inv by (simp add: heap_inv_def)
  then have "chain w1 ?H 0 ?bs" using chain_cong [of ?H ?bs w1 w] f by blast
  then have c: "chain w' ?H 0 (xs @ (s, False) # ys)"
    using blk(2) by (simp add: w'_def chain_outside x [symmetric])
  have "hdr_lom w' (ad y) = hdr_lom w1 (ad y)" if y: "y \<in> set (us @ vs)" for y
  proof -
    have "apart x y" using heap_inv_apart [OF inv xh] sub fl(2) y by fastforce
    then show ?thesis by (simp add: w'_def hdr_simps)
  qed
  then have fw: "flinks w' (freelist_head w') (us @ vs)"
    using r(2) [OF d] flinks_cong [of "us @ vs" w' w1] by (simp add: w'_def)
  have "keeps (protected w ?bs) w1 w'"
    using hdrs_protected [OF xh] blk(2) by (auto simp: keeps_def w'_def wmem_set_ad)
  with f(1) have kp: "keeps (protected w ?bs) w w'" by (rule keeps_trans)
  have "insert x (set (us @ vs)) = insert x (set (frees ?H (xs @ (s, False) # ys)))"
    using fl(3) by (simp add: x)
  moreover have "x \<notin> set (us @ vs)" "x \<notin> set (frees ?H (xs @ (s, False) # ys))"
    using fl(2) distinct_frees [of ?H ?bs] by (simp_all add: x)
  ultimately have "set (us @ vs) = set (frees ?H (xs @ (s, False) # ys))"
    by (metis insert_ident)
  then have "heap_inv w' (xs @ (s, False) # ys) (us @ vs)"
    using heap_inv_update [OF inv kp _ c fw] d by simp
  then show ?thesis using code kp by blast
qed

text \<open>The members of the free list are the free blocks, with their sizes.\<close>

lemma heap_inv_free_block:
  assumes "heap_inv w bs fl" "x \<in> set fl"
  obtains xs s ys where "bs = xs @ (s, True) # ys" "x = unat (heap_start w) + span xs"
    "hdr_sz w (ad x) = of_nat s" "s < 2 ^ 15" "WDM_IS_FREE w (ad x)"
proof -
  have "x \<in> set (frees (unat (heap_start w)) bs)" using assms by (simp add: heap_inv_def)
  then obtain xs s ys where b: "bs = xs @ (s, True) # ys" "x = unat (heap_start w) + span xs"
    by (rule frees_split)
  note blk = heap_inv_block [OF assms(1) [unfolded b(1)], folded b(2)]
  show thesis using that b chain_block [OF blk(5,1)] blk(1) by blast
qed

lemma heap_inv_free_member:
  assumes "heap_inv w bs fl" "(t, True) \<in> set bs"
  obtains x where "x \<in> set fl" "hdr_sz w (ad x) = of_nat t" "t < 2 ^ 15"
proof -
  obtain xs ys where b: "bs = xs @ (t, True) # ys" using split_list [OF assms(2)] by blast
  note blk = heap_inv_block [OF assms(1) [unfolded b]]
  have "unat (heap_start w) + span xs \<in> set fl" using assms(1) b by (simp add: heap_inv_def)
  then show thesis using that chain_block(3) [OF blk(5,1)] blk(1) by blast
qed

text \<open>The abstract allocator: the smallest free block that fits, cut at its upper end.\<close>

definition best_block :: "nat \<Rightarrow> blk list \<Rightarrow> blk list \<Rightarrow> nat \<Rightarrow> blk list \<Rightarrow> bool" where
  "best_block k bs xs s ys \<longleftrightarrow> bs = xs @ (s, True) # ys \<and> k \<le> s \<and>
     (\<forall>t. (t, True) \<in> set bs \<longrightarrow> k \<le> t \<longrightarrow> s \<le> t)"

definition place_block :: "nat \<Rightarrow> blk list \<Rightarrow> nat \<Rightarrow> blk list \<Rightarrow> blk list" where
  "place_block k xs s ys =
     (if k + 12 \<le> s then xs @ (s - k - 12, True) # (k, False) # ys else xs @ (s, False) # ys)"

definition place_offset :: "nat \<Rightarrow> blk list \<Rightarrow> nat \<Rightarrow> nat" where
  "place_offset k xs s = span xs + 12 + (if k + 12 \<le> s then s - k else 0)"

lemma unat_le_of_nat: "s < 2 ^ 16 \<Longrightarrow> n \<le> (of_nat s :: u16) \<longleftrightarrow> unat n \<le> s"
  using u16_of_nat_simps(1) [of s s] by (simp add: word_le_nat_alt)

lemma split_condition:
  assumes "s < 2 ^ 15" "n \<le> (of_nat s :: u16)"
  shows "(n < of_nat s \<and> 12 \<le> of_nat s - n) \<longleftrightarrow> unat n + 12 \<le> s"
proof -
  have s: "unat (of_nat s :: u16) = s" "unat n \<le> s"
    using u16_of_nat_simps(1) [of s s] unat_le_of_nat [of s n] assms by simp_all
  have "unat (of_nat s - n) = s - unat n" using unat_sub_if' [of "of_nat s" n] s by simp
  then show ?thesis using s by (auto simp: word_le_nat_alt word_less_nat_alt)
qed

text \<open>The guard every operation starts with.\<close>

lemma heap_unusable_iff:
  assumes inv: "heap_inv w bs fl"
  shows "heap_unusable w \<longleftrightarrow> fl = []"
proof (cases fl)
  case (Cons f fl')
  have "0 < span bs" using hdrs_bounds [OF heap_inv_fl(2) [OF inv, of f]] Cons by simp
  then show ?thesis
    using heap_inv_fl(1) [OF inv, of f] inv Cons by (auto simp: heap_unusable_def heap_inv_def heap_bounds_def)
qed (use inv in \<open>simp add: heap_unusable_def heap_inv_def\<close>)

lemma wdmalloc_correct:
  assumes inv: "heap_inv w bs fl"
  shows "wdmalloc n w = Inr (NULL, w) \<and> (\<forall>t. (t, True) \<in> set bs \<longrightarrow> t < unat n) \<or>
    (\<exists>xs s ys w' fl'. best_block (unat n) bs xs s ys \<and>
      wdmalloc n w = Inr (ad (unat (heap_start w) + place_offset (unat n) xs s), w') \<and>
      heap_inv w' (place_block (unat n) xs s ys) fl' \<and> keeps (protected w bs) w w')"
proof (cases "fl = []")
  case True
  then have "wdmalloc n w = Inr (NULL, w)" "frees (unat (heap_start w)) bs = []"
    using inv by (simp_all add: wdmalloc_def heap_unusable_def heap_inv_def)
  then show ?thesis using True heap_inv_free_member [OF inv] by (metis empty_iff empty_set)
next
  case False
  then have use: "\<not> heap_unusable w" by (simp add: heap_unusable_iff [OF inv])
  have free: "\<forall>x \<in> set fl. ad x \<noteq> NULL \<and> WDM_IS_FREE w (ad x)"
    using heap_inv_fl(1) [OF inv] heap_inv_free_block [OF inv] by metis
  have "flinks w (freelist_head w) fl" using inv by (simp add: heap_inv_def)
  from best_fit_spec [OF this free] obtain r where
    r: "best_fit w n (freelist_head w) NULL (NULL, NULL, UINT16_MAX) = Some r"
    "best_of w n NULL (NULL, NULL, UINT16_MAX) fl r" by blast
  from r(2) show ?thesis unfolding best_of_def
  proof (elim disjE exE conjE)
    assume none: "r = (NULL, NULL, UINT16_MAX)"
      "\<forall>x \<in> set fl. n \<le> hdr_sz w (ad x) \<longrightarrow> snd (snd (NULL, NULL, UINT16_MAX)) \<le> hdr_sz w (ad x)"
    have "t < unat n" if t: "(t, True) \<in> set bs" for t
    proof -
      obtain x where x: "x \<in> set fl" "hdr_sz w (ad x) = of_nat t" "t < 2 ^ 15"
        using heap_inv_free_member [OF inv t] .
      then show ?thesis
        using none(2) unat_le_of_nat [of t n] unat_le_of_nat [of t UINT16_MAX] by fastforce
    qed
    moreover have "wdmalloc n w = Inr (NULL, w)" using use r(1) none(1) by (simp add: wdmalloc_def)
    ultimately show ?thesis by blast
  next
    fix us x vs
    assume x: "fl = us @ x # vs" "r = (ad x, if us = [] then NULL else ad (last us), hdr_sz w (ad x))"
      "n \<le> hdr_sz w (ad x)" "hdr_sz w (ad x) < snd (snd (NULL, NULL, UINT16_MAX))"
      "\<forall>y \<in> set fl. n \<le> hdr_sz w (ad y) \<longrightarrow> hdr_sz w (ad x) \<le> hdr_sz w (ad y)"
    have "x \<in> set fl" using x(1) by simp
    then obtain xs s ys where b: "bs = xs @ (s, True) # ys" "x = unat (heap_start w) + span xs"
      "hdr_sz w (ad x) = of_nat s" "s < 2 ^ 15" by (rule heap_inv_free_block [OF inv])
    have "s \<le> t" if t: "(t, True) \<in> set bs" "unat n \<le> t" for t
    proof -
      obtain y where y: "y \<in> set fl" "hdr_sz w (ad y) = of_nat t" "t < 2 ^ 15"
        using heap_inv_free_member [OF inv t(1)] .
      then have "n \<le> hdr_sz w (ad y)" using t unat_le_of_nat [of t n] by simp
      then have "(of_nat s :: u16) \<le> of_nat t" using x(5) b(3) y(1,2) by metis
      then show ?thesis using u16_of_nat_simps(2) [of s t] b(4) y(3) by simp
    qed
    then have best: "best_block (unat n) bs xs s ys"
      using b x(3) unat_le_of_nat [of s n] by (simp add: best_block_def)
    have code: "wdmalloc n w = (if unat n + 12 \<le> s then Inr (alloc_split (ad x) n w)
        else Inr (alloc_whole (ad x) (link_before us) w))"
      using use r(1) x heap_inv_fl(1) [OF inv, of x] split_condition [of s n] b
      by (auto simp: wdmalloc_def link_before_def)
    show ?thesis
    proof (cases "unat n + 12 \<le> s")
      case True
      then have "x + 12 + (s - unat n) = unat (heap_start w) + place_offset (unat n) xs s"
        by (simp add: place_offset_def b(2))
      then show ?thesis
        using alloc_split_correct [OF inv [unfolded b(1)] True b(2)] best code True
        by (metis b(1) place_block_def)
    next
      case False
      then have "x + 12 = unat (heap_start w) + place_offset (unat n) xs s"
        by (simp add: place_offset_def b(2))
      then show ?thesis
        using alloc_whole_correct [OF inv [unfolded b(1) x(1)] b(2)] best code False
        by (metis b(1) place_block_def)
    qed
  qed
qed

end
