(* ===== verification/Wdfree.thy ===== *)
theory Wdfree
  imports Wdmalloc
begin

text \<open>
  Proofs about the release side of the kernel heap (\<^verbatim>\<open>coalesce\<close>, \<^verbatim>\<open>wdfree\<close> of
  \<^verbatim>\<open>src/kernel/mem/wdmalloc.c\<close>; the definitions are in \<open>Wdmalloc\<close>): the block that is freed is
  merged with the free blocks around it and the invariant holds again.
\<close>

section \<open>Freeing and coalescing\<close>

text \<open>
  The state \<^verbatim>\<open>coalesce\<close> is called in: the block is marked free but not yet in the free list, and
  the header after it may still hold an old size \<open>q\<close>.
\<close>

definition freed :: "wdm \<Rightarrow> blk list \<Rightarrow> nat \<Rightarrow> blk list \<Rightarrow> nat \<Rightarrow> nat list \<Rightarrow> bool" where
  "freed w xs s ys q fl \<longleftrightarrow> heap_bounds w (xs @ (s, True) # ys) \<and>
     chain w (unat (heap_start w)) 0 (xs @ [(s, True)]) \<and>
     chain w (unat (heap_start w) + span xs + 12 + s) q ys \<and>
     flinks w (freelist_head w) fl \<and> distinct fl \<and>
     set fl = set (frees (unat (heap_start w)) xs) \<union> set (frees (unat (heap_start w) + span xs + 12 + s) ys)"

lemma heap_start_below:
  assumes "heap_bounds w bs"
  shows "\<not> WDM_IN_HEAP w (heap_start w - 12)"
proof -
  have lim: "unat (heap_start w) + span bs < 2 ^ 64" "span bs < 2 ^ 15 + 12" using assms by (simp_all add: heap_bounds_def)
  define p where "p = unat (heap_start w - 12)"
  have p: "heap_start w - 12 = ad p" "p < 2 ^ 64" using unat_u64_less by (simp_all add: p_def ad_def)
  have "p < unat (heap_start w) \<or> unat (heap_start w) + span bs \<le> p"
    using unat_sub_if' [of "heap_start w" 12] lim by (auto simp: p_def split: if_splits)
  then show ?thesis using in_heap_ad [OF assms p(2)] unfolding p(1) by auto
qed

lemma in_heap_hdr:
  assumes "heap_bounds w bs" "y \<in> set (hdrs (unat (heap_start w)) bs)"
  shows "WDM_IN_HEAP w (ad y)" "ad y \<noteq> NULL" "y + 12 < 2 ^ 64"
proof -
  have lim: "unat (heap_start w) + span bs < 2 ^ 64" "0 < unat (heap_start w)"
    using assms(1) by (simp_all add: heap_bounds_def unat_gt_0)
  show "y + 12 < 2 ^ 64" using hdrs_bounds [OF assms(2)] lim by simp
  then show "WDM_IN_HEAP w (ad y)" "ad y \<noteq> NULL"
    using hdrs_bounds [OF assms(2)] lim in_heap_ad [OF assms(1), of y] ad_NULL [of y] by auto
qed

lemma block_size_bound: "heap_bounds w bs \<Longrightarrow> (s, f) \<in> set bs \<Longrightarrow> s < 2 ^ 15"
  using split_list [of "(s, f)" bs] by (auto simp: heap_bounds_def)

text \<open>Where the neighbours are.\<close>

lemma prev_neighbour_start:
  assumes "heap_bounds w bs" "hdr_prev_sz w (ad (unat (heap_start w))) = 0"
  shows "prev_neighbour (ad (unat (heap_start w))) w = NULL"
  using assms heap_start_below [of w] by (simp add: prev_neighbour_def)

lemma prev_neighbour_at:
  assumes b: "heap_bounds w (xs @ (t, g) # zs)" and p: "p = unat (heap_start w) + span xs"
    and c: "chain w p q [(t, g)]" "hdr_prev_sz w (ad (p + 12 + t)) = of_nat t"
  shows "prev_neighbour (ad (p + 12 + t)) w = ad p" "WDM_IS_FREE w (ad p) \<longleftrightarrow> g" "ad p \<noteq> NULL"
proof -
  have t: "t < 2 ^ 15" by (rule block_size_bound [OF b, of t g]) simp
  have "ad (p + 12 + t) - ucast (of_nat t :: u16) - 12 = ad p"
    using t by (simp add: ad_def ucast_of_nat_u16)
  then show "prev_neighbour (ad (p + 12 + t)) w = ad p"
    using c(2) in_heap_hdr(1) [OF b, of p] by (simp add: prev_neighbour_def p)
  show "WDM_IS_FREE w (ad p) \<longleftrightarrow> g" using chain_block(1) [OF c(1) t] .
  show "ad p \<noteq> NULL" using in_heap_hdr(2) [OF b, of p] by (simp add: p)
qed

lemma next_neighbour_at:
  assumes b: "heap_bounds w (xs @ (s, f) # ys)" and x: "x = unat (heap_start w) + span xs"
    and c: "chain w x q [(s, f)]"
  shows "next_neighbour (ad x) w = (if ys = [] then NULL else ad (x + 12 + s))"
proof -
  have s: "s < 2 ^ 15" by (rule block_size_bound [OF b, of s f]) simp
  have e: "ad x + 12 + ucast (WDM_ACTUAL_SIZE w (ad x)) = ad (x + 12 + s)"
    using chain_block(2) [OF c s] s by (simp add: ad_plus_12 ad_plus_size)
  have "WDM_IN_HEAP w (ad (x + 12 + s)) \<longleftrightarrow> ys \<noteq> []"
    by (rule in_heap_at [OF b, of "xs @ [(s, f)]"]) (simp_all add: x)
  then show ?thesis unfolding next_neighbour_def Let_def e by simp
qed

lemma prev_neighbour_first:
  assumes "freed w [] s ys q fl"
  shows "prev_neighbour (ad (unat (heap_start w))) w = NULL"
  using assms prev_neighbour_start [of w] by (auto simp: freed_def)

lemma prev_neighbour_block:
  assumes "freed w (xs @ [(t, g)]) s ys q fl"
  shows "prev_neighbour (ad (unat (heap_start w) + span (xs @ [(t, g)]))) w = ad (unat (heap_start w) + span xs)"
    "WDM_IS_FREE w (ad (unat (heap_start w) + span xs)) \<longleftrightarrow> g" "ad (unat (heap_start w) + span xs) \<noteq> NULL"
proof -
  have "heap_bounds w (xs @ (t, g) # (s, True) # ys)"
    "chain w (unat (heap_start w) + span xs) (lastsz 0 xs) [(t, g), (s, True)]" using assms by (simp_all add: freed_def)
  then show "prev_neighbour (ad (unat (heap_start w) + span (xs @ [(t, g)]))) w = ad (unat (heap_start w) + span xs)"
    "WDM_IS_FREE w (ad (unat (heap_start w) + span xs)) \<longleftrightarrow> g" "ad (unat (heap_start w) + span xs) \<noteq> NULL"
    using prev_neighbour_at [of w xs t g _ _ "lastsz 0 xs", OF _ refl] by (simp_all add: add.assoc)
qed

lemma next_neighbours:
  assumes f: "freed w xs s ys q fl" and x: "x = unat (heap_start w) + span xs"
  shows "next_neighbour (ad x) w = (if ys = [] then NULL else ad (x + 12 + s))"
    "ys = (u, g) # ys' \<Longrightarrow> (WDM_IS_FREE w (ad (x + 12 + s)) \<longleftrightarrow> g) \<and> ad (x + 12 + s) \<noteq> NULL \<and>
       next_next_neighbour (ad (x + 12 + s)) w = (if ys' = [] then NULL else ad (x + 12 + s + 12 + u))"
proof -
  let ?bs = "xs @ (s, True) # ys" and ?e = "x + 12 + s"
  have b: "heap_bounds w ?bs" and c: "chain w x (lastsz 0 xs) [(s, True)]" "chain w ?e q ys"
    using f by (simp_all add: freed_def x)
  show "next_neighbour (ad x) w = (if ys = [] then NULL else ad ?e)" by (rule next_neighbour_at [OF b x c(1)])
  assume ys: "ys = (u, g) # ys'"
  have u: "u < 2 ^ 15" by (rule block_size_bound [OF b, of u g]) (simp add: ys)
  note cb = chain_block [OF c(2) [unfolded ys] u]
  have n: "ad ?e \<noteq> NULL" using in_heap_hdr(2) [OF b, of ?e] ys by (simp add: x)
  have ee: "ad ?e + 12 + ucast (WDM_ACTUAL_SIZE w (ad ?e)) = ad (?e + 12 + u)"
    unfolding cb(2) using u by (simp add: ad_plus_12 ad_plus_size)
  have "WDM_IN_HEAP w (ad (?e + 12 + u)) \<longleftrightarrow> ys' \<noteq> []"
    by (rule in_heap_at [OF b, of "xs @ [(s, True), (u, g)]"]) (simp_all add: x ys)
  then show "(WDM_IS_FREE w (ad ?e) \<longleftrightarrow> g) \<and> ad ?e \<noteq> NULL \<and>
       next_next_neighbour (ad ?e) w = (if ys' = [] then NULL else ad (?e + 12 + u))"
    using n cb(1) unfolding next_next_neighbour_def Let_def ee by simp
qed

text \<open>The last step of every change of blocks: the header after the changed block learns its size.\<close>

lemma fix_prev_seal:
  assumes b: "heap_bounds w (pre @ ys)" and c: "chain w (unat (heap_start w)) 0 pre"
    "chain w (unat (heap_start w) + span pre) q ys"
    and fl: "flinks w (freelist_head w) fl" "distinct fl" "set fl = set (frees (unat (heap_start w)) (pre @ ys))"
    and e: "e = unat (heap_start w) + span pre" "v = of_nat (lastsz 0 pre)"
  shows "heap_inv (fix_prev (ad e) v w) (pre @ ys) fl" "keeps (protected w (pre @ ys)) w (fix_prev (ad e) v w)"
proof -
  let ?w = "fix_prev (ad (unat (heap_start w) + span pre)) (of_nat (lastsz 0 pre)) w"
  have "hdr_lom ?w (ad y) = hdr_lom w (ad y)" if "y \<in> set fl" for y
    using fix_prev_frame(2) [OF b frees_hdrs] that fl(3) by simp
  then have "flinks ?w (freelist_head ?w) fl" using fl(1) flinks_cong [of fl ?w w] by simp
  then show "heap_inv (fix_prev (ad e) v w) (pre @ ys) fl"
    unfolding e using b fix_prev_chain [OF b c] fl(2,3) by (simp add: heap_inv_def heap_bounds_def)
  show "keeps (protected w (pre @ ys)) w (fix_prev (ad e) v w)"
    unfolding e by (rule fix_prev_frame(1) [OF b])
qed

lemma seal:
  assumes b: "heap_bounds w (pre @ ys)" and c: "chain w (unat (heap_start w)) 0 pre"
    "chain w (unat (heap_start w) + span pre) q ys"
    and fl: "flinks w (freelist_head w) fl" "distinct fl" "set fl = set (frees (unat (heap_start w)) (pre @ ys))"
    and e: "e = unat (heap_start w) + span pre" "v = of_nat (lastsz 0 pre)"
  shows "heap_inv (set_prev_sz_if (if ys = [] then NULL else ad e) v w) (pre @ ys) fl"
    "keeps (protected w (pre @ ys)) w (set_prev_sz_if (if ys = [] then NULL else ad e) v w)"
proof -
  have "ad e \<noteq> NULL" if "ys \<noteq> []" using in_heap_hdr(2) [OF b, of e] that e(1) by (cases ys) auto
  then have w: "set_prev_sz_if (if ys = [] then NULL else ad e) v w = fix_prev (ad e) v w"
    unfolding e(1) fix_prev_eq [OF b] by (simp add: set_prev_sz_if_def)
  show "heap_inv (set_prev_sz_if (if ys = [] then NULL else ad e) v w) (pre @ ys) fl"
    "keeps (protected w (pre @ ys)) w (set_prev_sz_if (if ys = [] then NULL else ad e) v w)"
    unfolding w by (rule fix_prev_seal [OF assms])+
qed

lemma merge_prev_correct:
  assumes f: "freed w (xs @ [(t, True)]) s ys q fl" and p: "p = unat (heap_start w) + span xs"
  shows "\<exists>w'. merge_prev (ad p) (ad (p + 12 + t)) (if ys = [] then NULL else ad (p + 12 + t + 12 + s)) w = Inr w' \<and>
    heap_inv w' (xs @ (t + 12 + s, True) # ys) fl \<and>
    keeps (protected w (xs @ (t, True) # (s, True) # ys)) w w'"
proof -
  let ?H = "unat (heap_start w)" and ?pre = "xs @ [(t + 12 + s, True)]"
  have b: "heap_bounds w (xs @ (t, True) # (s, True) # ys)"
    and c: "chain w ?H 0 xs" "chain w p (lastsz 0 xs) [(t, True), (s, True)]" "chain w (p + 12 + t + 12 + s) q ys"
    and fl: "flinks w (freelist_head w) fl" "distinct fl"
      "set fl = set (frees ?H xs) \<union> {p} \<union> set (frees (p + 12 + t + 12 + s) ys)"
    using f by (simp_all add: freed_def p add.assoc)
  have lim: "p + 12 + t + 12 + s + span ys < 2 ^ 64" using b by (simp add: heap_bounds_def p)
  define w1 where "w1 = set_sz (ad p) (of_nat (t + 12 + s)) w"
  have sum: "hdr_sz w (ad p) + (12 + hdr_sz w (ad (p + 12 + t))) = of_nat (t + 12 + s)" using c(2) by simp
  have code: "merge_prev (ad p) (ad (p + 12 + t)) nx w = Inr (set_prev_sz_if nx (of_nat (t + 12 + s)) w1)" for nx
    unfolding merge_prev_def Let_def sum hdr_same w1_def by (rule refl)
  have h: "heap_start w1 = heap_start w" "heap_size w1 = heap_size w" "freelist_head w1 = freelist_head w"
    by (simp_all add: w1_def)
  have b1: "heap_bounds w1 (?pre @ ys)" using b by (simp add: heap_bounds_def h)
  have e: "p + 12 + t + 12 + s = ?H + span ?pre" by (simp add: p)
  have c1: "chain w1 ?H 0 ?pre" "chain w1 (p + 12 + t + 12 + s) q ys"
    using c lim by (simp_all add: w1_def chain_outside p [symmetric])
  have hd: "p \<in> set (hdrs ?H (?pre @ ys))" "set fl = set (frees ?H (?pre @ ys))"
    using fl(3) by (auto simp: p add.assoc)
  have "hdr_lom w1 (ad y) = hdr_lom w (ad y)" if "y \<in> set fl" for y
    using hdrs_apart [OF hd(1) frees_hdrs, of y] that hd(2) b1 h by (simp add: w1_def hdr_simps heap_bounds_def)
  then have "flinks w1 (freelist_head w1) fl" using fl(1) flinks_cong [of fl w1 w] h by simp
  note S = seal [OF b1, unfolded h, OF c1(1) c1(2) [unfolded e] _ fl(2) hd(2), of "p + 12 + t + 12 + s" "of_nat (t + 12 + s)"]
  have k1: "keeps (protected w (?pre @ ys)) w w1"
    using hdrs_protected [OF hd(1)] lim by (auto simp: keeps_def w1_def wmem_set_ad)
  have pr: "protected w1 (?pre @ ys) = protected w (xs @ (t, True) # (s, True) # ys)"
    "protected w (?pre @ ys) = protected w (xs @ (t, True) # (s, True) # ys)"
    by (auto simp: protected_def h add.assoc)
  show ?thesis
    using code S e \<open>flinks w1 (freelist_head w1) fl\<close> k1 keeps_trans [of _ w w1] h unfolding pr by simp
qed

lemma merge_none_correct:
  assumes f: "freed w xs s ys q fl" and x: "x = unat (heap_start w) + span xs"
  shows "\<exists>w'. merge_none (ad x) w = Inr w' \<and> heap_bounds w' (xs @ (s, True) # ys) \<and>
    chain w' (unat (heap_start w)) 0 (xs @ [(s, True)]) \<and> chain w' (x + 12 + s) q ys \<and>
    flinks w' (freelist_head w') (x # fl) \<and> distinct (x # fl) \<and>
    set (x # fl) = set (frees (unat (heap_start w)) (xs @ (s, True) # ys)) \<and>
    keeps (protected w (xs @ (s, True) # ys)) w w'"
proof -
  let ?H = "unat (heap_start w)" and ?bs = "xs @ (s, True) # ys"
  define w' where "w' = set_lom (ad x) (freelist_head w) (w\<lparr>freelist_head := ad x\<rparr>)"
  have b: "heap_bounds w ?bs" and fl: "flinks w (freelist_head w) fl" "distinct fl"
    "set fl = set (frees ?H xs) \<union> set (frees (x + 12 + s) ys)"
    using f by (simp_all add: freed_def x)
  have c: "chain w ?H 0 (xs @ [(s, True)])" "chain w (x + 12 + s) q ys" using f by (simp_all only: freed_def x)
  have lim: "x + 12 + s + span ys < 2 ^ 64" using b by (simp add: heap_bounds_def x)
  have xf: "x \<notin> set fl" using fl(3) distinct_frees [of ?H ?bs] by (simp add: x)
  have xh: "x \<in> set (hdrs ?H ?bs)" by (simp add: x)
  have "hdr_lom w' (ad y) = hdr_lom w (ad y)" if "y \<in> set fl" for y
  proof -
    have "y \<in> set (hdrs ?H ?bs)" using that fl(3) by (intro frees_hdrs) (auto simp: x)
    then have "apart x y" using hdrs_apart [OF xh] xf that b by (auto simp: heap_bounds_def)
    then show ?thesis by (simp add: w'_def hdr_simps)
  qed
  then have "flinks w' (freelist_head w') (x # fl)" using fl(1) flinks_cong [of fl w' w] by (simp add: w'_def)
  moreover have "chain w' ?H 0 (xs @ [(s, True)])" "chain w' (x + 12 + s) q ys"
    using c lim by (simp_all add: w'_def chain_outside x [symmetric])
  moreover have "keeps (protected w ?bs) w w'"
    using hdrs_protected [OF xh] lim by (auto simp: keeps_def w'_def wmem_set_ad)
  moreover have "merge_none (ad x) w = Inr w'" by (simp add: merge_none_def Let_def w'_def)
  moreover have "heap_bounds w' ?bs" using b by (simp add: heap_bounds_def w'_def)
  ultimately show ?thesis using xf fl by (auto simp: x)
qed

text \<open>The neighbour that is merged away is found in the free list.\<close>

lemma freed_next_link:
  assumes f: "freed w xs s ((u, True) # ys) q fl" and x: "x = unat (heap_start w) + span xs"
  obtains us vs where "fl = us @ (x + 12 + s) # vs" "flinks w (hdr_lom w (ad (x + 12 + s))) vs"
    "set (us @ vs) = set (frees (unat (heap_start w)) xs) \<union> set (frees (x + 12 + s + 12 + u) ys)"
    "x \<notin> set (us @ vs)"
proof -
  let ?H = "unat (heap_start w)" and ?e = "x + 12 + s"
  have fl: "flinks w (freelist_head w) fl" "distinct fl"
    "set fl = set (frees ?H xs) \<union> insert ?e (set (frees (?e + 12 + u) ys))"
    using f by (simp_all add: freed_def x)
  obtain us vs where us: "fl = us @ ?e # vs" using fl(3) split_list [of ?e fl] by auto
  have n: "distinct (frees ?H (xs @ (s, True) # (u, True) # ys))" by (rule distinct_frees)
  have "insert ?e (set (us @ vs)) = insert ?e (set (frees ?H xs) \<union> set (frees (?e + 12 + u) ys))"
    using fl(3) us by auto
  moreover have "?e \<notin> set (us @ vs)" "?e \<notin> set (frees ?H xs) \<union> set (frees (?e + 12 + u) ys)"
    using fl(2) us n by (auto simp: x)
  ultimately have "set (us @ vs) = set (frees ?H xs) \<union> set (frees (?e + 12 + u) ys)" by (metis insert_ident)
  moreover have "x \<notin> set (frees ?H xs) \<union> set (frees (?e + 12 + u) ys)" using n by (auto simp: x)
  ultimately show thesis using that us flinks_append [of w _ us ?e vs] fl(1) by metis
qed

lemma find_link_hdrs:
  assumes "flinks w p (us @ x # vs)" "distinct (us @ x # vs)" "set (us @ x # vs) \<subseteq> set (hdrs a bs)"
    "0 < a" "a + span bs < 2 ^ 64"
  shows "find_link w (ad x) p NULL = Some (ad x, link_before us)"
proof -
  have "y < 2 ^ 64 \<and> 0 < y" if "y \<in> set (us @ x # vs)" for y
    using assms(3-5) hdrs_bounds [of y a bs] that by fastforce
  then have "\<forall>y \<in> set us. ad y \<noteq> NULL \<and> ad y \<noteq> ad x"
    using assms(2) by (auto simp: ad_NULL ad_inj)
  then show ?thesis using find_link_spec [OF assms(1), of NULL] assms(2) by (simp add: link_before_def)
qed

text \<open>A block swallows its free upper neighbour \<open>e\<close>: the sizes say so already, the link to
  \<open>e\<close> is redirected to \<open>v\<close>, from where the free list goes on with \<open>zs\<close>.\<close>

lemma merge_relink:
  assumes b: "heap_bounds w (pre @ ys)" and c: "chain w (unat (heap_start w)) 0 pre"
    "chain w (unat (heap_start w) + span pre) q ys"
    and fine: "hdrs (unat (heap_start w)) bs = hs" "set (hdrs (unat (heap_start w)) (pre @ ys)) \<subseteq> set hs"
      "span bs = span (pre @ ys)" "protected w bs = protected w (pre @ ys)"
    and fl: "flinks w (freelist_head w) (us @ e # vs)" "distinct (us @ e # vs)" "set (us @ e # vs) \<subseteq> set hs"
    and zs: "flinks w v zs" "distinct (us @ zs)" "set (us @ zs) = set (frees (unat (heap_start w)) (pre @ ys))"
    and ee: "ee = unat (heap_start w) + span pre" "sz = of_nat (lastsz 0 pre)"
  defines "w2 \<equiv> relink (link_before us) v w"
  shows "find_link w (ad e) (freelist_head w) NULL = Some (ad e, link_before us)"
    "heap_inv (set_prev_sz_if (if ys = [] then NULL else ad ee) sz w2) (pre @ ys) (us @ zs)"
    "keeps (protected w bs) w (set_prev_sz_if (if ys = [] then NULL else ad ee) sz w2)"
    "y \<in> set hs \<Longrightarrow> hdr_sz w2 (ad y) = hdr_sz w (ad y)"
proof -
  let ?H = "unat (heap_start w)"
  have lim: "0 < ?H" "?H + span bs < 2 ^ 64" using b fine(3) by (simp_all add: heap_bounds_def unat_gt_0)
  have sub: "set (us @ zs) \<subseteq> set (hdrs ?H bs)" "set us \<subseteq> set (hdrs ?H bs)"
    "set (us @ e # vs) \<subseteq> set (hdrs ?H bs)"
    using zs(3) frees_hdrs [of _ ?H "pre @ ys"] fine(1,2) fl(3) by auto
  show "find_link w (ad e) (freelist_head w) NULL = Some (ad e, link_before us)"
    by (rule find_link_hdrs [OF fl(1,2) sub(3) lim])
  note r = relink_flinks [OF fl(1) zs(1,2) sub(1) lim, folded w2_def]
  note fr = relink_frame [OF r(1) sub(2) lim(2)]
  show "y \<in> set hs \<Longrightarrow> hdr_sz w2 (ad y) = hdr_sz w (ad y)" using fr(2) fine(1) by simp
  have h: "heap_start w2 = heap_start w" "heap_size w2 = heap_size w" using fr(1) by (simp_all add: keeps_def)
  have b2: "heap_bounds w2 (pre @ ys)" using b by (simp add: heap_bounds_def h)
  have same: "hdr_sz w2 (ad y) = hdr_sz w (ad y) \<and> hdr_prev_sz w2 (ad y) = hdr_prev_sz w (ad y)"
    if "y \<in> set (hdrs ?H (pre @ ys))" for y
    using fr(2,3) [of y] fine(1,2) that by auto
  have "chain w2 ?H 0 pre = chain w ?H 0 pre" "chain w2 (?H + span pre) q ys = chain w (?H + span pre) q ys"
    by (rule chain_cong, use same in simp)+
  note S = seal [OF b2, unfolded h, of q "us @ zs" ee sz, OF _ _ r(2) zs(2,3) ee]
  show "heap_inv (set_prev_sz_if (if ys = [] then NULL else ad ee) sz w2) (pre @ ys) (us @ zs)"
    using S(1) c \<open>chain w2 ?H 0 pre = _\<close> \<open>chain w2 (?H + span pre) q ys = _\<close> by simp
  have "protected w2 (pre @ ys) = protected w bs" unfolding fine(4) by (simp add: protected_def h)
  then show "keeps (protected w bs) w (set_prev_sz_if (if ys = [] then NULL else ad ee) sz w2)"
    using S(2) c \<open>chain w2 ?H 0 pre = _\<close> \<open>chain w2 (?H + span pre) q ys = _\<close> keeps_trans [OF fr(1)] by simp
qed

lemma flinks_set_sz:
  assumes "heap_bounds w bs" "x \<in> set (hdrs (unat (heap_start w)) bs)" "set fl \<subseteq> set (hdrs (unat (heap_start w)) bs)"
  shows "flinks (set_sz (ad x) v w) p fl = flinks w p fl"
proof (rule flinks_cong)
  fix y assume "y \<in> set fl"
  then have "x = y \<or> apart x y" using hdrs_apart [OF assms(2), of y] assms(1,3) by (auto simp: heap_bounds_def)
  then show "hdr_lom (set_sz (ad x) v w) (ad y) = hdr_lom w (ad y)" by (rule hdr_field_frame)
qed

lemma keeps_hdr:
  assumes "heap_bounds w bs" "x \<in> set (hdrs (unat (heap_start w)) bs)"
  shows "keeps (protected w bs) w (set_sz (ad x) v16 w)" "keeps (protected w bs) w (set_lom (ad x) v64 w)"
  using keeps_set [of "protected w bs" x w] hdrs_protected [OF assms(2)] in_heap_hdr(3) [OF assms] by auto

lemma merge_both_correct:
  assumes f: "freed w (xs @ [(t, True)]) s ((u, True) # ys) q fl" and p: "p = unat (heap_start w) + span xs"
    and x: "x = p + 12 + t" and e: "e = x + 12 + s"
  shows "\<exists>w' fl'. merge_both (ad p) (ad x) (ad e) (if ys = [] then NULL else ad (e + 12 + u)) w = Inr w' \<and>
    heap_inv w' (xs @ (t + 12 + s + 12 + u, True) # ys) fl' \<and>
    keeps (protected w (xs @ (t, True) # (s, True) # (u, True) # ys)) w w'"
proof -
  let ?H = "unat (heap_start w)" and ?bs = "xs @ (t, True) # (s, True) # (u, True) # ys"
  let ?m = "t + 12 + s + 12 + u"
  define pre where "pre = xs @ [(?m, True)]"
  have x': "x = ?H + span (xs @ [(t, True)])" by (simp add: x p)
  obtain us vs where fl: "fl = us @ e # vs" "flinks w (hdr_lom w (ad e)) vs"
    "set (us @ vs) = set (frees ?H (xs @ [(t, True)])) \<union> set (frees (e + 12 + u) ys)"
    using freed_next_link [OF f x', folded e] .
  have b: "heap_bounds w ?bs" and c: "chain w ?H 0 xs" "chain w p (lastsz 0 xs) [(t, True), (s, True)]"
    "hdr_sz w (ad e) = of_nat u" "chain w (e + 12 + u) u ys"
    and g: "flinks w (freelist_head w) fl" "distinct fl"
    using f by (simp_all add: freed_def p x e add.assoc)
  have hd: "p \<in> set (hdrs ?H ?bs)" "e \<in> set (hdrs ?H ?bs)" by (simp_all add: p x e)
  have sub: "set (us @ e # vs) \<subseteq> set (hdrs ?H ?bs)"
    using fl(3) hd frees_hdrs [of _ ?H xs] frees_hdrs [of _ "e + 12 + u" ys] by (auto simp: p x e add.assoc)
  define w1 where "w1 = set_sz (ad p) (of_nat ?m) w"
  have h: "heap_start w1 = heap_start w" "heap_size w1 = heap_size w" "freelist_head w1 = freelist_head w"
    by (simp_all add: w1_def)
  have "p = e \<or> apart p e" using hdrs_apart [OF hd] b by (simp add: heap_bounds_def)
  then have le: "hdr_lom w1 (ad e) = hdr_lom w (ad e)" by (simp add: w1_def hdr_simps)
  have ee: "e + 12 + u = ?H + span pre" "of_nat ?m = of_nat (lastsz 0 pre)" by (simp_all add: pre_def p x e)
  have lim: "e + 12 + u + span ys < 2 ^ 64" using b by (simp add: heap_bounds_def p x e)
  have c1: "chain w1 ?H 0 pre" "chain w1 (?H + span pre) u ys"
    using c lim unfolding ee(1) [symmetric] by (simp_all add: w1_def pre_def chain_outside p [symmetric] x e)
  have b1: "heap_bounds w1 (pre @ ys)" using b by (simp add: heap_bounds_def h pre_def)
  have fine: "set (hdrs ?H (pre @ ys)) \<subseteq> set (hdrs ?H ?bs)" "span ?bs = span (pre @ ys)"
    "protected w1 ?bs = protected w1 (pre @ ys)"
    by (auto simp: pre_def protected_def h add.assoc)
  have g1: "flinks w1 (freelist_head w1) (us @ e # vs)" "flinks w1 (hdr_lom w1 (ad e)) vs"
    using flinks_set_sz [OF b hd(1)] sub g(1) fl(1,2) le by (simp_all add: w1_def)
  have d: "distinct (us @ e # vs)" "distinct (us @ vs)" using g(2) fl(1) by auto
  have fs: "set (us @ vs) = set (frees ?H (pre @ ys))" unfolding fl(3) by (simp add: pre_def p x e add.assoc)
  note M = merge_relink [OF b1, unfolded h(1), OF c1 refl fine g1(1) d(1) sub g1(2) d(2) fs ee]
  have sum: "hdr_sz w (ad p) + (12 + hdr_sz w (ad x) + 12 + hdr_sz w (ad e)) = of_nat ?m"
    using c(2,3) by (simp add: x)
  have pw: "hdr_sz (relink (link_before us) (hdr_lom w1 (ad e)) w1) (ad p) = of_nat ?m"
    using M(4) [OF hd(1)] by (simp add: w1_def)
  have code: "merge_both (ad p) (ad x) (ad e) nn w = Inr (set_prev_sz_if nn (of_nat ?m)
      (relink (link_before us) (hdr_lom w1 (ad e)) w1))" for nn
    unfolding merge_both_def Let_def sum w1_def [symmetric] M(1) of_loop_simps bindR_simps prod.case pw by simp
  have "keeps (protected w ?bs) w w1" unfolding w1_def by (rule keeps_hdr(1) [OF b hd(1)])
  moreover have "protected w1 ?bs = protected w ?bs" by (simp add: protected_def h)
  ultimately show ?thesis using code M(2,3) keeps_trans [of "protected w ?bs" w w1] by (auto simp: pre_def)
qed

lemma flinks_set_lom:
  assumes "heap_bounds w bs" "x \<in> set (hdrs (unat (heap_start w)) bs)"
    "set fl \<subseteq> set (hdrs (unat (heap_start w)) bs)" "x \<notin> set fl"
  shows "flinks (set_lom (ad x) v w) p fl = flinks w p fl"
proof (rule flinks_cong)
  fix y assume "y \<in> set fl"
  then have "apart x y" using hdrs_apart [OF assms(2), of y] assms(1,3,4) by (auto simp: heap_bounds_def)
  then show "hdr_lom (set_lom (ad x) v w) (ad y) = hdr_lom w (ad y)" by (simp add: hdr_simps)
qed

lemma merge_next_correct:
  assumes f: "freed w xs s ((u, True) # ys) q fl" and x: "x = unat (heap_start w) + span xs"
    and e: "e = x + 12 + s"
  shows "\<exists>w' fl'. merge_next (ad x) (ad e) (if ys = [] then NULL else ad (e + 12 + u)) w = Inr w' \<and>
    heap_inv w' (xs @ (s + 12 + u, True) # ys) fl' \<and>
    keeps (protected w (xs @ (s, True) # (u, True) # ys)) w w'"
proof -
  let ?H = "unat (heap_start w)" and ?bs = "xs @ (s, True) # (u, True) # ys"
  let ?m = "s + 12 + u" and ?l = "hdr_lom w (ad e)"
  define pre where "pre = xs @ [(?m, True)]"
  obtain us vs where fl: "fl = us @ e # vs" "flinks w ?l vs"
    "set (us @ vs) = set (frees ?H xs) \<union> set (frees (e + 12 + u) ys)" "x \<notin> set (us @ vs)"
    using freed_next_link [OF f x, folded e] .
  have b: "heap_bounds w ?bs" and c: "chain w ?H 0 xs" "chain w x (lastsz 0 xs) [(s, True)]"
    "hdr_sz w (ad e) = of_nat u" "chain w (e + 12 + u) u ys"
    and g: "flinks w (freelist_head w) fl" "distinct fl"
    using f by (simp_all add: freed_def x e)
  have hd: "x \<in> set (hdrs ?H ?bs)" "e \<in> set (hdrs ?H ?bs)" by (simp_all add: x e)
  have sub: "set (us @ e # vs) \<subseteq> set (hdrs ?H ?bs)" "x \<notin> set (us @ e # vs)"
    using fl(3,4) hd frees_hdrs [of _ ?H xs] frees_hdrs [of _ "e + 12 + u" ys] by (auto simp: x e)
  define w0 where "w0 = set_sz (ad x) (of_nat ?m) w"
  define w1 where "w1 = set_lom (ad x) ?l w0"
  have h: "heap_start w1 = heap_start w" "heap_size w1 = heap_size w" "freelist_head w1 = freelist_head w"
    by (simp_all add: w1_def w0_def)
  have b0: "heap_bounds w0 ?bs" using b by (simp add: heap_bounds_def w0_def)
  have hd0: "x \<in> set (hdrs (unat (heap_start w0)) ?bs)" using hd by (simp add: w0_def)
  have "apart x e" using hdrs_apart [OF hd] b by (auto simp: heap_bounds_def e)
  then have le: "hdr_lom w0 (ad e) = ?l" by (simp add: w0_def hdr_simps)
  have ee: "e + 12 + u = ?H + span pre" "of_nat ?m = of_nat (lastsz 0 pre)" by (simp_all add: pre_def x e)
  have lim: "e + 12 + u + span ys < 2 ^ 64" using b by (simp add: heap_bounds_def x e)
  have c1: "chain w1 ?H 0 pre" "chain w1 (?H + span pre) u ys"
    using c lim unfolding ee(1) [symmetric]
    by (simp_all add: w1_def w0_def pre_def chain_outside x [symmetric] e)
  have b1: "heap_bounds w1 (pre @ ys)" using b by (simp add: heap_bounds_def h pre_def)
  have fine: "set (hdrs ?H (pre @ ys)) \<subseteq> set (hdrs ?H ?bs)" "span ?bs = span (pre @ ys)"
    "protected w1 ?bs = protected w1 (pre @ ys)"
    by (auto simp: pre_def protected_def h add.assoc)
  have fr: "flinks w1 p zs = flinks w p zs" if "set zs \<subseteq> set (us @ e # vs)" for p zs
  proof -
    have "set zs \<subseteq> set (hdrs (unat (heap_start w0)) ?bs)" "x \<notin> set zs" "set zs \<subseteq> set (hdrs ?H ?bs)"
      using that sub by (auto simp: w0_def)
    then show ?thesis using flinks_set_lom [OF b0 hd0] flinks_set_sz [OF b hd(1)] by (simp add: w1_def w0_def)
  qed
  have g1: "flinks w1 (freelist_head w1) (us @ e # vs)" "flinks w1 (ad x) (x # vs)"
    using g(1) fl(1,2) fr [of "us @ e # vs"] fr [of vs ?l] h(3) by (auto simp: w1_def)
  have d: "distinct (us @ e # vs)" "distinct (us @ x # vs)" using g(2) fl(1,4) by auto
  have fs: "set (us @ x # vs) = set (frees ?H (pre @ ys))"
    using fl(3) by (auto simp: pre_def x e add.assoc)
  note M = merge_relink [OF b1, unfolded h(1), OF c1 refl fine g1(1) d(1) sub(1) g1(2) d(2) fs ee]
  have sum: "hdr_sz w (ad x) + (12 + hdr_sz w (ad e)) = of_nat ?m" using c(2,3) by simp
  have pw: "hdr_sz (relink (link_before us) (ad x) w1) (ad x) = of_nat ?m"
    using M(4) [OF hd(1)] by (simp add: w1_def w0_def)
  have link: "(if hdr_lom w0 (ad e) \<noteq> NULL then set_lom (ad x) (hdr_lom w0 (ad e)) w0 else set_lom (ad x) NULL w0) = w1"
    by (simp add: w1_def le)
  have code: "merge_next (ad x) (ad e) nn w = Inr (set_prev_sz_if nn (of_nat ?m)
      (relink (link_before us) (ad x) w1))" for nn
    unfolding merge_next_def Let_def sum w0_def [symmetric] link M(1) of_loop_simps bindR_simps prod.case pw by simp
  have "keeps (protected w ?bs) w w0" "keeps (protected w0 ?bs) w0 w1"
    unfolding w1_def using keeps_hdr(1) [OF b hd(1)] keeps_hdr(2) [OF b0 hd0] by (simp_all add: w0_def)
  moreover have "protected w1 ?bs = protected w ?bs" "protected w0 ?bs = protected w ?bs"
    by (simp_all add: protected_def h w0_def)
  ultimately have "keeps (protected w ?bs) w w1" "\<And>w'. keeps (protected w1 ?bs) w1 w' \<Longrightarrow> keeps (protected w ?bs) w1 w'"
    by (auto intro: keeps_trans)
  then have "keeps (protected w1 ?bs) w1 w' \<Longrightarrow> keeps (protected w ?bs) w w'" for w'
    using keeps_trans by blast
  from this [OF M(3)] M(2) show ?thesis unfolding code pre_def by auto
qed

text \<open>
  The abstract effect of freeing: the block between \<open>xs\<close> and \<open>ys\<close> is joined with the free blocks
  next to it.
\<close>

definition joined :: "blk list \<Rightarrow> nat \<Rightarrow> blk list \<Rightarrow> blk list" where
  "joined xs s ys =
     (let l = xs \<noteq> [] \<and> snd (last xs); r = ys \<noteq> [] \<and> snd (hd ys)
      in (if l then butlast xs else xs) @
         ((if l then fst (last xs) + 12 else 0) + s + (if r then 12 + fst (hd ys) else 0), True) #
         (if r then tl ys else ys))"

lemma merge_none_heap_inv:
  assumes f: "freed w xs s ys s fl" and x: "x = unat (heap_start w) + span xs"
  shows "\<exists>w' fl'. merge_none (ad x) w = Inr w' \<and> heap_inv w' (xs @ (s, True) # ys) fl' \<and>
    keeps (protected w (xs @ (s, True) # ys)) w w'"
proof -
  obtain w' where w': "merge_none (ad x) w = Inr w'" "heap_bounds w' (xs @ (s, True) # ys)"
    "chain w' (unat (heap_start w)) 0 (xs @ [(s, True)])" "chain w' (x + 12 + s) s ys"
    "flinks w' (freelist_head w') (x # fl)" "distinct (x # fl)"
    "set (x # fl) = set (frees (unat (heap_start w)) (xs @ (s, True) # ys))"
    "keeps (protected w (xs @ (s, True) # ys)) w w'"
    using merge_none_correct [OF f x] by blast
  have h: "heap_start w' = heap_start w" using w'(8) by (simp add: keeps_def)
  have "chain w' (unat (heap_start w)) 0 (xs @ (s, True) # ys)" using w'(3,4) by (simp add: x)
  then have "heap_inv w' (xs @ (s, True) # ys) (x # fl)" using w'(2,5-7) by (simp only: heap_inv_def h)
  then show ?thesis using w'(1,8) by blast
qed

lemma coalesce_correct:
  assumes f: "freed w xs s ys s fl" and x: "x = unat (heap_start w) + span xs"
  shows "\<exists>w' fl'. coalesce (ad x) w = Inr w' \<and> heap_inv w' (joined xs s ys) fl' \<and>
    keeps (protected w (xs @ (s, True) # ys)) w w'"
proof -
  note n = next_neighbours [OF f x]
  have q: "(next_neighbour (ad x) w \<noteq> NULL \<and> WDM_IS_FREE w (next_neighbour (ad x) w)) \<longleftrightarrow> ys \<noteq> [] \<and> snd (hd ys)"
  proof (cases ys)
    case (Cons y ys')
    then show ?thesis using n(1) n(2) [of "fst y" "snd y" ys'] by simp
  qed (use n(1) in simp)
  consider (none) "xs = [] \<or> \<not> snd (last xs)" | (prev) xs' t where "xs = xs' @ [(t, True)]"
    by (cases xs rule: rev_cases) (auto, blast)
  then show ?thesis
  proof cases
    case none
    have p: "\<not> (prev_neighbour (ad x) w \<noteq> NULL \<and> WDM_IS_FREE w (prev_neighbour (ad x) w))"
    proof (cases xs rule: rev_cases)
      case Nil
      then show ?thesis using prev_neighbour_first f x by simp
    next
      case (snoc zs z)
      then show ?thesis using prev_neighbour_block [of w zs "fst z" "snd z"] f x none by simp
    qed
    show ?thesis
    proof (cases "ys \<noteq> [] \<and> snd (hd ys)")
      case True
      then obtain u ys' where ys: "ys = (u, True) # ys'" by (cases ys) auto
      obtain w' fl' where "merge_next (ad x) (ad (x + 12 + s)) (if ys' = [] then NULL else ad (x + 12 + s + 12 + u)) w = Inr w'"
        "heap_inv w' (xs @ (s + 12 + u, True) # ys') fl'" "keeps (protected w (xs @ (s, True) # ys)) w w'"
        using merge_next_correct [OF f [unfolded ys] x refl] ys by auto
      moreover have "joined xs s ys = xs @ (s + 12 + u, True) # ys'" using none ys by (auto simp: joined_def Let_def)
      ultimately show ?thesis using p q n(1) n(2) [OF ys] ys by (simp add: coalesce_def Let_def) blast
    next
      case False
      then have "coalesce (ad x) w = merge_none (ad x) w" using p q unfolding coalesce_def Let_def by argo
      moreover have "joined xs s ys = xs @ (s, True) # ys" using none False by (auto simp: joined_def Let_def)
      ultimately show ?thesis
        using merge_none_heap_inv [OF f x] by simp
    qed
  next
    case prev
    have p: "prev_neighbour (ad x) w = ad (unat (heap_start w) + span xs')"
      "WDM_IS_FREE w (prev_neighbour (ad x) w)" "prev_neighbour (ad x) w \<noteq> NULL"
      using prev_neighbour_block [OF f [unfolded prev]] x prev by auto
    have x': "x = unat (heap_start w) + span xs' + 12 + t" by (simp add: x prev)
    show ?thesis
    proof (cases "ys \<noteq> [] \<and> snd (hd ys)")
      case True
      then obtain u ys' where ys: "ys = (u, True) # ys'" by (cases ys) auto
      obtain w' fl' where "merge_both (prev_neighbour (ad x) w) (ad x) (ad (x + 12 + s))
          (if ys' = [] then NULL else ad (x + 12 + s + 12 + u)) w = Inr w'"
        "heap_inv w' (xs' @ (t + 12 + s + 12 + u, True) # ys') fl'"
        "keeps (protected w (xs' @ (t, True) # (s, True) # (u, True) # ys')) w w'"
        using merge_both_correct [OF f [unfolded prev ys] refl x' refl] p(1) by auto
      moreover have "joined xs s ys = xs' @ (t + 12 + s + 12 + u, True) # ys'"
        using prev ys by (simp add: joined_def Let_def)
      ultimately show ?thesis using p(2,3) q n(1) n(2) [OF ys] prev ys by (simp add: coalesce_def Let_def) blast
    next
      case False
      obtain w' where "merge_prev (prev_neighbour (ad x) w) (ad x) (if ys = [] then NULL else ad (x + 12 + s)) w = Inr w'"
        "heap_inv w' (xs' @ (t + 12 + s, True) # ys) fl" "keeps (protected w (xs' @ (t, True) # (s, True) # ys)) w w'"
        using merge_prev_correct [OF f [unfolded prev] refl] p(1) x' by auto
      moreover have "joined xs s ys = xs' @ (t + 12 + s, True) # ys"
        using prev False by (auto simp: joined_def Let_def)
      moreover have "coalesce (ad x) w = merge_prev (prev_neighbour (ad x) w) (ad x) (next_neighbour (ad x) w) w"
        using p(2,3) q False unfolding coalesce_def Let_def by (cases "next_neighbour (ad x) w = NULL") auto
      ultimately show ?thesis using n(1) prev by auto
    qed
  qed
qed

lemma wdfree_correct:
  assumes inv: "heap_inv w (xs @ (s, False) # ys) fl" and x: "x = unat (heap_start w) + span xs"
    and fl: "fl \<noteq> []" and top: "0 < s \<or> ys \<noteq> []"
  shows "\<exists>w' fl'. wdfree (ad (x + 12)) w = Inr w' \<and> heap_inv w' (joined xs s ys) fl' \<and>
    keeps (protected w (xs @ (s, True) # ys)) w w'"
proof -
  let ?H = "unat (heap_start w)" and ?bs = "xs @ (s, False) # ys"
  note blk = heap_inv_block [OF inv, folded x]
  have b: "heap_bounds w ?bs" using inv by (simp add: heap_inv_def)
  have xh: "x \<in> set (hdrs ?H ?bs)" "x \<notin> set fl"
    using inv distinct_frees [of ?H "xs @ (s, True) # ys"] by (auto simp: x heap_inv_def)
  define w0 where "w0 = set_sz (ad x) (of_nat s) w"
  define w1 where "w1 = set_lom (ad x) 0 w0"
  have h: "heap_start w1 = heap_start w" "heap_size w1 = heap_size w" "freelist_head w1 = freelist_head w"
    by (simp_all add: w1_def w0_def)
  have "hdr_sz w (ad x) AND NOT WDM_ALLOC_BIT = of_nat s"
    using chain_block(2) [OF blk(5,1)] by (simp add: WDM_ACTUAL_SIZE_def)
  moreover have "\<not> heap_unusable w" using fl by (simp add: heap_unusable_iff [OF inv])
  moreover have "WDM_IN_HEAP w (ad (x + 12))"
    using in_heap_ad [OF b, of "x + 12"] top blk(2) by (cases ys) (auto simp: x)
  moreover have "ad (x + 12) - 12 = ad x" by (simp add: ad_def)
  ultimately have code: "wdfree (ad (x + 12)) w = coalesce (ad x) w1"
    using in_heap_hdr(1) [OF b xh(1)] by (simp add: wdfree_def Let_def w1_def w0_def)
  have b0: "heap_bounds w0 ?bs" "heap_bounds w1 (xs @ (s, True) # ys)" "x \<in> set (hdrs (unat (heap_start w0)) ?bs)"
    using b xh by (simp_all add: heap_bounds_def w1_def w0_def)
  have sub: "set fl \<subseteq> set (hdrs ?H ?bs)" using heap_inv_fl(2) [OF inv] by blast
  then have "flinks w1 (freelist_head w1) fl"
    using inv flinks_set_sz [OF b xh(1) sub] flinks_set_lom [OF b0(1,3) _ xh(2)]
    by (simp add: heap_inv_def w1_def w0_def)
  moreover have "chain w1 ?H 0 (xs @ [(s, True)])" "chain w1 (x + 12 + s) s ys"
    using blk by (simp_all add: w1_def w0_def chain_outside x [symmetric])
  ultimately have "freed w1 xs s ys s fl"
    using inv b0(2) by (simp add: freed_def h heap_inv_def x)
  from coalesce_correct [OF this, unfolded h, OF x] obtain w' fl' where
    w': "coalesce (ad x) w1 = Inr w'" "heap_inv w' (joined xs s ys) fl'"
    "keeps (protected w1 (xs @ (s, True) # ys)) w1 w'" by blast
  have sets: "protected w1 (xs @ (s, True) # ys) = protected w (xs @ (s, True) # ys)"
    "protected w (xs @ (s, True) # ys) \<subseteq> protected w ?bs" "protected w0 ?bs = protected w ?bs"
    by (auto simp: protected_def h w0_def)
  have "keeps (protected w ?bs) w w0" "keeps (protected w0 ?bs) w0 w1"
    unfolding w1_def using keeps_hdr(1) [OF b xh(1)] keeps_hdr(2) [OF b0(1,3)] by (simp_all add: w0_def)
  then have "keeps (protected w (xs @ (s, True) # ys)) w w1" unfolding sets(3)
    by (meson keeps_trans keeps_mono sets(2))
  from keeps_trans [OF this w'(3) [unfolded sets(1)]] show ?thesis using w'(1,2) code by auto
qed

lemma wdfree_full_heap: "heap_inv w bs [] \<Longrightarrow> wdfree p w = Inr w"
  by (simp add: wdfree_def heap_unusable_def heap_inv_def)

lemma wdmalloc_init_correct:
  assumes "start \<noteq> NULL" "12 < n" "unat n < 2 ^ 15 + 12" "unat start + unat n < 2 ^ 64"
  shows "\<exists>w'. wdmalloc_init start n w = Inr w' \<and> heap_inv w' [(unat n - 12, True)] [unat start] \<and>
    heap_start w' = start \<and> heap_size w' = n"
proof -
  let ?w = "w\<lparr>heap_start := start, heap_size := n, freelist_head := start\<rparr>"
  define w' where "w' = set_lom start NULL (set_sz start (n - 12) (set_prev_sz start 0 ?w))"
  have "unat (n - 12) = unat n - 12" using assms(2) unat_sub_if' [of n 12] by (simp add: word_less_nat_alt)
  then have "n - 12 = of_nat (unat n - 12)" by (metis of_nat_unat ucast_id)
  moreover have "12 < unat n" using assms(2) by (simp add: word_less_nat_alt)
  ultimately have "heap_inv w' [(unat n - 12, True)] [unat start]"
    using assms by (simp add: heap_inv_def heap_bounds_def w'_def ad_def)
  moreover have "wdmalloc_init start n w = Inr w'" using assms(2) by (simp add: wdmalloc_init_def Let_def w'_def)
  ultimately show ?thesis by (auto simp: w'_def)
qed

section \<open>The blocks in use\<close>

lemma used_bounds: "(x, n) \<in> set (used a bs) \<Longrightarrow> a + 12 \<le> x \<and> x + n \<le> a + span bs"
  by (induction bs arbitrary: a) (auto split: if_splits, fastforce+)

lemma used_split:
  assumes "(x, n) \<in> set (used a bs)"
  obtains xs ys where "bs = xs @ (n, False) # ys" "x = a + span xs + 12"
  using assms
proof (induction bs arbitrary: a thesis)
  case (Cons b bs)
  show ?case
  proof (cases "(x, n) \<in> set (used (a + 12 + fst b) bs)")
    case True
    from Cons.IH [OF _ True] obtain xs ys
      where "bs = xs @ (n, False) # ys" "x = a + 12 + fst b + span xs + 12" by metis
    then show ?thesis using Cons.prems(1) [of "b # xs" ys] by simp
  next
    case False
    then have "\<not> snd b" "x = a + 12" "n = fst b" using Cons.prems(2) by (auto split: if_splits)
    then show ?thesis using Cons.prems(1) [of "[]" bs] by (cases b) simp
  qed
qed simp

text \<open>Payloads in use do not overlap, and neither do the headers before them.\<close>

lemma used_disjoint:
  assumes "(x, n) \<in> set (used a bs)" "(y, m) \<in> set (used a bs)" "(x, n) \<noteq> (y, m)"
  shows "x + n + 12 \<le> y \<or> y + m + 12 \<le> x"
  using assms
proof (induction bs arbitrary: a)
  case (Cons b bs)
  then show ?case
    using used_bounds [of x n "a + 12 + fst b" bs] used_bounds [of y m "a + 12 + fst b" bs]
    by (auto split: if_splits)
qed simp

lemma used_place_block:
  assumes "best_block k bs xs s ys"
  shows "set (used a (place_block k xs s ys)) =
    insert (a + place_offset k xs s, if k + 12 \<le> s then k else s) (set (used a bs))"
  using assms by (auto simp: best_block_def place_block_def place_offset_def add_ac)

lemma used_joined: "set (used a (joined xs s ys)) = set (used a xs) \<union> set (used (a + span xs + 12 + s) ys)"
proof -
  have l: "used a xs = used a (butlast xs) \<and> span xs = span (butlast xs) + 12 + fst (last xs)"
    if "xs \<noteq> []" "snd (last xs)"
    using that by (cases xs rule: rev_cases) auto
  have r: "used c ys = used (c + 12 + fst (hd ys)) (tl ys)" if "ys \<noteq> []" "snd (hd ys)" for c
    using that by (cases ys) auto
  show ?thesis using l r by (auto simp: joined_def Let_def add_ac)
qed

section \<open>The heap as an allocator\<close>

text \<open>
  \<open>live s U\<close>: in state \<open>s\<close> the client holds the regions \<open>U\<close> (start and requested length).
\<close>

locale allocator =
  fixes live :: "'s \<Rightarrow> (nat \<times> nat) set \<Rightarrow> bool"
    and byte :: "'s \<Rightarrow> nat \<Rightarrow> u8"
    and malloc :: "u16 \<Rightarrow> 's \<Rightarrow> (addr \<times> 's) outcome"
    and free :: "addr \<Rightarrow> 's \<Rightarrow> 's outcome"
  assumes live_disjoint: "live s U \<Longrightarrow> (a, n) \<in> U \<Longrightarrow> (b, k) \<in> U \<Longrightarrow> (a, n) \<noteq> (b, k) \<Longrightarrow>
      a \<noteq> b \<and> {a..<a + n} \<inter> {b..<b + k} = {}"
    and malloc_live: "live s U \<Longrightarrow> \<exists>p s'. malloc sz s = Inr (p, s') \<and>
      live s' (if p = NULL then U else insert (unat p, unat sz) U) \<and>
      (\<forall>(a, k) \<in> U. \<forall>i<k. byte s' (a + i) = byte s (a + i))"
    and free_live: "live s U \<Longrightarrow> (a, n) \<in> U \<Longrightarrow> \<exists>s'. free (of_nat a) s = Inr s' \<and>
      live s' (U - {(a, n)}) \<and> (\<forall>(b, k) \<in> U - {(a, n)}. \<forall>i<k. byte s' (b + i) = byte s (b + i))"
begin

lemma live_remove: "live s U \<Longrightarrow> (a, n) \<in> U \<Longrightarrow> {(b, k) \<in> U. b \<noteq> a} = U - {(a, n)}"
  using live_disjoint by fastforce

end

definition live_blocks :: "addr \<Rightarrow> u16 \<Rightarrow> wdm \<Rightarrow> (nat \<times> nat) set \<Rightarrow> bool" where
  "live_blocks h hn w U \<longleftrightarrow> heap_start w = h \<and> heap_size w = hn \<and>
     (\<forall>a n k. (a, n) \<in> U \<longrightarrow> (a, k) \<in> U \<longrightarrow> n = k) \<and>
     (\<exists>bs fl. heap_inv w bs fl \<and>
        (\<forall>a n. (a, n) \<in> U \<longrightarrow> (\<exists>m. n \<le> m \<and> (a, m) \<in> set (used (unat (heap_start w)) bs))))"

lemma live_blocksE:
  assumes "live_blocks h hn w U"
  obtains bs fl where "heap_inv w bs fl" "heap_start w = h" "heap_size w = hn"
    "\<And>a n. (a, n) \<in> U \<Longrightarrow> \<exists>m. n \<le> m \<and> (a, m) \<in> set (used (unat (heap_start w)) bs)"
    "\<And>a n k. (a, n) \<in> U \<Longrightarrow> (a, k) \<in> U \<Longrightarrow> n = k"
  using assms unfolding live_blocks_def by blast

lemma live_blocksI:
  assumes "heap_inv w bs fl" "heap_start w = h" "heap_size w = hn"
    "\<And>a n. (a, n) \<in> U \<Longrightarrow> \<exists>m. n \<le> m \<and> (a, m) \<in> set (used (unat (heap_start w)) bs)"
    "\<And>a n k. (a, n) \<in> U \<Longrightarrow> (a, k) \<in> U \<Longrightarrow> n = k"
  shows "live_blocks h hn w U"
  using assms unfolding live_blocks_def by blast

lemma unat_ad: "x < 2 ^ 64 \<Longrightarrow> unat (ad x) = x"
  unfolding ad_def by (rule unat_of_nat_u64)

lemma live_blocks_bytes:
  assumes "(a, m) \<in> set (used (unat (heap_start w)) bs)" "i < m" "heap_inv w bs fl" "keeps (protected w bs') w w'"
    "(a, m) \<in> set (used (unat (heap_start w)) bs')"
  shows "wmem w' (ad (a + i)) = wmem w (ad (a + i))"
proof -
  have "a + i \<in> protected w bs'" using assms(2,5) by (force simp: protected_def used_bytes_def)
  moreover have "a + i < 2 ^ 64"
    using used_bounds [OF assms(1)] assms(2,3) by (simp add: heap_inv_def heap_bounds_def)
  ultimately show ?thesis using assms(4) by (simp add: keeps_def)
qed

lemma place_offset_fresh:
  assumes "best_block k bs xs s ys" "(a, m) \<in> set (used h bs)"
  shows "a \<noteq> h + place_offset k xs s"
proof -
  have "(a, m) \<in> set (used h xs) \<or> (a, m) \<in> set (used (h + span xs + 12 + s) ys)"
    using assms by (auto simp: best_block_def add.assoc)
  then show ?thesis
    using used_bounds [of a m h xs] used_bounds [of a m "h + span xs + 12 + s" ys]
    by (auto simp: place_offset_def)
qed

lemma place_offset_bound:
  "best_block k bs xs s ys \<Longrightarrow> 12 \<le> place_offset k xs s \<and> place_offset k xs s + k \<le> span bs"
  by (auto simp: best_block_def place_offset_def)

lemma live_blocks_malloc:
  assumes "live_blocks h hn w U"
  shows "\<exists>p w'. wdmalloc n w = Inr (p, w') \<and>
    live_blocks h hn w' (if p = NULL then U else insert (unat p, unat n) U) \<and>
    (\<forall>(a, k) \<in> U. \<forall>i<k. wmem w' (ad (a + i)) = wmem w (ad (a + i)))"
proof -
  let ?H = "unat (heap_start w)"
  obtain bs fl where inv: "heap_inv w bs fl" and hh: "heap_start w = h" "heap_size w = hn"
    and u: "\<And>a n. (a, n) \<in> U \<Longrightarrow> \<exists>m. n \<le> m \<and> (a, m) \<in> set (used ?H bs)"
    and fn: "\<And>a n k. (a, n) \<in> U \<Longrightarrow> (a, k) \<in> U \<Longrightarrow> n = k"
    using live_blocksE [OF assms] by metis
  from wdmalloc_correct [OF inv, of n] show ?thesis
  proof (elim disjE exE conjE)
    assume "wdmalloc n w = Inr (NULL, w)"
    then show ?thesis using assms by auto
  next
    fix xs s ys w' fl'
    assume b: "best_block (unat n) bs xs s ys"
      "wdmalloc n w = Inr (ad (?H + place_offset (unat n) xs s), w')"
      "heap_inv w' (place_block (unat n) xs s ys) fl'" "keeps (protected w bs) w w'"
    define a0 where "a0 = ?H + place_offset (unat n) xs s"
    have h: "heap_start w' = heap_start w" "heap_size w' = heap_size w" using b(4) by (simp_all add: keeps_def)
    have a0: "a0 < 2 ^ 64" "0 < a0"
      using place_offset_bound [OF b(1)] inv by (auto simp: heap_inv_def heap_bounds_def a0_def)
    have fresh: "(a0, k) \<notin> U" for k using u place_offset_fresh [OF b(1), of a0 _ ?H] a0_def by blast
    have "live_blocks h hn w' (insert (a0, unat n) U)"
    proof (rule live_blocksI [OF b(3) h(1) [unfolded hh] h(2) [unfolded hh]], unfold h used_place_block [OF b(1)] a0_def [symmetric])
      fix a k assume "(a, k) \<in> insert (a0, unat n) U"
      then show "\<exists>m. k \<le> m \<and> (a, m) \<in> insert (a0, if unat n + 12 \<le> s then unat n else s) (set (used ?H bs))"
        using u [of a k] b(1) by (auto simp: best_block_def)
    qed (use fn fresh in blast)
    moreover have "wmem w' (ad (a + i)) = wmem w (ad (a + i))" if "(a, k) \<in> U" "i < k" for a k i
      using u [OF that(1)] that(2) live_blocks_bytes [OF _ _ inv b(4)] by fastforce
    ultimately show ?thesis using b(2) a0 by (auto simp: a0_def [symmetric] ad_NULL unat_ad)
  qed
qed

lemma wdfree_top_empty_block:
  assumes "heap_inv w (xs @ [(0, False)]) fl"
  shows "wdfree (ad (unat (heap_start w) + span xs + 12)) w = Inr w"
proof -
  have b: "heap_bounds w (xs @ [(0, False)])" using assms by (simp add: heap_inv_def)
  have "\<not> WDM_IN_HEAP w (ad (unat (heap_start w) + span xs + 12))"
    using in_heap_at [OF b, of "xs @ [(0, False)]" "[]"] by (simp add: add.assoc)
  then show ?thesis by (simp add: wdfree_def)
qed

text \<open>
  The blocks after a call of \<^verbatim>\<open>wdfree\<close> on a block in use. Nothing is released when no block at all is free, and
  when the block is the last one and has no bytes: its pointer is the end of the heap, which \<^verbatim>\<open>WDM_IN_HEAP\<close> refuses.
\<close>

definition freed_blocks :: "blk list \<Rightarrow> nat \<Rightarrow> blk list \<Rightarrow> blk list" where
  "freed_blocks xs s ys = (if list_ex snd (xs @ ys) \<and> (0 < s \<or> ys \<noteq> []) then joined xs s ys else xs @ (s, False) # ys)"

lemma free_list_empty: "heap_inv w bs fl \<Longrightarrow> fl = [] \<longleftrightarrow> \<not> list_ex snd bs"
proof
  assume inv: "heap_inv w bs fl"
  show "\<not> list_ex snd bs" if "fl = []"
  proof
    assume "list_ex snd bs"
    then obtain t where "(t, True) \<in> set bs" by (auto simp: list_ex_iff)
    then obtain x where "x \<in> set fl" using heap_inv_free_member [OF inv] by blast
    then show False using that by simp
  qed
  show "fl = []" if "\<not> list_ex snd bs"
  proof (rule ccontr)
    assume "fl \<noteq> []"
    then obtain x where "x \<in> set fl" by (cases fl) auto
    then obtain xs t ys where "bs = xs @ (t, True) # ys" using heap_inv_free_block [OF inv] by metis
    then show False using that by simp
  qed
qed

lemma wdfree_releases:
  assumes "heap_inv w (xs @ (s, False) # ys) fl"
  shows "\<exists>w' fl'. wdfree (ad (unat (heap_start w) + span xs + 12)) w = Inr w' \<and> heap_inv w' (freed_blocks xs s ys) fl' \<and>
    keeps (protected w (xs @ (s, True) # ys)) w w' \<and> (\<not> (list_ex snd (xs @ ys) \<and> (0 < s \<or> ys \<noteq> [])) \<longrightarrow> w' = w)"
proof (cases "list_ex snd (xs @ ys) \<and> (0 < s \<or> ys \<noteq> [])")
  case True
  then have "fl \<noteq> []" using free_list_empty [OF assms] by simp
  then show ?thesis using wdfree_correct [OF assms refl] True by (auto simp: freed_blocks_def)
next
  case False
  then have "fl = [] \<or> s = 0 \<and> ys = []" using free_list_empty [OF assms] by auto
  then have "wdfree (ad (unat (heap_start w) + span xs + 12)) w = Inr w"
    using wdfree_full_heap wdfree_top_empty_block assms by blast
  then show ?thesis using False assms keeps_refl by (auto simp: freed_blocks_def)
qed

lemma used_freed_blocks:
  "set (used a (xs @ (s, False) # ys)) - {(a + span xs + 12, s)} \<subseteq> set (used a (freed_blocks xs s ys))"
  "set (used a (xs @ (s, False) # ys)) - {(a + span xs + 12, s)} \<subseteq> set (used a (xs @ (s, True) # ys))"
  by (auto simp: freed_blocks_def used_joined)

lemma wdfree_block:
  assumes "heap_inv w bs fl" "(a, m) \<in> set (used (unat (heap_start w)) bs)"
  shows "\<exists>w' bs' fl' bs0. wdfree (ad a) w = Inr w' \<and> heap_inv w' bs' fl' \<and> keeps (protected w bs0) w w' \<and>
    set (used (unat (heap_start w)) bs) - {(a, m)} \<subseteq> set (used (unat (heap_start w)) bs') \<and>
    set (used (unat (heap_start w)) bs) - {(a, m)} \<subseteq> set (used (unat (heap_start w)) bs0)"
proof -
  obtain xs ys where bs: "bs = xs @ (m, False) # ys" "a = unat (heap_start w) + span xs + 12"
    using used_split [OF assms(2)] .
  then show ?thesis
    using wdfree_releases [OF assms(1) [unfolded bs(1)]] used_freed_blocks [of "unat (heap_start w)" xs m ys] by blast
qed

lemma live_blocks_free:
  assumes "live_blocks h hn w U" "(a, n) \<in> U"
  shows "\<exists>w'. wdfree (of_nat a) w = Inr w' \<and> live_blocks h hn w' (U - {(a, n)}) \<and>
    (\<forall>(b, k) \<in> U - {(a, n)}. \<forall>i<k. wmem w' (ad (b + i)) = wmem w (ad (b + i)))"
proof -
  let ?H = "unat (heap_start w)"
  obtain bs fl where inv: "heap_inv w bs fl" and hh: "heap_start w = h" "heap_size w = hn"
    and u: "\<And>a n. (a, n) \<in> U \<Longrightarrow> \<exists>m. n \<le> m \<and> (a, m) \<in> set (used ?H bs)"
    and fn: "\<And>a n k. (a, n) \<in> U \<Longrightarrow> (a, k) \<in> U \<Longrightarrow> n = k"
    using live_blocksE [OF assms(1)] by metis
  obtain m where m: "(a, m) \<in> set (used ?H bs)" using u [OF assms(2)] by blast
  obtain w' bs' fl' bs0 where w': "wdfree (ad a) w = Inr w'" "heap_inv w' bs' fl'" "keeps (protected w bs0) w w'"
    "set (used ?H bs) - {(a, m)} \<subseteq> set (used ?H bs')" "set (used ?H bs) - {(a, m)} \<subseteq> set (used ?H bs0)"
    using wdfree_block [OF inv m] by blast
  have h: "heap_start w' = heap_start w" "heap_size w' = heap_size w" using w'(3) by (simp_all add: keeps_def)
  have other: "\<exists>j. k \<le> j \<and> (b, j) \<in> set (used ?H bs) - {(a, m)}" if "(b, k) \<in> U - {(a, n)}" for b k
    using that u [of b k] fn [OF assms(2), of k] by blast
  have "live_blocks h hn w' (U - {(a, n)})"
  proof (rule live_blocksI [OF w'(2) h(1) [unfolded hh] h(2) [unfolded hh]], unfold h)
    show "\<exists>j. k \<le> j \<and> (b, j) \<in> set (used ?H bs')" if "(b, k) \<in> U - {(a, n)}" for b k
      using other [OF that] w'(4) by blast
  qed (use fn in blast)
  moreover have "wmem w' (ad (b + i)) = wmem w (ad (b + i))" if bk: "(b, k) \<in> U - {(a, n)}" "i < k" for b k i
  proof -
    obtain j where "k \<le> j" "(b, j) \<in> set (used ?H bs) - {(a, m)}" using other [OF bk(1)] by blast
    then show ?thesis using live_blocks_bytes [of b j w bs i fl bs0 w'] inv w'(3,5) bk(2) by auto
  qed
  ultimately show ?thesis using w'(1) by (auto simp: ad_def)
qed

lemma live_blocks_disjoint:
  assumes "live_blocks h hn w U" "(a, n) \<in> U" "(b, k) \<in> U" "(a, n) \<noteq> (b, k)"
  shows "a \<noteq> b \<and> {a..<a + n} \<inter> {b..<b + k} = {}"
proof -
  obtain bs fl where u: "\<And>a n. (a, n) \<in> U \<Longrightarrow> \<exists>m. n \<le> m \<and> (a, m) \<in> set (used (unat (heap_start w)) bs)"
    and fn: "\<And>a n k. (a, n) \<in> U \<Longrightarrow> (a, k) \<in> U \<Longrightarrow> n = k"
    using live_blocksE [OF assms(1)] by metis
  obtain m j where "n \<le> m" "(a, m) \<in> set (used (unat (heap_start w)) bs)"
    "k \<le> j" "(b, j) \<in> set (used (unat (heap_start w)) bs)" using u [OF assms(2)] u [OF assms(3)] by blast
  moreover have "a \<noteq> b" using fn assms(2-4) by auto
  ultimately show ?thesis using used_disjoint [of a m _ bs b j] by fastforce
qed

interpretation wd_heap: allocator "live_blocks h hn" "\<lambda>w x. wmem w (ad x)" wdmalloc wdfree for h hn
  using live_blocks_disjoint live_blocks_malloc live_blocks_free by unfold_locales

lemma live_blocks_inside:
  assumes "live_blocks h hn w U" "(a, k) \<in> U"
  shows "unat h + 12 \<le> a \<and> a + k \<le> unat h + unat hn"
proof -
  obtain bs fl where inv: "heap_inv w bs fl" and hh: "heap_start w = h" "heap_size w = hn"
    and u: "\<And>a n. (a, n) \<in> U \<Longrightarrow> \<exists>m. n \<le> m \<and> (a, m) \<in> set (used (unat (heap_start w)) bs)"
    using live_blocksE [OF assms(1)] by metis
  obtain m where "k \<le> m" "(a, m) \<in> set (used (unat (heap_start w)) bs)" using u [OF assms(2)] by blast
  then show ?thesis using used_bounds [of a m _ bs] inv hh by (fastforce simp: heap_inv_def heap_bounds_def)
qed

definition inside :: "nat \<Rightarrow> nat \<Rightarrow> (nat \<times> nat) set \<Rightarrow> bool" where
  "inside lo hi U \<longleftrightarrow> (\<forall>a k. (a, k) \<in> U \<longrightarrow> lo \<le> a \<and> a + k \<le> hi)"

definition separated :: "(nat \<times> nat) set \<Rightarrow> bool" where
  "separated U \<longleftrightarrow> (\<forall>a k b j. (a, k) \<in> U \<longrightarrow> (b, j) \<in> U \<longrightarrow> (a, k) \<noteq> (b, j) \<longrightarrow>
     {a..<a + k} \<inter> {b..<b + j} = {})"

text \<open>On a region of 32780 bytes or more (the kernel asks for 40960) \<^verbatim>\<open>wdmalloc_init\<close> writes a
  first block whose size has the allocation bit set, and every \<^verbatim>\<open>wdmalloc\<close> of any size returns
  NULL and leaves the heap as it is: the heap never serves a request.\<close>

lemma large_region_never_serves:
  assumes "2 ^ 15 + 12 \<le> unat n"
  shows "\<exists>w. wdmalloc_init start n w0 = Inr w \<and> (\<forall>k. wdmalloc k w = Inr (NULL, w))"
proof -
  define w where "w = set_lom start NULL (set_sz start (n - 12) (set_prev_sz start 0
    (w0\<lparr>heap_start := start, heap_size := n, freelist_head := start\<rparr>)))"
  have n: "unat n < 2 ^ 16" using unsigned_less [of n] by simp
  have "unat (n - 12) = unat n - 12" using assms unat_sub_if' [of n 12] by simp
  then have "unat (n - 12) div 2 ^ 15 = 1" using assms n by simp
  then have "(n - 12) div 2 ^ 15 = 1" by (simp add: word_unat_eq_iff unat_div)
  then have "bit (n - 12) 15" by (simp add: bit_iff_odd)
  moreover have "bit WDM_ALLOC_BIT 15" by (simp add: WDM_ALLOC_BIT_def)
  ultimately have "bit ((n - 12) AND WDM_ALLOC_BIT) 15" by (simp add: bit_and_iff)
  then have "(n - 12) AND WDM_ALLOC_BIT \<noteq> 0" by (metis bit_0_eq bot_apply bot_bool_def)
  then have "\<not> WDM_IS_FREE w start" by (simp add: WDM_IS_FREE_def w_def)
  moreover have "hdr_lom w start = NULL" by (simp add: w_def)
  ultimately have "best_fit w k start NULL best = Some best" for k best
    by (simp add: best_fit.simps [of _ _ start] best_fit.simps [of _ _ NULL])
  then have "wdmalloc k w = Inr (NULL, w)" for k by (simp add: wdmalloc_def w_def)
  moreover have "wdmalloc_init start n w0 = Inr w"
    using assms by (simp add: wdmalloc_init_def Let_def w_def word_less_nat_alt)
  ultimately show ?thesis by blast
qed

section \<open>Properties\<close>

text \<open>A heap of 100 bytes payload, all free, and one of two blocks whose upper one is in use.\<close>

definition bare_heap :: wdm where
  "bare_heap = \<lparr>freelist_head = 0x1000, heap_start = 0x1000, heap_size = 112, wmem = (\<lambda>_. 0)\<rparr>"

definition one_block_heap :: wdm where
  "one_block_heap = set_lom (ad 0x1000) NULL (set_sz (ad 0x1000) 100 (set_prev_sz (ad 0x1000) 0 bare_heap))"

definition two_block_heap :: wdm where
  "two_block_heap = set_lom (ad 0x1034) WDM_MAGIC (set_sz (ad 0x1034) (48 OR WDM_ALLOC_BIT)
     (set_prev_sz (ad 0x1034) 40
     (set_lom (ad 0x1000) NULL (set_sz (ad 0x1000) 40 (set_prev_sz (ad 0x1000) 0 bare_heap)))))"

definition full_heap :: wdm where
  "full_heap = set_lom (ad 0x1000) WDM_MAGIC (set_sz (ad 0x1000) (100 OR WDM_ALLOC_BIT)
     (set_prev_sz (ad 0x1000) 0 (bare_heap\<lparr>freelist_head := NULL\<rparr>)))"

lemma bare_heap_simps [simp]:
  "freelist_head bare_heap = ad 0x1000" "heap_start bare_heap = 0x1000" "heap_size bare_heap = 112"
  by (simp_all add: bare_heap_def ad_def)

lemma one_block_heap_inv: "heap_inv one_block_heap [(100, True)] [0x1000]"
  by (simp add: heap_inv_def heap_bounds_def one_block_heap_def)

lemma two_block_heap_inv: "heap_inv two_block_heap [(40, True), (48, False)] [0x1000]"
proof -
  have "apart 0x1034 0x1000" "apart 0x1000 0x1034" by (simp_all add: apart_def)
  then show ?thesis
    by (simp add: heap_inv_def heap_bounds_def two_block_heap_def hdr_simps)
qed

lemma full_heap_inv: "heap_inv full_heap [(100, False)] []"
  by (simp add: heap_inv_def heap_bounds_def full_heap_def)

text \<open>C2: \<^verbatim>\<open>wdmalloc\<close> always returns. It gives NULL, and changes nothing, exactly when no free
  block is large enough; otherwise it takes the smallest free block that fits, hands out its upper
  end (or all of it, when no header fits in the rest), leaves a heap that satisfies the invariant
  again, and changes no byte of any block in use and none outside the heap.\<close>

theorem wdmalloc_best_fit:
  assumes "heap_inv w bs fl"
  shows "wdmalloc n w = Inr (NULL, w) \<and> (\<forall>t. (t, True) \<in> set bs \<longrightarrow> t < unat n) \<or>
    (\<exists>xs s ys w' fl'. best_block (unat n) bs xs s ys \<and>
      wdmalloc n w = Inr (ad (unat (heap_start w) + place_offset (unat n) xs s), w') \<and>
      heap_inv w' (place_block (unat n) xs s ys) fl' \<and> keeps (protected w bs) w w')"
  by (rule wdmalloc_correct [OF assms])

theorem wdmalloc_best_fit_witness:
  "\<exists>w' fl'. wdmalloc 20 one_block_heap = Inr (ad (0x1000 + 92), w') \<and>
    heap_inv w' [(68, True), (20, False)] fl'"
proof -
  have [simp]: "heap_start one_block_heap = 0x1000" by (simp add: one_block_heap_def)
  have "best_block 20 [(100, True)] xs s ys \<longleftrightarrow> xs = [] \<and> s = 100 \<and> ys = []" for xs s ys
    by (auto simp: best_block_def Cons_eq_append_conv)
  then show ?thesis
    using wdmalloc_best_fit [OF one_block_heap_inv, of 20] by (auto simp: place_block_def place_offset_def)
qed



text \<open>C14: once the last free block is handed out the heap is stuck: \<^verbatim>\<open>wdfree\<close> ignores every
  pointer, so nothing is ever free again, and \<^verbatim>\<open>wdmalloc\<close>, \<^verbatim>\<open>wdcalloc\<close> and
  \<^verbatim>\<open>wdrealloc\<close> return NULL.\<close>

theorem full_heap_is_stuck:
  assumes "heap_inv w bs fl" "\<forall>t. (t, True) \<notin> set bs"
  shows "wdfree p w = Inr w \<and> wdmalloc n w = Inr (NULL, w) \<and> wdcalloc k n w = Inr (NULL, w) \<and>
    wdrealloc p n w = Inr (NULL, w)"
proof -
  have "fl = []" using heap_inv_free_block [OF assms(1)] assms(2) by (metis in_set_conv_decomp list.set_intros(1) neq_Nil_conv)
  then have "heap_unusable w" by (simp add: heap_unusable_iff [OF assms(1)])
  then show ?thesis by (simp add: wdfree_def wdmalloc_def wdcalloc_def wdrealloc_def)
qed

theorem full_heap_is_stuck_witness:
  "wdfree (ad 0x100C) full_heap = Inr full_heap \<and> wdmalloc 1 full_heap = Inr (NULL, full_heap) \<and>
    wdcalloc 1 1 full_heap = Inr (NULL, full_heap) \<and> wdrealloc (ad 0x100C) 1 full_heap = Inr (NULL, full_heap)"
  by (rule full_heap_is_stuck [OF full_heap_inv]) simp

end
