(* ===== verification/Wdrealloc.thy ===== *)
theory Wdrealloc
  imports Wdfree
begin

text \<open>
  Proofs about \<^verbatim>\<open>wdrealloc\<close> of \<^verbatim>\<open>src/kernel/mem/wdmalloc.c\<close>: every way it resizes a block keeps the
  invariant of the heap, the other blocks and the data. With it the heap is an allocator whose clients
  may also resize what they hold; the sessions of such a client are at the end.
\<close>

section \<open>Copying payloads\<close>

lemma hdr_ad_cong:
  assumes "\<And>z. x \<le> z \<Longrightarrow> z < x + 12 \<Longrightarrow> wmem w' (ad z) = wmem w (ad z)"
  shows "hdr_prev_sz w' (ad x) = hdr_prev_sz w (ad x)" "hdr_sz w' (ad x) = hdr_sz w (ad x)"
    "hdr_lom w' (ad x) = hdr_lom w (ad x)"
proof -
  have "wmem w' y = wmem w y" if "unat (y - ad x) < 12" for y
  proof -
    have "y = ad (x + unat (y - ad x))" by (simp add: ad_def)
    then show ?thesis using assms [of "x + unat (y - ad x)"] that by simp
  qed
  then show "hdr_prev_sz w' (ad x) = hdr_prev_sz w (ad x)" "hdr_sz w' (ad x) = hdr_sz w (ad x)"
    "hdr_lom w' (ad x) = hdr_lom w (ad x)" by (rule hdr_cong, simp)+
qed

lemma wmemmove_globals [simp]:
  "freelist_head (wmemmove d s n w) = freelist_head w" "heap_start (wmemmove d s n w) = heap_start w"
  "heap_size (wmemmove d s n w) = heap_size w"
  by (simp_all add: wmemmove_def)

lemma wmemmove_same [simp]: "wmemmove d d n w = w"
  by (simp add: wmemmove_def memmove_def)

lemma wmemmove_ad:
  assumes "d \<le> p \<or> p + m \<le> d" "d + m < 2 ^ 64" "p + m < 2 ^ 64" "m < 2 ^ 16" "y < 2 ^ 64"
  shows "wmem (wmemmove (ad d) (ad p) (of_nat m) w) (ad y) =
    (if d \<le> y \<and> y < d + m then wmem w (ad (p + (y - d))) else wmem w (ad y))"
proof -
  have m: "unat (ucast (of_nat m :: u16) :: u64) = m" using assms(4) u16_of_nat_simps(1) [of m m] by simp
  have "m \<le> unat (ad d - ad p)" if "d \<noteq> p"
    using unat_of_nat_diff [of d p m 0] assms that by (auto simp: ad_def not_less)
  then have "copy_safe (ad d) (ad p) m" by (auto simp: copy_safe_def)
  then have "wmem (wmemmove (ad d) (ad p) (of_nat m) w) (ad y) =
      (if unat (ad y - ad d) < m then wmem w (ad p + (ad y - ad d)) else wmem w (ad y))"
    using memmove_apply [of "ad d" "ad p" "ucast (of_nat m :: u16)" "wmem w"] m by (simp add: wmemmove_def)
  moreover have "unat (ad y - ad d) < m \<longleftrightarrow> d \<le> y \<and> y < d + m"
    using unat_of_nat_diff [of y d m 0] assms by (auto simp: ad_def)
  moreover have "ad p + (ad y - ad d) = ad (p + (y - d))" if "d \<le> y" using that by (simp add: ad_def)
  ultimately show ?thesis by auto
qed

section \<open>A hole between the blocks\<close>

text \<open>
  The state while a block is resized: between the blocks \<open>xs\<close> and \<open>ys\<close> there is room for one block
  of size \<open>s\<close>, whose size field and payload may be anything; the header after it may hold an old size.
\<close>

definition hole :: "wdm \<Rightarrow> blk list \<Rightarrow> nat \<Rightarrow> blk list \<Rightarrow> nat \<Rightarrow> nat list \<Rightarrow> bool" where
  "hole w xs s ys q fl \<longleftrightarrow> heap_bounds w (xs @ (s, False) # ys) \<and>
     chain w (unat (heap_start w)) 0 xs \<and>
     hdr_prev_sz w (ad (unat (heap_start w) + span xs)) = of_nat (lastsz 0 xs) \<and>
     chain w (unat (heap_start w) + span xs + 12 + s) q ys \<and>
     flinks w (freelist_head w) fl \<and> distinct fl \<and>
     set fl = set (frees (unat (heap_start w)) xs) \<union> set (frees (unat (heap_start w) + span xs + 12 + s) ys)"

lemma hole_heap_inv:
  "heap_inv w (xs @ (s, False) # ys) fl \<longleftrightarrow>
     hole w xs s ys s fl \<and> hdr_sz w (ad (unat (heap_start w) + span xs)) = of_nat s OR WDM_ALLOC_BIT"
  by (auto simp: heap_inv_def hole_def)

text \<open>The headers in use around a hole.\<close>

lemma hole_hdrs:
  assumes "hole w xs s ys q fl" "x = unat (heap_start w) + span xs"
    "y \<in> set (hdrs (unat (heap_start w)) xs) \<union> set (hdrs (x + 12 + s) ys)"
  shows "y + 12 \<le> x \<or> x + 12 + s \<le> y" "y + 12 < 2 ^ 64"
  using assms hdrs_bounds [of y "unat (heap_start w)" xs] hdrs_bounds [of y "x + 12 + s" ys]
  by (auto simp: hole_def heap_bounds_def)

lemma hole_fl:
  assumes "hole w xs s ys q fl" "x = unat (heap_start w) + span xs" "y \<in> set fl"
  shows "y \<in> set (hdrs (unat (heap_start w)) xs) \<union> set (hdrs (x + 12 + s) ys)" "apart x y"
proof -
  show h: "y \<in> set (hdrs (unat (heap_start w)) xs) \<union> set (hdrs (x + 12 + s) ys)"
    using assms frees_hdrs by (fastforce simp: hole_def)
  show "apart x y" using hole_hdrs [OF assms(1,2) h] assms(1,2) by (auto simp: apart_def hole_def heap_bounds_def)
qed

lemma hole_frame:
  assumes h: "hole w xs s ys q fl" and x: "x = unat (heap_start w) + span xs"
    and g: "freelist_head w' = freelist_head w" "heap_start w' = heap_start w" "heap_size w' = heap_size w"
    and same: "\<And>y. y < x \<or> x + 12 + s \<le> y \<Longrightarrow> y < 2 ^ 64 \<Longrightarrow> wmem w' (ad y) = wmem w (ad y)"
    and prev: "hdr_prev_sz w' (ad x) = hdr_prev_sz w (ad x)"
  shows "hole w' xs s ys q fl"
proof -
  have eq: "hdr_prev_sz w' (ad y) = hdr_prev_sz w (ad y)" "hdr_sz w' (ad y) = hdr_sz w (ad y)"
    "hdr_lom w' (ad y) = hdr_lom w (ad y)"
    if "y \<in> set (hdrs (unat (heap_start w)) xs) \<union> set (hdrs (x + 12 + s) ys)" for y
    using hole_hdrs [OF h x that] by (auto intro!: hdr_ad_cong same)
  have "chain w' (unat (heap_start w)) 0 xs = chain w (unat (heap_start w)) 0 xs"
    "chain w' (x + 12 + s) q ys = chain w (x + 12 + s) q ys"
    by (rule chain_cong, use eq in simp)+
  moreover have "flinks w' p fl = flinks w p fl" for p
    using eq(3) hole_fl(1) [OF h x] by (intro flinks_cong) auto
  ultimately show ?thesis using h prev g by (simp add: hole_def heap_bounds_def x)
qed

lemma hole_set:
  assumes h: "hole w xs s ys q fl" and x: "x = unat (heap_start w) + span xs"
  shows "hole (set_sz (ad x) v16 w) xs s ys q fl" "hole (set_lom (ad x) v64 w) xs s ys q fl"
proof -
  have "x + 12 \<le> 2 ^ 64" using h x by (simp add: hole_def heap_bounds_def)
  then show "hole (set_sz (ad x) v16 w) xs s ys q fl" "hole (set_lom (ad x) v64 w) xs s ys q fl"
    by (auto intro!: hole_frame [OF h x] simp: wmem_set_ad)
qed

text \<open>Filling the hole with one block in use.\<close>

lemma hole_fill:
  assumes h: "hole w xs s ys q fl" and x: "x = unat (heap_start w) + span xs"
    and sz: "hdr_sz w (ad x) = of_nat s OR WDM_ALLOC_BIT"
  shows "heap_inv (fix_prev (ad (x + 12 + s)) (of_nat s) w) (xs @ (s, False) # ys) fl"
    "keeps (protected w (xs @ (s, False) # ys)) w (fix_prev (ad (x + 12 + s)) (of_nat s) w)"
proof -
  have b: "heap_bounds w ((xs @ [(s, False)]) @ ys)" using h by (simp add: hole_def)
  have c: "chain w (unat (heap_start w)) 0 (xs @ [(s, False)])"
    "chain w (unat (heap_start w) + span (xs @ [(s, False)])) q ys"
    using h sz by (simp_all add: hole_def x add.assoc)
  have fl: "flinks w (freelist_head w) fl" "distinct fl"
    "set fl = set (frees (unat (heap_start w)) ((xs @ [(s, False)]) @ ys))"
    using h by (simp_all add: hole_def)
  have e: "x + 12 + s = unat (heap_start w) + span (xs @ [(s, False)])" "of_nat s = of_nat (lastsz 0 (xs @ [(s, False)]))"
    by (simp_all add: x)
  show "heap_inv (fix_prev (ad (x + 12 + s)) (of_nat s) w) (xs @ (s, False) # ys) fl"
    "keeps (protected w (xs @ (s, False) # ys)) w (fix_prev (ad (x + 12 + s)) (of_nat s) w)"
    using fix_prev_seal [OF b c fl e] by simp_all
qed

text \<open>Filling the hole with a block in use and, above it, a free block that is in no list yet.\<close>

lemma hole_cut:
  assumes h: "hole w xs s ys q fl" and x: "x = unat (heap_start w) + span xs"
    and sz: "hdr_sz w (ad x) = of_nat k OR WDM_ALLOC_BIT" and s: "s = k + 12 + r" and sp: "sp = x + 12 + k"
    and g: "heap_start w1 = heap_start w" "heap_size w1 = heap_size w"
    and out: "\<forall>y. y < sp \<or> sp + 12 \<le> y \<longrightarrow> y < 2 ^ 64 \<longrightarrow> wmem w1 (ad y) = wmem w (ad y)"
    and hd: "hdr_prev_sz w1 (ad sp) = of_nat k" "hdr_sz w1 (ad sp) = of_nat r"
  shows "heap_bounds w1 (xs @ (k, False) # (r, True) # ys)"
    "chain w1 (unat (heap_start w)) 0 (xs @ [(k, False), (r, True)])" "chain w1 (x + 12 + s) q ys"
    "flinks w1 p fl = flinks w p fl" "sp \<notin> set fl" "keeps (protected w (xs @ (k, False) # (r, True) # ys)) w w1"
proof -
  let ?H = "unat (heap_start w)"
  have lim: "x + 12 + s + span ys < 2 ^ 64" using h by (simp add: hole_def heap_bounds_def x)
  show "heap_bounds w1 (xs @ (k, False) # (r, True) # ys)" using h by (simp add: hole_def heap_bounds_def g s)
  have eq: "hdr_prev_sz w1 (ad y) = hdr_prev_sz w (ad y)" "hdr_sz w1 (ad y) = hdr_sz w (ad y)"
    "hdr_lom w1 (ad y) = hdr_lom w (ad y)" if "y + 12 \<le> sp \<or> sp + 12 \<le> y" "y + 12 \<le> 2 ^ 64" for y
    using that out by (auto intro!: hdr_ad_cong)
  have far: "y + 12 \<le> sp \<or> sp + 12 \<le> y" "y + 12 \<le> 2 ^ 64"
    if "y \<in> set (hdrs ?H xs) \<union> set (hdrs (x + 12 + s) ys)" for y
    using hole_hdrs [OF h x that] by (auto simp: sp s)
  have "chain w1 ?H 0 xs = chain w ?H 0 xs" "chain w1 (x + 12 + s) q ys = chain w (x + 12 + s) q ys"
    by (rule chain_cong, use eq [OF far] in simp)+
  then have c: "chain w1 ?H 0 xs" and c': "chain w1 (x + 12 + s) q ys" using h by (simp_all add: hole_def x)
  then show "chain w1 (x + 12 + s) q ys" by simp
  have "hdr_prev_sz w1 (ad x) = of_nat (lastsz 0 xs)" "hdr_sz w1 (ad x) = of_nat k OR WDM_ALLOC_BIT"
    using eq [of x] h sz lim by (simp_all add: hole_def sp x)
  then show "chain w1 ?H 0 (xs @ [(k, False), (r, True)])" using c hd by (simp add: sp x)
  show "flinks w1 p fl = flinks w p fl" using eq(3) [OF far] hole_fl(1) [OF h x] by (intro flinks_cong) blast
  show "sp \<notin> set fl" using far [OF hole_fl(1) [OF h x, of sp]] by auto
  have "\<not> (sp \<le> y \<and> y < sp + 12)" if "y \<in> protected w (xs @ (k, False) # (r, True) # ys)" for y
    by (rule hdrs_protected [OF _ that]) (simp add: sp x)
  then show "keeps (protected w (xs @ (k, False) # (r, True) # ys)) w w1"
    using out g by (auto simp: keeps_def not_le not_less)
qed

text \<open>The same with the free block at the head of the free list.\<close>

lemma hole_split:
  assumes h: "hole w xs s ys q fl" and x: "x = unat (heap_start w) + span xs"
    and sz: "hdr_sz w (ad x) = of_nat k OR WDM_ALLOC_BIT" and s: "s = k + 12 + r"
  defines "sp \<equiv> x + 12 + k"
  defines "w1 \<equiv> (set_lom (ad sp) (freelist_head w) (set_prev_sz (ad sp) (of_nat k) (set_sz (ad sp) (of_nat r) w)))
    \<lparr>freelist_head := ad sp\<rparr>"
  shows "heap_inv (fix_prev (ad (sp + 12 + r)) (of_nat r) w1) (xs @ (k, False) # (r, True) # ys) (sp # fl)"
    "keeps (protected w (xs @ (k, False) # (r, True) # ys)) w (fix_prev (ad (sp + 12 + r)) (of_nat r) w1)"
proof -
  let ?H = "unat (heap_start w)" and ?bs = "xs @ (k, False) # (r, True) # ys"
  define pre where "pre = xs @ [(k, False), (r, True)]"
  have g: "heap_start w1 = heap_start w" "heap_size w1 = heap_size w" "freelist_head w1 = ad sp" by (simp_all add: w1_def)
  have e: "sp + 12 + r = x + 12 + s" "sp + 12 + r = ?H + span pre" by (simp_all add: sp_def s pre_def x)
  have "sp + 12 \<le> 2 ^ 64" using h by (simp add: hole_def heap_bounds_def x sp_def s)
  then have out: "\<forall>y. y < sp \<or> sp + 12 \<le> y \<longrightarrow> y < 2 ^ 64 \<longrightarrow> wmem w1 (ad y) = wmem w (ad y)"
    by (auto simp: w1_def wmem_set_ad)
  have hd: "hdr_prev_sz w1 (ad sp) = of_nat k" "hdr_sz w1 (ad sp) = of_nat r" by (simp_all add: w1_def)
  note C = hole_cut [OF h x sz s sp_def [THEN meta_eq_to_obj_eq] g(1,2) out hd]
  have b: "heap_bounds w1 (pre @ ys)" "chain w1 ?H 0 pre" "chain w1 (?H + span pre) q ys"
    using C(1-3) unfolding e(2) [symmetric] e(1) by (simp_all add: pre_def)
  have fl: "flinks w1 (freelist_head w1) (sp # fl)" "distinct (sp # fl)" "set (sp # fl) = set (frees ?H (pre @ ys))"
    using h C(4,5) by (simp_all add: g) (simp_all add: w1_def hole_def pre_def x sp_def s add.assoc Un_insert_right)
  note S = fix_prev_seal [OF b(1), unfolded g(1), OF b(2,3) fl e(2), of "of_nat r"]
  show "heap_inv (fix_prev (ad (sp + 12 + r)) (of_nat r) w1) ?bs (sp # fl)" using S(1) by (simp add: pre_def)
  have "protected w1 ?bs = protected w ?bs" by (simp add: protected_def g)
  then show "keeps (protected w ?bs) w (fix_prev (ad (sp + 12 + r)) (of_nat r) w1)"
    using S(2) keeps_trans [OF C(6)] by (simp add: pre_def)
qed

section \<open>Growing in place\<close>

text \<open>The copy of the old payload to the start of the new block, where the old block is part of it.\<close>

lemma realloc_move:
  assumes "x = h \<or> x < h \<and> WDM_ACTUAL_SIZE w (ad h) = of_nat m" "h + 12 + m < 2 ^ 64" "m < 2 ^ 15"
  defines "w' \<equiv> wmemmove (ad (x + 12)) (ad (h + 12)) (WDM_ACTUAL_SIZE w (ad h)) w"
  shows "i < m \<Longrightarrow> wmem w' (ad (x + 12 + i)) = wmem w (ad (h + 12 + i))"
    "\<not> (x + 12 \<le> y \<and> y < x + 12 + m) \<Longrightarrow> y < 2 ^ 64 \<Longrightarrow> wmem w' (ad y) = wmem w (ad y)"
proof -
  have *: "wmem w' (ad y) = (if x + 12 \<le> y \<and> y < x + 12 + m then wmem w (ad (h + 12 + (y - (x + 12)))) else wmem w (ad y))"
    if "y < 2 ^ 64" for y
  proof (cases "x = h")
    case False
    then show ?thesis using wmemmove_ad [of "x + 12" "h + 12" m y w] assms that by auto
  qed (simp add: w'_def)
  show "i < m \<Longrightarrow> wmem w' (ad (x + 12 + i)) = wmem w (ad (h + 12 + i))" using * [of "x + 12 + i"] assms by auto
  show "\<not> (x + 12 \<le> y \<and> y < x + 12 + m) \<Longrightarrow> y < 2 ^ 64 \<Longrightarrow> wmem w' (ad y) = wmem w (ad y)" using * by auto
qed

text \<open>The blocks after growing to \<open>k\<close> bytes in a hole of \<open>s\<close>.\<close>

definition grown :: "nat \<Rightarrow> blk list \<Rightarrow> nat \<Rightarrow> blk list \<Rightarrow> blk list" where
  "grown k xs s ys = (if k + 16 \<le> s then xs @ (k, False) # (s - k - 12, True) # ys else xs @ (s, False) # ys)"

lemma actual_size_set:
  assumes "apart x h"
  shows "WDM_ACTUAL_SIZE (set_sz (ad x) v16 w) (ad h) = WDM_ACTUAL_SIZE w (ad h)"
    "WDM_ACTUAL_SIZE (set_lom (ad x) v64 w) (ad h) = WDM_ACTUAL_SIZE w (ad h)"
    "WDM_ACTUAL_SIZE (set_prev_sz (ad x) v16 w) (ad h) = WDM_ACTUAL_SIZE w (ad h)"
  using assms by (simp_all add: WDM_ACTUAL_SIZE_def hdr_simps)

text \<open>The new header, then the copy: what lies around the hole is as before.\<close>

definition marked :: "nat \<Rightarrow> u16 \<Rightarrow> wdm \<Rightarrow> wdm" where
  "marked x v w = set_lom (ad x) WDM_MAGIC (set_sz (ad x) v w)"

lemma hole_marked:
  assumes h: "hole w xs s ys q fl" and x: "x = unat (heap_start w) + span xs"
  shows "hole (marked x v w) xs s ys q fl" "hdr_sz (marked x v w) (ad x) = v"
    "y < 2 ^ 64 \<Longrightarrow> \<not> (x \<le> y \<and> y < x + 12) \<Longrightarrow> wmem (marked x v w) (ad y) = wmem w (ad y)"
    "heap_start (marked x v w) = heap_start w" "heap_size (marked x v w) = heap_size w"
proof -
  show g: "heap_start (marked x v w) = heap_start w" "heap_size (marked x v w) = heap_size w" by (simp_all add: marked_def)
  have lim: "x + 12 \<le> 2 ^ 64" using h x by (simp add: hole_def heap_bounds_def)
  show "hole (marked x v w) xs s ys q fl"
    unfolding marked_def using hole_set(2) [OF hole_set(1) [OF h x]] x by simp
  show "hdr_sz (marked x v w) (ad x) = v" by (simp add: marked_def)
  show "y < 2 ^ 64 \<Longrightarrow> \<not> (x \<le> y \<and> y < x + 12) \<Longrightarrow> wmem (marked x v w) (ad y) = wmem w (ad y)"
    using lim by (simp add: marked_def wmem_set_ad)
qed

lemma hole_keeps:
  assumes "hole w xs s ys q fl" "x = unat (heap_start w) + span xs"
    "heap_start w' = heap_start w" "heap_size w' = heap_size w"
    "\<And>y. y < x \<or> x + 12 + s \<le> y \<Longrightarrow> y < 2 ^ 64 \<Longrightarrow> wmem w' (ad y) = wmem w (ad y)"
  shows "keeps (protected w (xs @ (s, True) # ys)) w w'"
proof -
  have "y < x \<or> x + 12 + s \<le> y" if "y \<in> protected w (xs @ (s, True) # ys)" for y
    using that assms(2) used_bytes_bounds [of y "unat (heap_start w)" xs] used_bytes_bounds [of y "x + 12 + s" ys]
    by (auto simp: protected_def add.assoc)
  then show ?thesis using assms(3-5) by (auto simp: keeps_def)
qed

text \<open>The comparison of the space left over, at 64 bits.\<close>

lemma room_condition:
  fixes n :: u16
  assumes "s < 2 ^ 15" "unat n \<le> s"
  shows "(ucast (of_nat s :: u16) - ucast n :: u64) \<ge> 12 + 4 \<longleftrightarrow> unat n + 16 \<le> s"
proof -
  have s: "unat (of_nat s :: u16) = s" using u16_of_nat_simps(1) [of s s] assms(1) by simp
  have "unat (ucast (of_nat s :: u16) - ucast n :: u64) = s - unat n"
    using assms(2) by (subst unat_sub) (simp_all add: word_le_nat_alt s)
  then show ?thesis using assms(2) by (auto simp: word_le_nat_alt)
qed

lemma hole_move:
  assumes h: "hole w xs s ys q fl" and x: "x = unat (heap_start w) + span xs"
    and p: "x = p \<or> x + 12 \<le> p \<and> WDM_ACTUAL_SIZE w (ad p) = of_nat m" "p + m \<le> x + s" "m \<le> s"
  defines "w' \<equiv> wmemmove (ad (x + 12)) (ad (p + 12)) (WDM_ACTUAL_SIZE w (ad p)) w"
  shows "hole w' xs s ys q fl" "hdr_sz w' (ad x) = hdr_sz w (ad x)" "heap_start w' = heap_start w"
    "keeps (protected w (xs @ (s, True) # ys)) w w'"
    "i < m \<Longrightarrow> wmem w' (ad (x + 12 + i)) = wmem w (ad (p + 12 + i))"
proof -
  have lim: "x + 12 + s < 2 ^ 64" "s < 2 ^ 15" using h by (simp_all add: hole_def heap_bounds_def x)
  have c: "x = p \<or> x < p \<and> WDM_ACTUAL_SIZE w (ad p) = of_nat m" "p + 12 + m < 2 ^ 64" "m < 2 ^ 15"
    using p lim by auto
  note V = realloc_move [OF c, folded w'_def]
  show "i < m \<Longrightarrow> wmem w' (ad (x + 12 + i)) = wmem w (ad (p + 12 + i))" by (rule V(1))
  have g: "freelist_head w' = freelist_head w" "heap_start w' = heap_start w" "heap_size w' = heap_size w"
    by (simp_all add: w'_def)
  then show "heap_start w' = heap_start w" by simp
  have "wmem w' (ad z) = wmem w (ad z)" if "x \<le> z" "z < x + 12" for z using V(2) [of z] that lim by simp
  then have f: "hdr_prev_sz w' (ad x) = hdr_prev_sz w (ad x)" and "hdr_sz w' (ad x) = hdr_sz w (ad x)"
    using hdr_ad_cong [of x w' w] by auto
  then show "hdr_sz w' (ad x) = hdr_sz w (ad x)" by simp
  have out: "wmem w' (ad y) = wmem w (ad y)" if "y < x \<or> x + 12 + s \<le> y" "y < 2 ^ 64" for y
    using V(2) [of y] that p(3) by auto
  show "hole w' xs s ys q fl" by (rule hole_frame [OF h x g out f])
  show "keeps (protected w (xs @ (s, True) # ys)) w w'" by (rule hole_keeps [OF h x g(2,3) out])
qed

lemma realloc_place_split:
  assumes h: "hole w xs s ys q fl" and x: "x = unat (heap_start w) + span xs"
    and n: "unat n + 16 \<le> s" "m < unat n" and p: "x = p \<or> x + 12 \<le> p" "p + m \<le> x + s"
    and m: "WDM_ACTUAL_SIZE w (ad p) = of_nat m"
  shows "\<exists>w' fl'. realloc_place (ad x) (ad p) (ad (p + 12)) (of_nat s) n w = (ad (x + 12), w') \<and>
    heap_inv w' (xs @ (unat n, False) # (s - unat n - 12, True) # ys) fl' \<and>
    keeps (protected w (xs @ (s, True) # ys)) w w' \<and>
    (\<forall>i<m. wmem w' (ad (x + 12 + i)) = wmem w (ad (p + 12 + i)))"
proof -
  define k r where "k = unat n" and "r = s - k - 12"
  define w1 where "w1 = marked x (n OR WDM_ALLOC_BIT) w"
  define w2 where "w2 = wmemmove (ad (x + 12)) (ad (p + 12)) (WDM_ACTUAL_SIZE w1 (ad p)) w1"
  let ?bs = "xs @ (k, False) # (r, True) # ys" and ?sp = "x + 12 + k"
  define w3 where "w3 = (set_lom (ad ?sp) (freelist_head w2) (set_prev_sz (ad ?sp) n (set_sz (ad ?sp) (of_nat r) w2)))
    \<lparr>freelist_head := ad ?sp\<rparr>"
  define w' where "w' = fix_prev (ad (?sp + 12 + r)) (of_nat r) w3"
  have k: "of_nat k = n" "m < k" "k < 2 ^ 15" and s: "s = k + 12 + r" and lim: "x + 12 + s < 2 ^ 64" "s < 2 ^ 15"
    using n h by (simp_all add: k_def r_def hole_def heap_bounds_def x)
  note M = hole_marked [OF h x, where v = "n OR WDM_ALLOC_BIT", folded w1_def]
  have x1: "x = unat (heap_start w1) + span xs" by (simp add: M(4) x)
  have "apart x p" if "x \<noteq> p" using p lim that by (auto simp: apart_def)
  then have c: "x = p \<or> x + 12 \<le> p \<and> WDM_ACTUAL_SIZE w1 (ad p) = of_nat m" and ms: "m \<le> s"
    using p(1) m actual_size_set [of x p] k(2) s by (auto simp: w1_def marked_def)
  note V = hole_move [OF M(1) x1 c p(2) ms, folded w2_def]
  have x2: "x = unat (heap_start w2) + span xs" by (simp add: V(3) x1)
  note S = hole_split [OF V(1) x2 _ s, unfolded V(2) M(2) k(1), OF refl, folded w3_def, folded w'_def]
  have "ad (x + 12) + ucast n = ad ?sp" "ad ?sp + 12 + ucast (of_nat r :: u16) = ad (?sp + 12 + r)"
    using ad_plus_size [of k "x + 12"] k lim s by (simp_all add: ad_plus_12 ad_plus_size)
  moreover have "(of_nat s - n - 12 :: u16) = of_nat r" using k(1) by (simp add: s)
  ultimately have "realloc_place (ad x) (ad p) (ad (p + 12)) (of_nat s) n w = (ad (x + 12), w')"
    using room_condition [OF lim(2), of n] n
    by (simp add: realloc_place_def Let_def w'_def w3_def w2_def w1_def marked_def ad_plus_12 k(1))
  moreover have "keeps (protected w (xs @ (s, True) # ys)) w w1"
    using M(3) by (intro hole_keeps [OF h x M(4,5)]) auto
  moreover have "protected w1 (xs @ (s, True) # ys) = protected w (xs @ (s, True) # ys)"
    "protected w (xs @ (s, True) # ys) \<subseteq> protected w2 ?bs"
    by (auto simp: protected_def V(3) M(4) s add.assoc)
  then have "keeps (protected w (xs @ (s, True) # ys)) w1 w2" "keeps (protected w (xs @ (s, True) # ys)) w2 w'"
    using V(4) keeps_mono [OF S(2)] by simp_all
  moreover have "wmem w' (ad (x + 12 + i)) = wmem w (ad (p + 12 + i))" if i: "i < m" for i
  proof -
    have "x + 12 + i \<in> protected w2 ?bs" using i k(2) by (auto simp: protected_def V(3) M(4) x)
    then have "wmem w' (ad (x + 12 + i)) = wmem w2 (ad (x + 12 + i))" using S(2) i k(2) s lim by (auto simp: keeps_def)
    also have "\<dots> = wmem w (ad (p + 12 + i))" using V(5) [OF i] M(3) [of "p + 12 + i"] p lim i by auto
    finally show ?thesis .
  qed
  ultimately show ?thesis using S(1) unfolding r_def k_def by (blast intro: keeps_trans)
qed

lemma realloc_place_whole:
  assumes h: "hole w xs s ys q fl" and x: "x = unat (heap_start w) + span xs"
    and n: "unat n \<le> s" "\<not> unat n + 16 \<le> s" "m < unat n" and p: "x = p \<or> x + 12 \<le> p" "p + m \<le> x + s"
    and m: "WDM_ACTUAL_SIZE w (ad p) = of_nat m"
  shows "\<exists>w' fl'. realloc_place (ad x) (ad p) (ad (p + 12)) (of_nat s) n w = (ad (x + 12), w') \<and>
    heap_inv w' (xs @ (s, False) # ys) fl' \<and> keeps (protected w (xs @ (s, True) # ys)) w w' \<and>
    (\<forall>i<m. wmem w' (ad (x + 12 + i)) = wmem w (ad (p + 12 + i)))"
proof -
  define w1 where "w1 = marked x (of_nat s OR WDM_ALLOC_BIT) w"
  define w2 where "w2 = fix_prev (ad (x + 12 + s)) (of_nat s) w1"
  define w' where "w' = wmemmove (ad (x + 12)) (ad (p + 12)) (WDM_ACTUAL_SIZE w2 (ad p)) w2"
  let ?P = "protected w (xs @ (s, True) # ys)"
  have lim: "x + 12 + s < 2 ^ 64" "s < 2 ^ 15" using h by (simp_all add: hole_def heap_bounds_def x)
  note M = hole_marked [OF h x, where v = "of_nat s OR WDM_ALLOC_BIT", folded w1_def]
  have x1: "x = unat (heap_start w1) + span xs" by (simp add: M(4) x)
  note F = hole_fill [OF M(1) x1 M(2), folded w2_def]
  have x2: "x = unat (heap_start w2) + span xs" by (simp add: w2_def x1)
  have h2: "hole w2 xs s ys s fl" "hdr_sz w2 (ad x) = of_nat s OR WDM_ALLOC_BIT"
    using F(1) unfolding hole_heap_inv x2 [symmetric] by simp_all
  have b: "heap_bounds w1 ((xs @ [(s, False)]) @ ys)" using M(1) by (simp add: hole_def)
  have "w2 = (if ys = [] then w1 else set_prev_sz (ad (x + 12 + s)) (of_nat s) w1)"
    using fix_prev_eq [OF b, of "of_nat s"] by (simp add: w2_def x1 add.assoc)
  moreover have "ys \<noteq> [] \<Longrightarrow> x + 12 + s + 12 \<le> 2 ^ 64" using h by (cases ys) (auto simp: hole_def heap_bounds_def x)
  then have "apart x p" "ys \<noteq> [] \<Longrightarrow> apart (x + 12 + s) p" if "x \<noteq> p" using p lim that by (auto simp: apart_def)
  ultimately have c: "x = p \<or> x + 12 \<le> p \<and> WDM_ACTUAL_SIZE w2 (ad p) = of_nat m" and ms: "m \<le> s"
    using p(1) m actual_size_set [of x p] actual_size_set(3) [of "x + 12 + s" p] n by (auto simp: w1_def marked_def)
  note V = hole_move [OF h2(1) x2 c p(2) ms, folded w'_def]
  have "heap_inv w' (xs @ (s, False) # ys) fl"
    using V(1,2) h2(2) x2 by (simp add: hole_heap_inv V(3))
  moreover have "ad (x + 12) + ucast (WDM_ACTUAL_SIZE w1 (ad x)) = ad (x + 12 + s)"
    using lim(2) by (simp add: WDM_ACTUAL_SIZE_def M(2) alloc_bit_facts ad_plus_size)
  then have "realloc_place (ad x) (ad p) (ad (p + 12)) (of_nat s) n w = (ad (x + 12), w')"
    using room_condition [OF lim(2) n(1)] n(2)
    by (simp add: realloc_place_def Let_def w'_def w2_def w1_def marked_def ad_plus_12)
  moreover have "keeps ?P w w1" using M(3) by (intro hole_keeps [OF h x M(4,5)]) auto
  moreover have "?P \<subseteq> protected w1 (xs @ (s, False) # ys)" "protected w2 (xs @ (s, True) # ys) = ?P"
    by (auto simp: protected_def M(4) w2_def)
  then have "keeps ?P w1 w2" "keeps ?P w2 w'" using keeps_mono [OF F(2)] V(4) by simp_all
  moreover have "wmem w' (ad (x + 12 + i)) = wmem w (ad (p + 12 + i))" if i: "i < m" for i
  proof -
    have "p + 12 + i \<in> protected w1 (xs @ (s, False) # ys)" using i p by (auto simp: protected_def M(4) x)
    then have "wmem w2 (ad (p + 12 + i)) = wmem w1 (ad (p + 12 + i))" using F(2) i p lim by (auto simp: keeps_def)
    then show ?thesis using V(5) [OF i] M(3) [of "p + 12 + i"] p lim i by auto
  qed
  ultimately show ?thesis by (blast intro: keeps_trans)
qed

lemma realloc_place_correct:
  assumes "hole w xs s ys q fl" "x = unat (heap_start w) + span xs" "unat n \<le> s" "m < unat n"
    "x = p \<or> x + 12 \<le> p" "p + m \<le> x + s" "WDM_ACTUAL_SIZE w (ad p) = of_nat m"
  shows "\<exists>w' fl'. realloc_place (ad x) (ad p) (ad (p + 12)) (of_nat s) n w = (ad (x + 12), w') \<and>
    heap_inv w' (grown (unat n) xs s ys) fl' \<and> keeps (protected w (xs @ (s, True) # ys)) w w' \<and>
    (\<forall>i<m. wmem w' (ad (x + 12 + i)) = wmem w (ad (p + 12 + i)))"
  using realloc_place_split [OF assms(1,2) _ assms(4-7)] realloc_place_whole [OF assms(1-3) _ assms(4-7)]
  by (cases "unat n + 16 \<le> s") (simp_all add: grown_def)

text \<open>Taking blocks out of the free list.\<close>

lemma unlink_loop_spec:
  assumes "flinks w (freelist_head w) (us @ vs)" "flinks w cur vs" "distinct (us @ vs)"
    "set (us @ vs) \<subseteq> set (hdrs (unat (heap_start w)) bs)" "0 < unat (heap_start w)"
    "unat (heap_start w) + span bs < 2 ^ 64"
  shows "\<exists>w'. unlink_loop r0 r1 cur (link_before us) w = Some w' \<and>
    flinks w' (freelist_head w') (us @ filter (\<lambda>y. \<not> (ad y = r0 \<or> ad y = r1)) vs) \<and> keeps (protected w bs) w w' \<and>
    (\<forall>y \<in> set (hdrs (unat (heap_start w)) bs). hdr_sz w' (ad y) = hdr_sz w (ad y) \<and> hdr_prev_sz w' (ad y) = hdr_prev_sz w (ad y))"
  using assms
proof (induction vs arbitrary: us cur w)
  case Nil
  then show ?case by (simp add: unlink_loop.simps)
next
  case (Cons x vs)
  let ?H = "unat (heap_start w)" and ?v = "hdr_lom w (ad x)"
  have cur: "cur = ad x" and v: "flinks w ?v vs" using Cons.prems(2) by simp_all
  have hx: "x \<in> set (hdrs ?H bs)" using Cons.prems(4) by simp
  have nz: "ad y \<noteq> NULL" if "y \<in> set (hdrs ?H bs)" for y
    using hdrs_bounds [OF that] Cons.prems(5,6) ad_NULL [of y] by simp
  show ?case
  proof (cases "ad x = r0 \<or> ad x = r1")
    case False
    then have "unlink_loop r0 r1 cur (link_before us) w = unlink_loop r0 r1 ?v (link_before (us @ [x])) w"
      using nz [OF hx] unfolding cur by (subst unlink_loop.simps) (simp add: link_before_def)
    then show ?thesis using Cons.IH [of w "us @ [x]" ?v] Cons.prems v False by simp
  next
    case True
    have sub: "set (us @ vs) \<subseteq> set (hdrs ?H bs)" "set us \<subseteq> set (hdrs ?H bs)" and d: "distinct (us @ vs)"
      using Cons.prems(3,4) by auto
    define w1 where "w1 = relink (link_before us) ?v w"
    note r = relink_flinks [OF Cons.prems(1) v d sub(1) Cons.prems(5,6), folded w1_def]
    note f = relink_frame [OF r(1) sub(2) Cons.prems(6)]
    have "us \<noteq> [] \<Longrightarrow> last us \<in> set (hdrs ?H bs) \<and> last us \<noteq> x" using Cons.prems(3) sub(2) by auto
    then have ap: "us \<noteq> [] \<Longrightarrow> apart (last us) x" using hdrs_apart [of "last us" ?H bs x] hx Cons.prems(6) by auto
    have lom: "hdr_lom w1 (ad x) = ?v" unfolding r(1) using ap by (simp add: hdr_simps)
    have head: "us \<noteq> [] \<Longrightarrow> ad x \<noteq> freelist_head w"
    proof -
      assume "us \<noteq> []"
      then obtain y us' where us: "us = y # us'" by (cases us) auto
      then have "freelist_head w = ad y" "y \<in> set (hdrs ?H bs)" "y \<noteq> x" using Cons.prems(1,3) sub(2) by auto
      then show ?thesis using hdrs_bounds [of y ?H bs] hdrs_bounds [OF hx] Cons.prems(6) ad_inj [of x y] by simp
    qed
    have step: "(let w = (if link_before us \<noteq> NULL then set_lom (link_before us) ?v w else w)
        in if ad x = freelist_head w then w\<lparr>freelist_head := hdr_lom w (ad x)\<rparr> else w) = w1"
    proof (cases "us = []")
      case True
      then show ?thesis using Cons.prems(1) unfolding r(1) by (simp add: link_before_def)
    next
      case False
      then have "ad (last us) \<noteq> NULL" using sub(2) by (intro nz) auto
      then show ?thesis using False head unfolding r(1) by (simp add: link_before_def)
    qed
    have code: "unlink_loop r0 r1 cur (link_before us) w = unlink_loop r0 r1 ?v (link_before us) w1"
      unfolding cur by (subst unlink_loop.simps) (use True nz [OF hx] step lom in \<open>simp only: Let_def if_True if_False\<close>)
    have v1: "flinks w1 ?v vs"
    proof (cases us rule: rev_cases)
      case (snoc us' z)
      then show ?thesis using r(2) flinks_append [of w1 _ us' z vs] by (simp add: r(1))
    qed (use r(2) in \<open>simp add: r(1)\<close>)
    have h: "heap_start w1 = heap_start w" "protected w1 bs = protected w bs"
      using f(1) by (simp_all add: keeps_def protected_def)
    obtain w' where w': "unlink_loop r0 r1 ?v (link_before us) w1 = Some w'"
      "flinks w' (freelist_head w') (us @ filter (\<lambda>y. \<not> (ad y = r0 \<or> ad y = r1)) vs)" "keeps (protected w bs) w1 w'"
      "\<forall>y \<in> set (hdrs ?H bs). hdr_sz w' (ad y) = hdr_sz w1 (ad y) \<and> hdr_prev_sz w' (ad y) = hdr_prev_sz w1 (ad y)"
      using Cons.IH [OF r(2) v1 d, unfolded h] sub(1) Cons.prems(5,6) by blast
    then show ?thesis using code True f(2,3) keeps_trans [OF f(1) w'(3)] by auto
  qed
qed

text \<open>The free neighbours of a block in use.\<close>

lemma next_free_block:
  assumes inv: "heap_inv w (xs @ (m, False) # ys) fl" and x: "x = unat (heap_start w) + span xs"
    and nx: "next_neighbour (ad x) w \<noteq> NULL" "WDM_IS_FREE w (next_neighbour (ad x) w)"
  obtains u ys' where "ys = (u, True) # ys'" "next_neighbour (ad x) w = ad (x + 12 + m)"
    "hdr_sz w (next_neighbour (ad x) w) = of_nat u"
proof -
  note blk = heap_inv_block [OF inv, folded x]
  have b: "heap_bounds w (xs @ (m, False) # ys)" using inv by (simp add: heap_inv_def)
  have n: "next_neighbour (ad x) w = (if ys = [] then NULL else ad (x + 12 + m))"
    using next_neighbour_at [OF b x, of "lastsz 0 xs"] blk(5) by simp
  then obtain u g ys' where ys: "ys = (u, g) # ys'" using nx(1) by (cases ys) auto
  have u: "u < 2 ^ 15" by (rule block_size_bound [OF b, of u g]) (simp add: ys)
  note c = chain_block [OF blk(6) [unfolded ys] u]
  then show thesis using that n nx(2) ys by simp
qed

lemma prev_free_block:
  assumes inv: "heap_inv w (xs @ (m, False) # ys) fl" and x: "x = unat (heap_start w) + span xs"
    and pv: "prev_neighbour (ad x) w \<noteq> NULL" "WDM_IS_FREE w (prev_neighbour (ad x) w)"
  obtains t xs' where "xs = xs' @ [(t, True)]" "prev_neighbour (ad x) w = ad (unat (heap_start w) + span xs')"
    "hdr_sz w (prev_neighbour (ad x) w) = of_nat t"
proof -
  note blk = heap_inv_block [OF inv, folded x]
  have b: "heap_bounds w (xs @ (m, False) # ys)" using inv by (simp add: heap_inv_def)
  have "xs \<noteq> []" using prev_neighbour_start [OF b] pv(1) blk(5) x by auto
  then obtain t g xs' where xs: "xs = xs' @ [(t, g)]" by (cases xs rule: rev_cases) auto
  define p where "p = unat (heap_start w) + span xs'"
  have b': "heap_bounds w (xs' @ (t, g) # (m, False) # ys)" using b by (simp add: xs)
  have c: "chain w p (lastsz 0 xs') [(t, g)]" "hdr_prev_sz w (ad (p + 12 + t)) = of_nat t"
    using blk(4,5) by (simp_all add: xs x p_def add.assoc)
  have t: "t < 2 ^ 15" by (rule block_size_bound [OF b, of t g]) (simp add: xs)
  have "x = p + 12 + t" by (simp add: x xs p_def)
  then show thesis
    using that prev_neighbour_at [OF b' p_def c] chain_block(3) [OF c(1) t] pv(2) xs by (simp add: p_def)
qed

text \<open>Sums of sizes, computed at 64 bits.\<close>

lemma size_sum:
  "u < 2 ^ 16 \<Longrightarrow> m < 2 ^ 16 \<Longrightarrow> (ucast (of_nat u :: u16) + 12 + ucast (of_nat m :: u16) :: u64) = of_nat (u + 12 + m)"
  by (simp add: ucast_of_nat_u16)

lemma size_cast:
  assumes "s < 2 ^ 15"
  shows "(ucast n :: u64) \<le> of_nat s \<longleftrightarrow> unat (n :: u16) \<le> s" "(ucast (of_nat s :: u64) :: u16) = of_nat s"
proof -
  have "unat (of_nat s :: u64) = s" by (rule unat_of_nat_u64) (use assms in simp)
  then show "(ucast n :: u64) \<le> of_nat s \<longleftrightarrow> unat n \<le> s" by (simp add: word_le_nat_alt)
  show "(ucast (of_nat s :: u64) :: u16) = of_nat s"
    using assms by (simp add: word_unat_eq_iff unsigned_ucast_eq unsigned_of_nat take_bit_nat_eq_self)
qed

text \<open>What the plan of a growing call may be: nothing, or to absorb a free block on either side.\<close>

definition absorbed :: "blk list \<Rightarrow> bool" where
  "absorbed l \<longleftrightarrow> l = [] \<or> (\<exists>t. l = [(t, True)])"

lemma realloc_plan_cases:
  assumes inv: "heap_inv w (xs @ (m, False) # ys) fl" and x: "x = unat (heap_start w) + span xs"
    and p: "realloc_plan (ad x) n w = Some (b, start, r0, r1)"
  obtains xs' l r ys' s where "xs = xs' @ l" "ys = r @ ys'" "absorbed l" "absorbed r" "s = span l + m + span r"
    "unat n \<le> s" "b = of_nat s" "start = ad (unat (heap_start w) + span xs')"
    "\<forall>y \<in> set fl. ad y = r0 \<or> ad y = r1 \<longleftrightarrow>
       y \<in> set (frees (unat (heap_start w) + span xs') l) \<or> y \<in> set (frees (x + 12 + m) r)"
proof -
  let ?H = "unat (heap_start w)" and ?P = "prev_neighbour (ad x) w" and ?N = "next_neighbour (ad x) w"
  note blk = heap_inv_block [OF inv, folded x]
  have b: "heap_bounds w (xs @ (m, False) # ys)" using inv by (simp add: heap_inv_def)
  have tot: "span xs + 12 + m + span ys < 2 ^ 15 + 12" "x + 12 + m < 2 ^ 64"
    using b blk(2) by (simp_all add: heap_bounds_def)
  have m: "WDM_ACTUAL_SIZE w (ad x) = of_nat m" "m < 2 ^ 16" using chain_block(2) [OF blk(5,1)] blk(1) by simp_all
  have y: "ad y \<noteq> NULL" "z < 2 ^ 64 \<Longrightarrow> ad y = ad z \<longleftrightarrow> y = z" if "y \<in> set fl" for y z
    using heap_inv_fl(1,3) [OF inv that] ad_inj [of y z] by simp_all
  define sN sP sB where "sN = (ucast (hdr_sz w ?N) + 12 + ucast (of_nat m :: u16) :: u64)"
    and "sP = (ucast (hdr_sz w ?P) + 12 + ucast (of_nat m :: u16) :: u64)"
    and "sB = (ucast (hdr_sz w ?P) + 12 + ucast (of_nat m :: u16) + 12 + ucast (hdr_sz w ?N) :: u64)"
  define A B C where "A \<longleftrightarrow> ?N \<noteq> NULL \<and> WDM_IS_FREE w ?N \<and> ucast n \<le> sN"
    and "B \<longleftrightarrow> ?P \<noteq> NULL \<and> WDM_IS_FREE w ?P \<and> ucast n \<le> sP"
    and "C \<longleftrightarrow> ?N \<noteq> NULL \<and> ?P \<noteq> NULL \<and> WDM_IS_FREE w ?N \<and> WDM_IS_FREE w ?P \<and> ucast n \<le> sB"
  have "realloc_plan (ad x) n w = (if A then Some (ucast sN, ad x, ?N, NULL) else if B then Some (ucast sP, ?P, ?P, NULL)
      else if C then Some (ucast sB, ?P, ?P, ?N) else None)"
    unfolding realloc_plan_def Let_def m(1) A_def B_def C_def sN_def sP_def sB_def by (rule refl)
  then consider (nxt) A "b = ucast sN" "start = ad x" "r0 = ?N" "r1 = NULL"
    | (prv) B "b = ucast sP" "start = ?P" "r0 = ?P" "r1 = NULL"
    | (both) C "b = ucast sB" "start = ?P" "r0 = ?P" "r1 = ?N"
    using p by (auto split: if_splits)
  then show thesis
  proof cases
    case nxt
    obtain u ys' where u: "ys = (u, True) # ys'" "?N = ad (x + 12 + m)" "hdr_sz w ?N = of_nat u"
      using next_free_block [OF inv x] nxt(1) unfolding A_def by blast
    have s: "u + 12 + m < 2 ^ 15" "u < 2 ^ 16" using tot u(1) by simp_all
    have "sN = of_nat (u + 12 + m)" unfolding sN_def u(3) by (rule size_sum [OF s(2) m(2)])
    then have "unat n \<le> u + 12 + m" "b = of_nat (u + 12 + m)" using nxt(1,2) size_cast [OF s(1)] by (simp_all add: A_def)
    moreover have "\<forall>y \<in> set fl. ad y = r0 \<or> ad y = r1 \<longleftrightarrow> y = x + 12 + m"
      using y tot(2) unfolding nxt(4,5) u(2) by blast
    ultimately show thesis
      using that [of xs "[]" "[(u, True)]" ys' "u + 12 + m"] u(1) nxt(3) by (simp add: absorbed_def x)
  next
    case prv
    obtain t xs' where t: "xs = xs' @ [(t, True)]" "?P = ad (?H + span xs')" "hdr_sz w ?P = of_nat t"
      using prev_free_block [OF inv x] prv(1) unfolding B_def by blast
    have s: "t + 12 + m < 2 ^ 15" "t < 2 ^ 16" using tot t(1) by simp_all
    have "sP = of_nat (t + 12 + m)" unfolding sP_def t(3) by (rule size_sum [OF s(2) m(2)])
    then have "unat n \<le> t + 12 + m" "b = of_nat (t + 12 + m)" using prv(1,2) size_cast [OF s(1)] by (simp_all add: B_def)
    moreover have "\<forall>y \<in> set fl. ad y = r0 \<or> ad y = r1 \<longleftrightarrow> y = ?H + span xs'"
      using y tot(2) unfolding prv(4,5) t(2) by (simp add: x t(1))
    ultimately show thesis
      using that [of xs' "[(t, True)]" "[]" ys "t + 12 + m"] t(1,2) prv(3) by (simp add: absorbed_def)
  next
    case both
    obtain u ys' where u: "ys = (u, True) # ys'" "?N = ad (x + 12 + m)" "hdr_sz w ?N = of_nat u"
      using next_free_block [OF inv x] both(1) unfolding C_def by blast
    obtain t xs' where t: "xs = xs' @ [(t, True)]" "?P = ad (?H + span xs')" "hdr_sz w ?P = of_nat t"
      using prev_free_block [OF inv x] both(1) unfolding C_def by blast
    have s: "t + 12 + m + 12 + u < 2 ^ 15" "t < 2 ^ 16" "u < 2 ^ 16" using tot t(1) u(1) by simp_all
    have "sB = of_nat (t + 12 + m + 12 + u)"
      using s(2,3) m(2) unfolding sB_def t(3) u(3) by (simp add: ucast_of_nat_u16)
    then have "unat n \<le> t + 12 + m + 12 + u" "b = of_nat (t + 12 + m + 12 + u)"
      using both(1,2) size_cast [OF s(1)] by (simp_all add: C_def)
    moreover have "\<forall>y \<in> set fl. ad y = r0 \<or> ad y = r1 \<longleftrightarrow> y = ?H + span xs' \<or> y = x + 12 + m"
      using y tot(2) unfolding both(4,5) t(2) u(2) by (simp add: x t(1))
    ultimately show thesis
      using that [of xs' "[(t, True)]" "[(u, True)]" ys' "t + 12 + m + 12 + u"] t(1,2) u(1) both(3)
      by (simp add: absorbed_def)
  qed
qed

lemma absorbed_used: "absorbed l \<Longrightarrow> used a l = [] \<and> used_bytes a l = {}"
  by (auto simp: absorbed_def)

text \<open>Unlinking the absorbed blocks leaves a hole.\<close>

lemma unlink_hole:
  assumes inv: "heap_inv w (xs @ l @ (m, False) # r @ ys) fl" and x: "x = unat (heap_start w) + span xs"
    and lr: "absorbed l" "absorbed r" and s: "s = span l + m + span r"
    and rs: "\<forall>y \<in> set fl. ad y = r0 \<or> ad y = r1 \<longleftrightarrow>
      y \<in> set (frees x l) \<or> y \<in> set (frees (x + span l + 12 + m) r)"
  shows "\<exists>w' fl'. unlink_loop r0 r1 (freelist_head w) NULL w = Some w' \<and> hole w' xs s ys (lastsz m r) fl' \<and>
    WDM_ACTUAL_SIZE w' (ad (x + span l)) = of_nat m \<and> heap_start w' = heap_start w \<and>
    keeps (protected w (xs @ l @ (m, False) # r @ ys)) w w'"
proof -
  let ?H = "unat (heap_start w)" and ?bs = "xs @ l @ (m, False) # r @ ys"
  have b: "heap_bounds w ?bs" and fl: "flinks w (freelist_head w) fl" "distinct fl" "set fl = set (frees ?H ?bs)"
    and c: "chain w ?H 0 ?bs" using inv by (simp_all add: heap_inv_def)
  have lim: "0 < ?H" "?H + span ?bs < 2 ^ 64" using b by (simp_all add: heap_bounds_def unat_gt_0)
  define fl' where "fl' = filter (\<lambda>y. \<not> (ad y = r0 \<or> ad y = r1)) fl"
  obtain w' where w': "unlink_loop r0 r1 (freelist_head w) NULL w = Some w'" "flinks w' (freelist_head w') fl'"
    "keeps (protected w ?bs) w w'"
    "\<forall>y \<in> set (hdrs ?H ?bs). hdr_sz w' (ad y) = hdr_sz w (ad y) \<and> hdr_prev_sz w' (ad y) = hdr_prev_sz w (ad y)"
    using unlink_loop_spec [of w "[]" fl "freelist_head w" ?bs r0 r1] fl lim frees_hdrs [of _ ?H ?bs]
    by (auto simp: fl'_def link_before_def)
  have g: "heap_start w' = heap_start w" "heap_size w' = heap_size w" using w'(3) by (simp_all add: keeps_def)
  have "chain w' ?H 0 ?bs" using chain_cong [of ?H ?bs w' w] w'(4) c by blast
  then have c': "chain w' ?H 0 xs" "chain w' x (lastsz 0 xs) (l @ [(m, False)])"
    "chain w' (x + span l + 12 + m + span r) (lastsz m r) ys"
    by (auto simp: x lastsz_def)
  have "hdr_prev_sz w' (ad x) = of_nat (lastsz 0 xs)" using c'(2) by (cases l) auto
  moreover have "heap_bounds w' (xs @ (s, False) # ys)" using b by (simp add: heap_bounds_def g s)
  moreover have "m < 2 ^ 15" by (rule block_size_bound [OF b, of m False]) simp
  then have "WDM_ACTUAL_SIZE w' (ad (x + span l)) = of_nat m"
    using c'(2) chain_block(2) [of w' "x + span l" "lastsz (lastsz 0 xs) l" m False "[]"] by simp
  moreover have "distinct (frees ?H ?bs)" by (rule distinct_frees)
  then have "set fl' = set (frees ?H xs) \<union> set (frees (x + 12 + s) ys)"
    using rs fl(3) unfolding fl'_def by (auto simp: x s add_ac)
  ultimately show ?thesis
    using w'(1-3) c'(1,3) fl(2) by (intro exI [of _ w'] exI [of _ fl']) (simp add: hole_def g x s fl'_def add_ac)
qed

text \<open>
  A block with payload at \<open>a\<close> of \<open>m\<close> bytes has become one with payload at \<open>c\<close> of at least \<open>k\<close> bytes:
  the heap is in order, the blocks \<open>U\<close> are still there with their data, and so is the data of the block.
\<close>

definition resized :: "wdm \<Rightarrow> (nat \<times> nat) set \<Rightarrow> nat \<Rightarrow> nat \<Rightarrow> nat \<Rightarrow> nat \<Rightarrow> wdm \<Rightarrow> bool" where
  "resized w U a m c k w' \<longleftrightarrow> heap_start w' = heap_start w \<and> heap_size w' = heap_size w \<and>
     (\<exists>bs fl j. heap_inv w' bs fl \<and> U \<subseteq> set (used (unat (heap_start w)) bs) \<and>
        (c, j) \<in> set (used (unat (heap_start w)) bs) \<and> k \<le> j) \<and> c \<notin> fst ` U \<and>
     (\<forall>(b, j) \<in> U. \<forall>i<j. wmem w' (ad (b + i)) = wmem w (ad (b + i))) \<and>
     (\<forall>i<min m k. wmem w' (ad (c + i)) = wmem w (ad (a + i)))"

lemma resizedI:
  assumes "heap_inv w' bs fl" "heap_start w' = heap_start w" "heap_size w' = heap_size w"
    "U \<subseteq> set (used (unat (heap_start w)) bs)" "(c, j) \<in> set (used (unat (heap_start w)) bs)" "k \<le> j" "c \<notin> fst ` U"
    "\<And>b j i. (b, j) \<in> U \<Longrightarrow> i < j \<Longrightarrow> wmem w' (ad (b + i)) = wmem w (ad (b + i))"
    "\<And>i. i < m \<Longrightarrow> i < k \<Longrightarrow> wmem w' (ad (c + i)) = wmem w (ad (a + i))"
  shows "resized w U a m c k w'"
  unfolding resized_def using assms by (intro conjI exI [of _ bs] exI [of _ fl] exI [of _ j]) auto

lemma used_kept:
  assumes "keeps (protected w bs) w w'" "(a, m) \<in> set (used (unat (heap_start w)) bs)" "i < m"
    "unat (heap_start w) + span bs < 2 ^ 64"
  shows "wmem w' (ad (a + i)) = wmem w (ad (a + i))"
proof -
  have "a + i \<in> protected w bs" using assms(2,3) by (force simp: protected_def used_bytes_def)
  then show ?thesis using assms used_bounds [OF assms(2)] by (simp add: keeps_def)
qed

lemma used_grown:
  "k \<le> s \<Longrightarrow> \<exists>j \<ge> k. set (used a (grown k xs s ys)) =
     insert (a + span xs + 12, j) (set (used a xs) \<union> set (used (a + span xs + 12 + s) ys))"
  by (auto simp: grown_def add.assoc)

lemma realloc_local:
  assumes inv: "heap_inv w (xs @ (m, False) # ys) fl" and x: "x = unat (heap_start w) + span xs" and n: "m < unat n"
    and p: "realloc_plan (ad x) n w = Some (b, start, r0, r1)"
  shows "\<exists>w1 w' c. unlink_loop r0 r1 (freelist_head w) NULL w = Some w1 \<and>
    realloc_place start (ad x) (ad (x + 12)) b n w1 = (ad c, w') \<and>
    resized w (set (used (unat (heap_start w)) (xs @ (m, False) # ys)) - {(x + 12, m)}) (x + 12) m c (unat n) w'"
proof -
  let ?H = "unat (heap_start w)"
  obtain xs' l r ys' s where L: "xs = xs' @ l" "ys = r @ ys'" "absorbed l" "absorbed r" "s = span l + m + span r"
    "unat n \<le> s" "b = of_nat s" "start = ad (?H + span xs')"
    "\<forall>y \<in> set fl. ad y = r0 \<or> ad y = r1 \<longleftrightarrow> y \<in> set (frees (?H + span xs') l) \<or> y \<in> set (frees (x + 12 + m) r)"
    using realloc_plan_cases [OF inv x p] by metis
  define z where "z = ?H + span xs'"
  have xz: "x = z + span l" by (simp add: x z_def L(1))
  have inv': "heap_inv w (xs' @ l @ (m, False) # r @ ys') fl" using inv by (simp add: L(1,2))
  let ?bs = "xs' @ l @ (m, False) # r @ ys'" and ?bs1 = "xs' @ (s, True) # ys'"
  let ?U = "set (used ?H xs') \<union> set (used (z + 12 + s) ys')"
  have rs: "\<forall>y \<in> set fl. ad y = r0 \<or> ad y = r1 \<longleftrightarrow> y \<in> set (frees z l) \<or> y \<in> set (frees (z + span l + 12 + m) r)"
    using L(9) by (simp add: z_def xz)
  obtain w1 fl1 where w1: "unlink_loop r0 r1 (freelist_head w) NULL w = Some w1" "hole w1 xs' s ys' (lastsz m r) fl1"
    "WDM_ACTUAL_SIZE w1 (ad x) = of_nat m" "heap_start w1 = heap_start w" "keeps (protected w ?bs) w w1"
    using unlink_hole [OF inv' z_def L(3-5) rs] unfolding xz by blast
  have pos: "z = x \<or> z + 12 \<le> x" "x + m \<le> z + s" and z1: "z = unat (heap_start w1) + span xs'"
    using L(3,5) by (auto simp: absorbed_def xz z_def w1(4))
  obtain w' fl' where w': "realloc_place (ad z) (ad x) (ad (x + 12)) (of_nat s) n w1 = (ad (z + 12), w')"
    "heap_inv w' (grown (unat n) xs' s ys') fl'" "keeps (protected w1 ?bs1) w1 w'"
    "\<forall>i<m. wmem w' (ad (z + 12 + i)) = wmem w1 (ad (x + 12 + i))"
    using realloc_place_correct [OF w1(2) z1 L(6) n pos w1(3)] by blast
  have lim: "?H + span ?bs < 2 ^ 64" "?H + span ?bs1 < 2 ^ 64" "z + 12 + s + span ys' < 2 ^ 64"
    using inv' by (simp_all add: heap_inv_def heap_bounds_def L(5) z_def)
  have sets: "set (used ?H ?bs) = insert (x + 12, m) ?U" "set (used ?H ?bs1) = ?U"
    using absorbed_used [OF L(3)] absorbed_used [OF L(4)] by (auto simp: xz z_def L(5) add_ac)
  have out: "b \<le> z \<or> z + 12 + s + 12 \<le> b" if "(b, j) \<in> ?U" for b j
    using that used_bounds [of b j ?H xs'] used_bounds [of b j "z + 12 + s" ys'] by (auto simp: z_def)
  have fresh: "(x + 12, m) \<notin> ?U" using out [of "x + 12" m] pos by auto
  have fresh': "z + 12 \<notin> fst ` ?U"
  proof
    assume "z + 12 \<in> fst ` ?U"
    then obtain i where "(z + 12, i) \<in> ?U" by force
    then show False using out [of "z + 12" i] by simp
  qed
  have bs: "xs @ (m, False) # ys = ?bs" by (simp add: L(1,2))
  have U: "set (used ?H (xs @ (m, False) # ys)) - {(x + 12, m)} = ?U"
    unfolding bs sets(1) by (rule Diff_insert_absorb [OF fresh])
  obtain j where j: "unat n \<le> j" "set (used ?H (grown (unat n) xs' s ys')) = insert (z + 12, j) ?U"
    using used_grown [OF L(6), of ?H xs' ys'] by (auto simp: z_def)
  have others: "wmem w' (ad (b + i)) = wmem w (ad (b + i))" if "(b, j) \<in> ?U" "i < j" for b j i
  proof -
    have "(b, j) \<in> set (used ?H ?bs)" "(b, j) \<in> set (used ?H ?bs1)" unfolding sets using that(1) by blast+
    then show ?thesis
      using used_kept [OF w1(5) _ that(2) lim(1)] used_kept [OF w'(3), unfolded w1(4), OF _ that(2) lim(2)] by metis
  qed
  have copied: "wmem w' (ad (z + 12 + i)) = wmem w (ad (x + 12 + i))" if "i < m" for i
  proof -
    have "(x + 12, m) \<in> set (used ?H ?bs)" unfolding sets by blast
    then show ?thesis using w'(4) that used_kept [OF w1(5) _ that lim(1)] by metis
  qed
  have g: "heap_start w' = heap_start w" "heap_size w' = heap_size w"
    using w'(3) w1(4,5) by (simp_all add: keeps_def)
  have "resized w ?U (x + 12) m (z + 12) (unat n) w'"
    by (rule resizedI [OF w'(2) g _ _ j(1) fresh' others copied]) (simp_all only: j(2), auto)
  then show ?thesis using w1(1) w'(1) unfolding U L(7,8) z_def [symmetric] by blast
qed

section \<open>Shrinking\<close>

text \<open>Giving back the upper part of a block whose size field is already the new one.\<close>

lemma seal_size:
  assumes b: "heap_bounds w (zs @ (v, True) # ys)" and c: "chain w (unat (heap_start w)) 0 (zs @ [(v, True)])"
    "chain w (sp + 12 + v) q ys" and sp: "sp = unat (heap_start w) + span zs"
    and fl: "flinks w (freelist_head w) fl" "distinct fl" "set fl = set (frees (unat (heap_start w)) (zs @ (v, True) # ys))"
  defines "w' \<equiv> fix_prev (ad sp + 12 + ucast (hdr_sz w (ad sp))) (hdr_sz w (ad sp)) w"
  shows "heap_inv w' (zs @ (v, True) # ys) fl" "keeps (protected w (zs @ (v, True) # ys)) w w'"
proof -
  let ?pre = "zs @ [(v, True)]"
  have v: "v < 2 ^ 15" by (rule block_size_bound [OF b, of v True]) simp
  have sz: "hdr_sz w (ad sp) = of_nat v" using c(1) by (simp add: sp)
  have w': "w' = fix_prev (ad (sp + 12 + v)) (of_nat v) w"
    using v by (simp add: w'_def sz ad_plus_12 ad_plus_size)
  have b': "heap_bounds w (?pre @ ys)" "chain w (unat (heap_start w) + span ?pre) q ys"
    "set fl = set (frees (unat (heap_start w)) (?pre @ ys))" "sp + 12 + v = unat (heap_start w) + span ?pre"
    using b c(2) fl(3) by (simp_all add: sp add.assoc)
  show "heap_inv w' (zs @ (v, True) # ys) fl" "keeps (protected w (zs @ (v, True) # ys)) w w'"
    using fix_prev_seal [OF b'(1) c(1) b'(2) fl(1,2) b'(3,4), of "of_nat v"] unfolding w' by simp_all
qed

lemma coalesce_above_used:
  assumes f: "freed w (xs @ [(k, False)]) r ys q fl" and x: "x = unat (heap_start w) + span xs" and sp: "sp = x + 12 + k"
  shows "\<exists>w1 fl'. coalesce (ad sp) w = Inr w1 \<and>
    heap_inv (fix_prev (ad sp + 12 + ucast (hdr_sz w1 (ad sp))) (hdr_sz w1 (ad sp)) w1) (joined (xs @ [(k, False)]) r ys) fl' \<and>
    keeps (protected w (xs @ (k, False) # (r, True) # ys)) w (fix_prev (ad sp + 12 + ucast (hdr_sz w1 (ad sp))) (hdr_sz w1 (ad sp)) w1)"
proof -
  let ?xs = "xs @ [(k, False)]" and ?P = "protected w (xs @ (k, False) # (r, True) # ys)"
  have s: "sp = unat (heap_start w) + span ?xs" by (simp add: sp x)
  have p: "\<not> WDM_IS_FREE w (prev_neighbour (ad sp) w)" using prev_neighbour_block [OF f] s by simp
  note n = next_neighbours [OF f s]
  show ?thesis
  proof (cases "ys \<noteq> [] \<and> snd (hd ys)")
    case True
    then obtain u ys' where ys: "ys = (u, True) # ys'" by (cases ys) auto
    obtain w1 fl' where w1: "merge_next (ad sp) (ad (sp + 12 + r)) (if ys' = [] then NULL else ad (sp + 12 + r + 12 + u)) w = Inr w1"
      "heap_inv w1 (?xs @ (r + 12 + u, True) # ys') fl'" "keeps (protected w (?xs @ (r, True) # (u, True) # ys')) w w1"
      using merge_next_correct [OF f [unfolded ys] s refl] by blast
    have code: "coalesce (ad sp) w = Inr w1" using w1(1) p n(1) n(2) [OF ys] ys by (simp add: coalesce_def Let_def)
    have g: "heap_start w1 = heap_start w" using w1(3) by (simp add: keeps_def)
    have i: "heap_bounds w1 (?xs @ (r + 12 + u, True) # ys')" "chain w1 (unat (heap_start w1)) 0 (?xs @ [(r + 12 + u, True)])"
      "chain w1 (sp + 12 + (r + 12 + u)) (r + 12 + u) ys'" "flinks w1 (freelist_head w1) fl'" "distinct fl'"
      "set fl' = set (frees (unat (heap_start w1)) (?xs @ (r + 12 + u, True) # ys'))"
      using w1(2) by (simp_all add: heap_inv_def s g add.assoc)
    have s1: "sp = unat (heap_start w1) + span ?xs" by (simp add: s g)
    note S = seal_size [OF i(1-3) s1 i(4-6)]
    have j: "joined ?xs r ys = ?xs @ (r + 12 + u, True) # ys'" by (simp add: joined_def Let_def ys)
    have sub: "?P \<subseteq> protected w1 (?xs @ (r + 12 + u, True) # ys')"
      by (auto simp: protected_def g ys add_ac)
    have "keeps ?P w w1" using w1(3) ys by simp
    from keeps_trans [OF this keeps_mono [OF S(2) sub]] show ?thesis using code S(1) unfolding j by blast
  next
    case False
    obtain w1 where w1: "merge_none (ad sp) w = Inr w1" "heap_bounds w1 (?xs @ (r, True) # ys)"
      "chain w1 (unat (heap_start w)) 0 (?xs @ [(r, True)])" "chain w1 (sp + 12 + r) q ys"
      "flinks w1 (freelist_head w1) (sp # fl)" "distinct (sp # fl)"
      "set (sp # fl) = set (frees (unat (heap_start w)) (?xs @ (r, True) # ys))"
      "keeps (protected w (?xs @ (r, True) # ys)) w w1"
      using merge_none_correct [OF f s] by blast
    have "ys = [] \<or> next_neighbour (ad sp) w = ad (sp + 12 + r) \<and> \<not> WDM_IS_FREE w (ad (sp + 12 + r))"
      using n(1) n(2) [of "fst (hd ys)" False "tl ys"] False by (cases ys) auto
    then have code: "coalesce (ad sp) w = Inr w1" using w1(1) p n(1) by (auto simp: coalesce_def Let_def)
    have g: "heap_start w1 = heap_start w" using w1(8) by (simp add: keeps_def)
    have s1: "sp = unat (heap_start w1) + span ?xs" by (simp add: s g)
    note S = seal_size [OF w1(2), unfolded g, OF w1(3,4) s w1(5-7)]
    have j: "joined ?xs r ys = ?xs @ (r, True) # ys" using False by (auto simp: joined_def Let_def)
    have sub: "?P \<subseteq> protected w1 (?xs @ (r, True) # ys)" by (simp add: protected_def g)
    have "keeps ?P w w1" using w1(8) by simp
    from keeps_trans [OF this keeps_mono [OF S(2) sub]] show ?thesis using code S(1) unfolding j by blast
  qed
qed

text \<open>The blocks in use other than the one with payload at \<open>a\<close>.\<close>

lemma used_others:
  assumes "x = h + span xs"
  shows "set (used h (xs @ (m, False) # ys)) - {(x + 12, m)} = set (used h xs) \<union> set (used (x + 12 + m) ys)"
    "x + 12 \<notin> fst ` (set (used h xs) \<union> set (used (x + 12 + m) ys))"
proof -
  have "b + j \<le> x \<or> x + 12 + m + 12 \<le> b" if "(b, j) \<in> set (used h xs) \<union> set (used (x + 12 + m) ys)" for b j
    using that used_bounds [of b j h xs] used_bounds [of b j "x + 12 + m" ys] assms by auto
  then show "x + 12 \<notin> fst ` (set (used h xs) \<union> set (used (x + 12 + m) ys))" by fastforce
  then have "(x + 12, m) \<notin> set (used h xs) \<union> set (used (x + 12 + m) ys)" by force
  then show "set (used h (xs @ (m, False) # ys)) - {(x + 12, m)} = set (used h xs) \<union> set (used (x + 12 + m) ys)"
    using assms by auto
qed

lemma realloc_shrink:
  assumes inv: "heap_inv w (xs @ (m, False) # ys) fl" and x: "x = unat (heap_start w) + span xs" and n: "unat n + 16 \<le> m"
    and sp: "sp = x + 12 + unat n"
  defines "w0 \<equiv> set_lom (ad sp) 0 (set_sz (ad sp) (of_nat m - 12 - n) (set_prev_sz (ad sp) n (set_sz (ad x) (n OR WDM_ALLOC_BIT) w)))"
  shows "\<exists>w1. coalesce (ad sp) w0 = Inr w1 \<and>
    resized w (set (used (unat (heap_start w)) (xs @ (m, False) # ys)) - {(x + 12, m)}) (x + 12) m (x + 12) (unat n)
      (fix_prev (ad sp + 12 + ucast (hdr_sz w1 (ad sp))) (hdr_sz w1 (ad sp)) w1)"
proof -
  let ?H = "unat (heap_start w)"
  define k r where "k = unat n" and "r = m - k - 12"
  let ?bs = "xs @ (k, False) # (r, True) # ys"
  have k: "of_nat k = n" and m: "m = k + 12 + r" using n by (simp_all add: k_def r_def)
  define wx where "wx = set_sz (ad x) (n OR WDM_ALLOC_BIT) w"
  have h: "hole w xs m ys m fl" using inv by (simp add: hole_heap_inv)
  have hx: "hole wx xs m ys m fl" "hdr_sz wx (ad x) = of_nat k OR WDM_ALLOC_BIT"
    unfolding wx_def using hole_set(1) [OF h x] k by simp_all
  have lim: "x + 12 + m + span ys < 2 ^ 64" using heap_inv_block(2) [OF inv] by (simp add: x)
  have xx: "x = unat (heap_start wx) + span xs" by (simp add: wx_def x)
  have g: "heap_start w0 = heap_start wx" "heap_size w0 = heap_size wx" "freelist_head w0 = freelist_head wx"
    "heap_start wx = heap_start w" "heap_size wx = heap_size w" by (simp_all add: w0_def wx_def)
  have r: "of_nat m - 12 - n = (of_nat r :: u16)" by (simp add: m k)
  have "sp + 12 \<le> 2 ^ 64" using lim by (simp add: sp k_def [symmetric] m)
  then have out: "\<forall>y. y < sp \<or> sp + 12 \<le> y \<longrightarrow> y < 2 ^ 64 \<longrightarrow> wmem w0 (ad y) = wmem wx (ad y)"
    by (auto simp: w0_def wx_def [symmetric] wmem_set_ad)
  have hd: "hdr_prev_sz w0 (ad sp) = of_nat k" "hdr_sz w0 (ad sp) = of_nat r" by (simp_all add: w0_def k r)
  note C = hole_cut [OF hx(1) xx hx(2) m sp [folded k_def] g(1,2) out hd]
  have "freed w0 (xs @ [(k, False)]) r ys m fl"
    using C hx(1) m sp x by (simp add: freed_def hole_def g k_def [symmetric] add.assoc)
  then obtain w1 fl' where w1: "coalesce (ad sp) w0 = Inr w1"
    "heap_inv (fix_prev (ad sp + 12 + ucast (hdr_sz w1 (ad sp))) (hdr_sz w1 (ad sp)) w1) (joined (xs @ [(k, False)]) r ys) fl'"
    "keeps (protected w0 ?bs) w0 (fix_prev (ad sp + 12 + ucast (hdr_sz w1 (ad sp))) (hdr_sz w1 (ad sp)) w1)"
    using coalesce_above_used [of w0 xs k r ys m fl x sp] x sp g by (auto simp: k_def)
  define w' where "w' = fix_prev (ad sp + 12 + ucast (hdr_sz w1 (ad sp))) (hdr_sz w1 (ad sp)) w1"
  have kx: "keeps (protected w ?bs) w wx" unfolding wx_def
    using hdrs_protected [of x w ?bs] lim by (intro keeps_set) (auto simp: x)
  have pr: "protected wx ?bs = protected w ?bs" "protected w0 ?bs = protected w ?bs" by (simp_all add: protected_def g)
  have kp: "keeps (protected w ?bs) w w'"
    by (rule keeps_trans [OF keeps_trans [OF kx C(6) [unfolded pr]] w1(3) [unfolded pr, folded w'_def]])
  let ?U = "set (used ?H xs) \<union> set (used (x + 12 + m) ys)"
  note O = used_others [OF x, of m ys]
  have sets: "set (used ?H ?bs) = insert (x + 12, k) ?U" "set (used ?H (joined (xs @ [(k, False)]) r ys)) = insert (x + 12, k) ?U"
    unfolding used_joined by (simp_all add: x m add.assoc)
  have lim': "?H + span ?bs < 2 ^ 64" using lim by (simp add: x m)
  have same: "wmem w' (ad (b + i)) = wmem w (ad (b + i))" if "(b, j) \<in> insert (x + 12, k) ?U" "i < j" for b j i
    using used_kept [OF kp _ that(2) lim'] that(1) unfolding sets by blast
  have "resized w ?U (x + 12) m (x + 12) k w'"
  proof (rule resizedI [OF w1(2) [folded w'_def] _ _ _ _ order_refl O(2)])
    show "heap_start w' = heap_start w" "heap_size w' = heap_size w" using kp by (simp_all add: keeps_def)
  qed (use same in \<open>auto simp: sets(2)\<close>)
  then show ?thesis using w1(1) unfolding O(1) w'_def k_def by blast
qed

section \<open>Moving to another place\<close>

lemma heap_inv_copy:
  assumes inv: "heap_inv w bs fl" and c: "(c, j) \<in> set (used (unat (heap_start w)) bs)" and m: "m \<le> j"
    and p: "p + m \<le> c \<or> c + m \<le> p" "p + m < 2 ^ 64"
  defines "w' \<equiv> wmemmove (ad c) (ad p) (of_nat m) w"
  shows "heap_inv w' bs fl" "i < m \<Longrightarrow> wmem w' (ad (c + i)) = wmem w (ad (p + i))"
    "y < 2 ^ 64 \<Longrightarrow> \<not> (c \<le> y \<and> y < c + m) \<Longrightarrow> wmem w' (ad y) = wmem w (ad y)"
proof -
  obtain xs ys where bs: "bs = xs @ (j, False) # ys" "c = unat (heap_start w) + span xs + 12"
    using used_split [OF c] .
  note blk = heap_inv_block [OF inv [unfolded bs(1)]]
  have V: "wmem w' (ad y) = (if c \<le> y \<and> y < c + m then wmem w (ad (p + (y - c))) else wmem w (ad y))" if "y < 2 ^ 64" for y
    unfolding w'_def by (rule wmemmove_ad) (use p m blk(1,2) bs(2) that in auto)
  show "i < m \<Longrightarrow> wmem w' (ad (c + i)) = wmem w (ad (p + i))" using V [of "c + i"] m blk(2) bs(2) by simp
  show out: "y < 2 ^ 64 \<Longrightarrow> \<not> (c \<le> y \<and> y < c + m) \<Longrightarrow> wmem w' (ad y) = wmem w (ad y)" for y using V by auto
  define x where "x = unat (heap_start w) + span xs"
  have h: "hole w xs j ys j fl" "hdr_sz w (ad x) = of_nat j OR WDM_ALLOC_BIT"
    using inv by (simp_all add: bs(1) hole_heap_inv x_def)
  have g: "freelist_head w' = freelist_head w" "heap_start w' = heap_start w" "heap_size w' = heap_size w" by (simp_all add: w'_def)
  have hx: "hdr_prev_sz w' (ad x) = hdr_prev_sz w (ad x)" "hdr_sz w' (ad x) = hdr_sz w (ad x)"
    using blk(2) bs(2) by (auto intro!: hdr_ad_cong out simp: x_def)
  have "hole w' xs j ys j fl"
    by (rule hole_frame [OF h(1) x_def g _ hx(1)], rule out) (use m bs(2) in \<open>auto simp: x_def\<close>)
  then show "heap_inv w' bs fl" using h(2) hx(2) by (simp add: bs(1) hole_heap_inv g x_def)
qed

lemma realloc_elsewhere:
  assumes inv: "heap_inv w bs fl" and a: "(a, m) \<in> set (used (unat (heap_start w)) bs)" and n: "m < unat n"
    and fit: "best_block (unat n) bs xs s ys" and w1: "heap_inv w1 (place_block (unat n) xs s ys) fl1" "keeps (protected w bs) w w1"
    and c: "c = unat (heap_start w) + place_offset (unat n) xs s"
  shows "\<exists>w'. wdfree (ad a) (wmemmove (ad c) (ad a) (WDM_ACTUAL_SIZE w1 (ad a - 12)) w1) = Inr w' \<and>
    resized w (set (used (unat (heap_start w)) bs) - {(a, m)}) a m c (unat n) w'"
proof -
  let ?H = "unat (heap_start w)" and ?pl = "place_block (unat n) xs s ys" and ?U = "set (used (unat (heap_start w)) bs) - {(a, m)}"
  define j where "j = (if unat n + 12 \<le> s then unat n else s)"
  have j: "unat n \<le> j" using fit by (auto simp: j_def best_block_def)
  have g1: "heap_start w1 = heap_start w" "heap_size w1 = heap_size w" using w1(2) by (simp_all add: keeps_def)
  have pl: "set (used ?H ?pl) = insert (c, j) (set (used ?H bs))"
    unfolding c j_def by (rule used_place_block [OF fit])
  have new: "(c, j) \<in> set (used ?H ?pl)" and old: "(a, m) \<in> set (used ?H ?pl)" using pl a by simp_all
  have ne: "b \<noteq> c" if "(b, i) \<in> set (used ?H bs)" for b i using place_offset_fresh [OF fit that] c by simp
  have sep: "c + j + 12 \<le> b \<or> b + i + 12 \<le> c" if "(b, i) \<in> set (used ?H bs)" for b i
    using used_disjoint [OF new, of b i] that pl ne [OF that] by auto
  obtain zs vs where z: "?pl = zs @ (m, False) # vs" "a = ?H + span zs + 12" using used_split [OF old] .
  note blk = heap_inv_block [OF w1(1) [unfolded z(1)], unfolded g1]
  have "ad a - 12 = ad (?H + span zs)" by (simp add: z(2) ad_def)
  then have sz: "WDM_ACTUAL_SIZE w1 (ad a - 12) = of_nat m" using chain_block(2) [OF blk(5,1)] by simp
  define w2 where "w2 = wmemmove (ad c) (ad a) (of_nat m) w1"
  have "a + m < 2 ^ 64" using blk(2) z(2) by simp
  then have W: "heap_inv w2 ?pl fl1" "\<And>i. i < m \<Longrightarrow> wmem w2 (ad (c + i)) = wmem w1 (ad (a + i))"
    "\<And>y. y < 2 ^ 64 \<Longrightarrow> \<not> (c \<le> y \<and> y < c + m) \<Longrightarrow> wmem w2 (ad y) = wmem w1 (ad y)"
    using heap_inv_copy [OF w1(1) new [folded g1], of m a] sep [OF a] n j unfolding w2_def by auto
  have g2: "heap_start w2 = heap_start w" "heap_size w2 = heap_size w" by (simp_all add: w2_def g1)
  obtain w' bs' fl' bs0 where w': "wdfree (ad a) w2 = Inr w'" "heap_inv w' bs' fl'" "keeps (protected w2 bs0) w2 w'"
    "set (used ?H ?pl) - {(a, m)} \<subseteq> set (used ?H bs')" "set (used ?H ?pl) - {(a, m)} \<subseteq> set (used ?H bs0)"
    using wdfree_block [OF W(1), unfolded g2, OF old] by blast
  have lim: "?H + span bs < 2 ^ 64" using inv by (simp add: heap_inv_def heap_bounds_def)
  have freed_ok: "wmem w' (ad (b + k)) = wmem w2 (ad (b + k))" if "(b, i) \<in> set (used ?H ?pl) - {(a, m)}" "k < i" for b i k
    using live_blocks_bytes [of b i w2 ?pl k fl1 bs0 w', unfolded g2] that W(1) w'(3,5) by blast
  have others: "wmem w' (ad (b + k)) = wmem w (ad (b + k))" if bi: "(b, i) \<in> ?U" "k < i" for b i k
  proof -
    have "b + k < 2 ^ 64" using used_bounds [of b i ?H bs] bi lim by auto
    moreover have "\<not> (c \<le> b + k \<and> b + k < c + m)" using sep [of b i] bi n j by auto
    ultimately have "wmem w2 (ad (b + k)) = wmem w1 (ad (b + k))" by (rule W(3))
    then show ?thesis using freed_ok [of b i k] used_kept [OF w1(2) _ bi(2) lim] bi pl by auto
  qed
  have copied: "wmem w' (ad (c + k)) = wmem w (ad (a + k))" if "k < m" for k
    using freed_ok [of c j k] W(2) [OF that] used_kept [OF w1(2) a that lim] new ne [OF a] that n j by auto
  have g: "heap_start w' = heap_start w" "heap_size w' = heap_size w" using w'(3) g2 by (simp_all add: keeps_def)
  have sub: "?U \<subseteq> set (used ?H bs')" "(c, j) \<in> set (used ?H bs')" using w'(4) pl ne [OF a] by auto
  have "c \<notin> fst ` ?U" using ne by force
  from resizedI [OF w'(2) g sub j this others copied] show ?thesis using w'(1) by (auto simp: sz w2_def)
qed

section \<open>All of wdrealloc\<close>

definition released :: "wdm \<Rightarrow> (nat \<times> nat) set \<Rightarrow> wdm \<Rightarrow> bool" where
  "released w U w' \<longleftrightarrow> heap_start w' = heap_start w \<and> heap_size w' = heap_size w \<and>
     (\<exists>bs fl. heap_inv w' bs fl \<and> U \<subseteq> set (used (unat (heap_start w)) bs)) \<and>
     (\<forall>(b, j) \<in> U. \<forall>i<j. wmem w' (ad (b + i)) = wmem w (ad (b + i)))"

lemma wdfree_released:
  assumes "heap_inv w bs fl" "(a, m) \<in> set (used (unat (heap_start w)) bs)"
  shows "\<exists>w'. wdfree (ad a) w = Inr w' \<and> released w (set (used (unat (heap_start w)) bs) - {(a, m)}) w'"
proof -
  obtain w' bs' fl' bs0 where w': "wdfree (ad a) w = Inr w'" "heap_inv w' bs' fl'" "keeps (protected w bs0) w w'"
    "set (used (unat (heap_start w)) bs) - {(a, m)} \<subseteq> set (used (unat (heap_start w)) bs')"
    "set (used (unat (heap_start w)) bs) - {(a, m)} \<subseteq> set (used (unat (heap_start w)) bs0)"
    using wdfree_block [OF assms] by blast
  have "wmem w' (ad (b + i)) = wmem w (ad (b + i))"
    if "(b, j) \<in> set (used (unat (heap_start w)) bs) - {(a, m)}" "i < j" for b j i
    using live_blocks_bytes [of b j w bs i fl bs0 w'] that assms(1) w'(3,5) by blast
  then show ?thesis using w' by (auto simp: released_def keeps_def)
qed

lemma resized_same:
  assumes "heap_inv w bs fl" "(a, m) \<in> set (used (unat (heap_start w)) bs)" "k \<le> m"
  shows "resized w (set (used (unat (heap_start w)) bs) - {(a, m)}) a m a k w"
proof (rule resizedI [OF assms(1) refl refl _ assms(2,3)])
  show "a \<notin> fst ` (set (used (unat (heap_start w)) bs) - {(a, m)})" using used_disjoint [OF assms(2)] by force
qed auto

text \<open>
  What a call on a block in use may end in: NULL and nothing changed, because no free block is large
  enough; NULL and the block released, when 0 bytes were asked for; or the resized block, which is the
  old one unless it had to grow.
\<close>

definition realloc_result :: "wdm \<Rightarrow> blk list \<Rightarrow> nat \<times> nat \<Rightarrow> u16 \<Rightarrow> addr \<Rightarrow> wdm \<Rightarrow> bool" where
  "realloc_result w bs u n p w' \<longleftrightarrow>
     p = NULL \<and> w' = w \<and> (\<forall>t. (t, True) \<in> set bs \<longrightarrow> t < unat n) \<or>
     p = NULL \<and> n = 0 \<and> released w (set (used (unat (heap_start w)) bs) - {u}) w' \<or>
     (\<exists>c. p = ad c \<and> (unat n \<le> snd u \<longrightarrow> c = fst u) \<and>
        resized w (set (used (unat (heap_start w)) bs) - {u}) (fst u) (snd u) c (unat n) w')"

text \<open>A pointer to a block in use leads to its header.\<close>

lemma used_header:
  assumes inv: "heap_inv w bs fl" and a: "(a, m) \<in> set (used (unat (heap_start w)) bs)"
  obtains xs ys x where "bs = xs @ (m, False) # ys" "x = unat (heap_start w) + span xs" "a = x + 12" "ad a \<noteq> NULL"
    "ad a - 12 = ad x" "WDM_ACTUAL_SIZE w (ad x) = of_nat m" "m < 2 ^ 15"
proof -
  obtain xs ys where bs: "bs = xs @ (m, False) # ys" and ax: "a = unat (heap_start w) + span xs + 12"
    using used_split [OF a] .
  define x where "x = unat (heap_start w) + span xs"
  note blk = heap_inv_block [OF inv [unfolded bs], folded x_def]
  have "ad a \<noteq> NULL" using ad_NULL [of a] blk(2) ax x_def by simp
  moreover have "ad a - 12 = ad x" by (simp add: ax x_def ad_def)
  ultimately show thesis using that [OF bs x_def] ax chain_block(2) [OF blk(5,1)] blk(1) x_def by simp
qed

lemma wdrealloc_smaller:
  assumes inv: "heap_inv w bs fl" and a: "(a, m) \<in> set (used (unat (heap_start w)) bs)" and fl: "fl \<noteq> []"
    and n: "n \<noteq> 0" "unat n < m"
  shows "\<exists>w'. wdrealloc (ad a) n w = Inr (ad a, w') \<and> realloc_result w bs (a, m) n (ad a) w'"
proof -
  obtain xs ys x where h: "bs = xs @ (m, False) # ys" "x = unat (heap_start w) + span xs" "a = x + 12" "ad a \<noteq> NULL"
    "ad a - 12 = ad x" "WDM_ACTUAL_SIZE w (ad x) = of_nat m" "m < 2 ^ 15" by (rule used_header [OF inv a])
  have use: "\<not> heap_unusable w" using fl by (simp add: heap_unusable_iff [OF inv])
  have cmp: "n \<noteq> of_nat m" "\<not> n > of_nat m"
    using u16_of_nat_simps(1) [of m m] h(7) n(2) by (auto simp: word_unat_eq_iff word_less_nat_alt)
  have room: "(ucast (of_nat m :: u16) - ucast n :: u64) \<ge> 12 + 4 \<longleftrightarrow> unat n + 16 \<le> m"
    by (rule room_condition [OF h(7)]) (use n in simp)
  show ?thesis
  proof (cases "unat n + 16 \<le> m")
    case False
    then have "wdrealloc (ad a) n w = Inr (ad a, w)" using use h(4) cmp n room by (simp add: wdrealloc_def h(5,6))
    then show ?thesis using resized_same [OF inv a, of "unat n"] n unfolding realloc_result_def by force
  next
    case True
    have "n = of_nat (unat n)" "unat n < 2 ^ 16" using unsigned_less [of n] by simp_all
    then have sp: "ad x + 12 + ucast n = ad (x + 12 + unat n)" using ad_plus_size [of "unat n" "x + 12"] by (simp add: ad_plus_12)
    show ?thesis
      using realloc_shrink [OF inv [unfolded h(1)] h(2) True refl] use h(4) cmp n room True
      unfolding realloc_result_def h(1,3) by (auto simp: wdrealloc_def h(5,6) [unfolded h(3)] Let_def sp)
  qed
qed

lemma wdrealloc_larger:
  assumes inv: "heap_inv w bs fl" and a: "(a, m) \<in> set (used (unat (heap_start w)) bs)" and fl: "fl \<noteq> []"
    and n: "m < unat n"
  shows "\<exists>p w'. wdrealloc (ad a) n w = Inr (p, w') \<and> realloc_result w bs (a, m) n p w'"
proof -
  obtain xs ys x where h: "bs = xs @ (m, False) # ys" "x = unat (heap_start w) + span xs" "a = x + 12" "ad a \<noteq> NULL"
    "ad a - 12 = ad x" "WDM_ACTUAL_SIZE w (ad x) = of_nat m" "m < 2 ^ 15" by (rule used_header [OF inv a])
  have use: "\<not> heap_unusable w" using fl by (simp add: heap_unusable_iff [OF inv])
  have cmp: "n \<noteq> of_nat m" "n > of_nat m"
    using u16_of_nat_simps(1) [of m m] h(7) n by (auto simp: word_less_nat_alt)
  show ?thesis
  proof (cases "realloc_plan (ad x) n w")
    case None
    then have code: "wdrealloc (ad a) n w = bindR (wdmalloc n w) (\<lambda>(q, w). if q = NULL then Inr (NULL, w)
        else bindR (wdfree (ad a) (wmemmove q (ad a) (WDM_ACTUAL_SIZE w (ad a - 12)) w)) (\<lambda>w. Inr (q, w)))"
      using use h(4) cmp n unfolding wdrealloc_def Let_def h(5,6) by simp
    from wdmalloc_correct [OF inv, of n] show ?thesis
    proof (elim disjE exE conjE)
      assume "wdmalloc n w = Inr (NULL, w)" "\<forall>t. (t, True) \<in> set bs \<longrightarrow> t < unat n"
      then show ?thesis using code by (simp add: realloc_result_def)
    next
      fix us s vs w1 fl1
      assume fit: "best_block (unat n) bs us s vs" "wdmalloc n w = Inr (ad (unat (heap_start w) + place_offset (unat n) us s), w1)"
        "heap_inv w1 (place_block (unat n) us s vs) fl1" "keeps (protected w bs) w w1"
      define c where "c = unat (heap_start w) + place_offset (unat n) us s"
      have "ad c \<noteq> NULL"
        using place_offset_bound [OF fit(1)] inv ad_NULL [of c] by (simp add: heap_inv_def heap_bounds_def c_def)
      then show ?thesis
        using realloc_elsewhere [OF inv a n fit(1,3,4) c_def] code fit(2) n unfolding realloc_result_def c_def by auto
    qed
  next
    case (Some r)
    then obtain b start r0 r1 where plan: "realloc_plan (ad x) n w = Some (b, start, r0, r1)" by (cases r) auto
    show ?thesis
      using realloc_local [OF inv [unfolded h(1)] h(2) n plan] use h(4) cmp n plan
      unfolding realloc_result_def h(1,3) by (auto simp: wdrealloc_def h(5,6) [unfolded h(3)] Let_def)
  qed
qed

lemma wdrealloc_correct:
  assumes inv: "heap_inv w bs fl" and a: "(a, m) \<in> set (used (unat (heap_start w)) bs)"
  shows "\<exists>p w'. wdrealloc (ad a) n w = Inr (p, w') \<and> realloc_result w bs (a, m) n p w'"
proof (cases "fl = []")
  case True
  then have "wdrealloc (ad a) n w = Inr (NULL, w)" by (simp add: wdrealloc_def heap_unusable_iff [OF inv])
  moreover have "(t, True) \<notin> set bs" for t using heap_inv_free_member [OF inv, of t] True by auto
  ultimately show ?thesis by (simp add: realloc_result_def)
next
  case False
  then have use: "\<not> heap_unusable w" by (simp add: heap_unusable_iff [OF inv])
  obtain x where h: "ad a \<noteq> NULL" "ad a - 12 = ad x" "WDM_ACTUAL_SIZE w (ad x) = of_nat m" "m < 2 ^ 15"
    using used_header [OF inv a] by metis
  have cmp: "n = of_nat m \<longleftrightarrow> unat n = m"
    using u16_of_nat_simps(1) [of m m] h(4) by (auto simp: word_unat_eq_iff)
  consider "unat n = m" | "m < unat n" | "n = 0" "0 < m" | "n \<noteq> 0" "unat n < m" by fastforce
  then show ?thesis
  proof cases
    case 1
    then have "wdrealloc (ad a) n w = Inr (ad a, w)" using use h cmp by (simp add: wdrealloc_def)
    then show ?thesis using resized_same [OF inv a, of "unat n"] 1 by (auto simp: realloc_result_def)
  next
    case 3
    then have "wdrealloc (ad a) n w = bindR (wdfree (ad a) w) (\<lambda>w. Inr (NULL, w))"
      using use h cmp by (simp add: wdrealloc_def word_less_nat_alt)
    then show ?thesis using wdfree_released [OF inv a] 3 by (auto simp: realloc_result_def)
  qed (use wdrealloc_larger [OF inv a False] wdrealloc_smaller [OF inv a False] in blast)+
qed

section \<open>The heap as an allocator that resizes\<close>

text \<open>What a client of such an allocator asks for.\<close>

datatype request = Malloc u16 | Free nat | Realloc nat u16

fun touches :: "nat \<Rightarrow> request \<Rightarrow> bool" where
  "touches a (Malloc n) = False"
| "touches a (Free b) = (a = b)"
| "touches a (Realloc b n) = (a = b)"

text \<open>What the client holds after resizing its region at \<open>a\<close>.\<close>

definition held_after :: "nat \<Rightarrow> u16 \<Rightarrow> addr \<Rightarrow> (nat \<times> nat) set \<Rightarrow> (nat \<times> nat) set" where
  "held_after a n p U =
     (if p \<noteq> NULL then insert (unat p, unat n) {(b, k) \<in> U. b \<noteq> a} else if n = 0 then {(b, k) \<in> U. b \<noteq> a} else U)"

text \<open>A client that only releases and resizes what it holds.\<close>

fun serve ::
  "(u16 \<Rightarrow> 's \<Rightarrow> (addr \<times> 's) outcome) \<Rightarrow> (addr \<Rightarrow> 's \<Rightarrow> 's outcome) \<Rightarrow> (addr \<Rightarrow> u16 \<Rightarrow> 's \<Rightarrow> (addr \<times> 's) outcome) \<Rightarrow>
    request list \<Rightarrow> 's \<Rightarrow> (nat \<times> nat) set \<Rightarrow> ('s \<times> (nat \<times> nat) set) outcome" where
  "serve malloc free realloc [] s U = Inr (s, U)"
| "serve malloc free realloc (Malloc n # rs) s U = bindR (malloc n s) (\<lambda>(p, s').
     serve malloc free realloc rs s' (if p = NULL then U else insert (unat p, unat n) U))"
| "serve malloc free realloc (Free a # rs) s U =
     (if a \<in> fst ` U then bindR (free (of_nat a) s) (\<lambda>s'. serve malloc free realloc rs s' {(b, k) \<in> U. b \<noteq> a})
      else serve malloc free realloc rs s U)"
| "serve malloc free realloc (Realloc a n # rs) s U =
     (if a \<in> fst ` U then bindR (realloc (of_nat a) n s) (\<lambda>(p, s'). serve malloc free realloc rs s' (held_after a n p U))
      else serve malloc free realloc rs s U)"

locale resizing_allocator = allocator live byte malloc free
  for live :: "'s \<Rightarrow> (nat \<times> nat) set \<Rightarrow> bool" and byte :: "'s \<Rightarrow> nat \<Rightarrow> u8"
    and malloc :: "u16 \<Rightarrow> 's \<Rightarrow> (addr \<times> 's) outcome" and free :: "addr \<Rightarrow> 's \<Rightarrow> 's outcome" +
  fixes realloc :: "addr \<Rightarrow> u16 \<Rightarrow> 's \<Rightarrow> (addr \<times> 's) outcome"
  assumes realloc_live: "live s U \<Longrightarrow> (a, k) \<in> U \<Longrightarrow> \<exists>p s'. realloc (of_nat a) n s = Inr (p, s') \<and>
      live s' (held_after a n p U) \<and>
      (\<forall>(b, j) \<in> U - {(a, k)}. \<forall>i<j. byte s' (b + i) = byte s (b + i)) \<and>
      (if p = NULL then n \<noteq> 0 \<longrightarrow> s' = s else \<forall>i<min k (unat n). byte s' (unat p + i) = byte s (a + i))"
begin

abbreviation kept :: "(nat \<times> nat) set \<Rightarrow> 's \<Rightarrow> (nat \<times> nat) set \<Rightarrow> 's \<Rightarrow> request list \<Rightarrow> bool" where
  "kept U s U' s' rs \<equiv> \<forall>(a, k) \<in> U. (\<forall>r \<in> set rs. \<not> touches a r) \<longrightarrow>
     (a, k) \<in> U' \<and> (\<forall>i<k. byte s' (a + i) = byte s (a + i))"

lemma kept_trans:
  assumes "kept U1 s1 U' s' rs"
    "\<And>a k. (a, k) \<in> U \<Longrightarrow> \<not> touches a r \<Longrightarrow> (a, k) \<in> U1 \<and> (\<forall>i<k. byte s1 (a + i) = byte s (a + i))"
  shows "kept U s U' s' (r # rs)"
  using assms by fastforce

lemma held_after_others: "(b, j) \<in> U \<Longrightarrow> b \<noteq> a \<Longrightarrow> (b, j) \<in> held_after a n p U"
  by (auto simp: held_after_def)

lemma serve_live:
  assumes "live s U"
  shows "\<exists>s' U'. serve malloc free realloc rs s U = Inr (s', U') \<and> live s' U' \<and> kept U s U' s' rs"
  using assms
proof (induction rs arbitrary: s U)
  case (Cons r rs)
  have skip: ?case if "serve malloc free realloc (r # rs) s U = serve malloc free realloc rs s U"
    using Cons.IH [OF Cons.prems] that by fastforce
  have step: ?case
    if run: "serve malloc free realloc (r # rs) s U = serve malloc free realloc rs s1 U1" and l: "live s1 U1"
      and kp: "\<And>a k. (a, k) \<in> U \<Longrightarrow> \<not> touches a r \<Longrightarrow> (a, k) \<in> U1 \<and> (\<forall>i<k. byte s1 (a + i) = byte s (a + i))" for s1 U1
  proof -
    obtain s' U' where r: "serve malloc free realloc rs s1 U1 = Inr (s', U')" "live s' U'" "kept U1 s1 U' s' rs"
      using Cons.IH [OF l] by blast
    have "kept U s U' s' (r # rs)" by (rule kept_trans [OF r(3) kp])
    then show ?thesis using r(1,2) unfolding run by blast
  qed
  show ?case
  proof (cases r)
    case (Malloc n)
    obtain p s1 where "malloc n s = Inr (p, s1)" "live s1 (if p = NULL then U else insert (unat p, unat n) U)"
      "\<forall>(a, k) \<in> U. \<forall>i<k. byte s1 (a + i) = byte s (a + i)"
      using malloc_live [OF Cons.prems] by blast
    then show ?thesis using Malloc by (intro step) auto
  next
    case (Free a)
    show ?thesis
    proof (cases "a \<in> fst ` U")
      case True
      then obtain k where k: "(a, k) \<in> U" by auto
      obtain s1 where "free (of_nat a) s = Inr s1" "live s1 (U - {(a, k)})"
        "\<forall>(b, j) \<in> U - {(a, k)}. \<forall>i<j. byte s1 (b + i) = byte s (b + i)"
        using free_live [OF Cons.prems k] by blast
      then show ?thesis using Free True live_remove [OF Cons.prems k] by (intro step [of s1 "U - {(a, k)}"]) auto
    qed (use skip Free in simp)
  next
    case (Realloc a n)
    show ?thesis
    proof (cases "a \<in> fst ` U")
      case True
      then obtain k where k: "(a, k) \<in> U" by auto
      obtain p s1 where "realloc (of_nat a) n s = Inr (p, s1)" "live s1 (held_after a n p U)"
        "\<forall>(b, j) \<in> U - {(a, k)}. \<forall>i<j. byte s1 (b + i) = byte s (b + i)"
        using realloc_live [OF Cons.prems k, of n] by blast
      then show ?thesis using Realloc True by (intro step [of s1 "held_after a n p U"]) (auto intro: held_after_others)
    qed (use skip Realloc in simp)
  qed
qed simp

end

text \<open>The regions other than the one at \<open>a\<close>, in the blocks of the heap.\<close>

lemma other_regions:
  assumes "\<And>a n. (a, n) \<in> U \<Longrightarrow> \<exists>m. n \<le> m \<and> (a, m) \<in> B" "(b, j) \<in> {(b, j) \<in> U. b \<noteq> a}"
  obtains i where "j \<le> i" "(b, i) \<in> B - {(a, m)}"
  using assms(1) [of b j] assms(2) by auto

lemma released_live:
  assumes r: "released w (set (used (unat (heap_start w)) bs) - {(a, m)}) w'" and hh: "heap_start w = h" "heap_size w = hn"
    and u: "\<And>a n. (a, n) \<in> U \<Longrightarrow> \<exists>m. n \<le> m \<and> (a, m) \<in> set (used (unat (heap_start w)) bs)"
    and fn: "\<And>a n k. (a, n) \<in> U \<Longrightarrow> (a, k) \<in> U \<Longrightarrow> n = k"
  shows "live_blocks h hn w' {(b, j) \<in> U. b \<noteq> a}"
    "(b, j) \<in> U \<Longrightarrow> b \<noteq> a \<Longrightarrow> i < j \<Longrightarrow> wmem w' (ad (b + i)) = wmem w (ad (b + i))"
proof -
  let ?H = "unat (heap_start w)"
  obtain bs' fl' where b: "heap_start w' = heap_start w" "heap_size w' = heap_size w" "heap_inv w' bs' fl'"
    "set (used ?H bs) - {(a, m)} \<subseteq> set (used ?H bs')"
    "\<And>b j i. (b, j) \<in> set (used ?H bs) - {(a, m)} \<Longrightarrow> i < j \<Longrightarrow> wmem w' (ad (b + i)) = wmem w (ad (b + i))"
    using r unfolding released_def by blast
  show "live_blocks h hn w' {(b, j) \<in> U. b \<noteq> a}"
  proof (rule live_blocksI [OF b(3)], unfold b(1,2))
    fix c n assume "(c, n) \<in> {(b, j) \<in> U. b \<noteq> a}"
    then obtain i where "n \<le> i" "(c, i) \<in> set (used ?H bs) - {(a, m)}" using other_regions [OF u] by blast
    then show "\<exists>m. n \<le> m \<and> (c, m) \<in> set (used ?H bs')" using b(4) by blast
  qed (use hh fn in auto)
  show "wmem w' (ad (b + i)) = wmem w (ad (b + i))" if bj: "(b, j) \<in> U" "b \<noteq> a" "i < j"
  proof -
    obtain l where "j \<le> l" "(b, l) \<in> set (used ?H bs) - {(a, m)}" using other_regions [OF u, where b = b and j = j and a = a] bj by blast
    then show ?thesis using b(5) bj(3) by simp
  qed
qed

lemma resized_released: "resized w U a m c k w' \<Longrightarrow> released w U w'"
  by (auto simp: resized_def released_def)

lemma resized_addr:
  assumes "resized w U a m c k w'"
  shows "0 < c" "c < 2 ^ 64"
proof -
  obtain bs fl j where "heap_start w' = heap_start w" "heap_inv w' bs fl" "(c, j) \<in> set (used (unat (heap_start w)) bs)"
    using assms by (auto simp: resized_def)
  then show "0 < c" "c < 2 ^ 64" using used_bounds [of c j "unat (heap_start w)" bs] by (auto simp: heap_inv_def heap_bounds_def)
qed

lemma resized_live:
  assumes r: "resized w (set (used (unat (heap_start w)) bs) - {(a, m)}) a m c k w'"
    and hh: "heap_start w = h" "heap_size w = hn"
    and u: "\<And>a n. (a, n) \<in> U \<Longrightarrow> \<exists>m. n \<le> m \<and> (a, m) \<in> set (used (unat (heap_start w)) bs)"
    and fn: "\<And>a n k. (a, n) \<in> U \<Longrightarrow> (a, k) \<in> U \<Longrightarrow> n = k"
  shows "live_blocks h hn w' (insert (c, k) {(b, j) \<in> U. b \<noteq> a})"
proof -
  let ?H = "unat (heap_start w)"
  obtain bs' fl' j where b: "heap_start w' = heap_start w" "heap_size w' = heap_size w" "heap_inv w' bs' fl'"
    "set (used ?H bs) - {(a, m)} \<subseteq> set (used ?H bs')" "(c, j) \<in> set (used ?H bs')" "k \<le> j"
    "c \<notin> fst ` (set (used ?H bs) - {(a, m)})"
    using r unfolding resized_def by blast
  have fresh: "(c, i) \<notin> {(b, j) \<in> U. b \<noteq> a}" for i
  proof
    assume "(c, i) \<in> {(b, j) \<in> U. b \<noteq> a}"
    then obtain l where "(c, l) \<in> set (used ?H bs) - {(a, m)}" using other_regions [OF u] by blast
    then show False using b(7) by force
  qed
  show ?thesis
  proof (rule live_blocksI [OF b(3)], unfold b(1,2))
    show "\<exists>m. n \<le> m \<and> (d, m) \<in> set (used ?H bs')" if dn: "(d, n) \<in> insert (c, k) {(b, j) \<in> U. b \<noteq> a}" for d n
    proof (cases "(d, n) = (c, k)")
      case False
      then have "(d, n) \<in> {(b, j) \<in> U. b \<noteq> a}" using dn by blast
      then obtain i where "n \<le> i" "(d, i) \<in> set (used ?H bs) - {(a, m)}" using other_regions [OF u] by blast
      then show ?thesis using b(4) by blast
    qed (use b(5,6) in auto)
  qed (use hh fn fresh in auto)
qed

lemma live_blocks_realloc:
  assumes l: "live_blocks h hn w U" and ak: "(a, k) \<in> U"
  shows "\<exists>p w'. wdrealloc (of_nat a) n w = Inr (p, w') \<and> live_blocks h hn w' (held_after a n p U) \<and>
    (\<forall>(b, j) \<in> U - {(a, k)}. \<forall>i<j. wmem w' (ad (b + i)) = wmem w (ad (b + i))) \<and>
    (if p = NULL then n \<noteq> 0 \<longrightarrow> w' = w else \<forall>i<min k (unat n). wmem w' (ad (unat p + i)) = wmem w (ad (a + i)))"
proof -
  let ?H = "unat (heap_start w)"
  obtain bs fl where inv: "heap_inv w bs fl" and hh: "heap_start w = h" "heap_size w = hn"
    and u: "\<And>a n. (a, n) \<in> U \<Longrightarrow> \<exists>m. n \<le> m \<and> (a, m) \<in> set (used ?H bs)"
    and fn: "\<And>a n k. (a, n) \<in> U \<Longrightarrow> (a, k) \<in> U \<Longrightarrow> n = k"
    using live_blocksE [OF l] by metis
  obtain m where m: "k \<le> m" "(a, m) \<in> set (used ?H bs)" using u [OF ak] by blast
  obtain p w' where code: "wdrealloc (of_nat a) n w = Inr (p, w')" and res: "realloc_result w bs (a, m) n p w'"
    using wdrealloc_correct [OF inv m(2), of n] by (auto simp: ad_def)
  have U: "b \<noteq> a" if "(b, j) \<in> U - {(a, k)}" for b j using fn [OF ak, of j] that by auto
  consider (same) "p = NULL" "w' = w" | (gone) "p = NULL" "n = 0" "released w (set (used ?H bs) - {(a, m)}) w'"
    | (moved) c where "p = ad c" "resized w (set (used ?H bs) - {(a, m)}) a m c (unat n) w'"
    using res by (auto simp: realloc_result_def)
  then show ?thesis
  proof cases
    case same
    have "live_blocks h hn w {(b, j) \<in> U. b \<noteq> a}" by (rule live_blocksI [OF inv hh]) (use u fn in auto)
    then show ?thesis using code same l by (auto simp: held_after_def)
  next
    case gone
    note R = released_live [OF gone(3) hh u fn]
    have "wmem w' (ad (b + i)) = wmem w (ad (b + i))" if "(b, j) \<in> U - {(a, k)}" "i < j" for b j i
      using R(2) [where b = b and j = j and i = i] U [OF that(1)] that by simp
    then have "\<forall>(b, j) \<in> U - {(a, k)}. \<forall>i<j. wmem w' (ad (b + i)) = wmem w (ad (b + i))" by blast
    then show ?thesis using code gone(1,2) R(1) by (simp add: held_after_def)
  next
    case moved
    note R = released_live(2) [OF resized_released [OF moved(2)] hh u fn]
    have "wmem w' (ad (b + i)) = wmem w (ad (b + i))" if "(b, j) \<in> U - {(a, k)}" "i < j" for b j i
      using R [where b = b and j = j and i = i] U [OF that(1)] that by simp
    then have "\<forall>(b, j) \<in> U - {(a, k)}. \<forall>i<j. wmem w' (ad (b + i)) = wmem w (ad (b + i))" by blast
    moreover have "\<forall>i<min k (unat n). wmem w' (ad (c + i)) = wmem w (ad (a + i))"
      using moved(2) m(1) by (simp add: resized_def)
    moreover have "p \<noteq> NULL" "unat p = c" using resized_addr [OF moved(2)] moved(1) by (simp_all add: ad_NULL unat_ad)
    ultimately show ?thesis using code resized_live [OF moved(2) hh u fn] by (simp add: held_after_def)
  qed
qed

interpretation wd_resizing: resizing_allocator "live_blocks h hn" "\<lambda>w x. wmem w (ad x)" wdmalloc wdfree wdrealloc for h hn
  using live_blocks_realloc by unfold_locales

section \<open>Properties\<close>

text \<open>C1: after \<^verbatim>\<open>wdmalloc_init\<close> on a region of 13 to 32779 bytes, whatever sequence of
  \<^verbatim>\<open>wdmalloc\<close> calls and of \<^verbatim>\<open>wdfree\<close> and \<^verbatim>\<open>wdrealloc\<close> calls on held pointers a client makes,
  every call returns and the regions the client holds lie inside the heap and do not overlap.\<close>

theorem heap_sessions_safe:
  assumes "start \<noteq> NULL" "12 < n" "unat n < 2 ^ 15 + 12" "unat start + unat n < 2 ^ 64"
  shows "\<exists>w. wdmalloc_init start n w0 = Inr w \<and>
    (\<forall>rs. \<exists>w' U. serve wdmalloc wdfree wdrealloc rs w {} = Inr (w', U) \<and>
      inside (unat start + 12) (unat start + unat n) U \<and> separated U)"
proof -
  obtain w where w: "wdmalloc_init start n w0 = Inr w" "heap_inv w [(unat n - 12, True)] [unat start]"
    "heap_start w = start" "heap_size w = n"
    using wdmalloc_init_correct [OF assms] by blast
  then have l: "live_blocks start n w {}" by (auto simp: live_blocks_def)
  have "\<exists>w' U. serve wdmalloc wdfree wdrealloc rs w {} = Inr (w', U) \<and> live_blocks start n w' U" for rs
    using wd_resizing.serve_live [OF l, of rs] by blast
  moreover have "inside (unat start + 12) (unat start + unat n) U \<and> separated U"
    if "live_blocks start n w' U" for w' U
    unfolding inside_def separated_def
    by (intro conjI allI impI live_blocks_disjoint [OF that, THEN conjunct2])
      (auto dest: live_blocks_inside [OF that])
  ultimately show ?thesis using w(1) by blast
qed

theorem heap_sessions_safe_witness:
  "\<exists>w. wdmalloc_init 0x1000 112 bare_heap = Inr w \<and>
    (\<exists>w' U. serve wdmalloc wdfree wdrealloc [Malloc 20, Malloc 30, Realloc 0x105C 40, Free 0x1032] w {} = Inr (w', U) \<and>
      inside (0x1000 + 12) (0x1000 + 112) U \<and> separated U)"
  using heap_sessions_safe [of "0x1000" 112 bare_heap] by (simp del: serve.simps) blast

text \<open>C4: what a client has stored in a region it holds stays there through any sequence of later
  \<^verbatim>\<open>wdmalloc\<close>, \<^verbatim>\<open>wdfree\<close> and \<^verbatim>\<open>wdrealloc\<close> calls that neither releases nor resizes that region.\<close>

theorem heap_sessions_keep_data:
  assumes "live_blocks h hn w U" "serve wdmalloc wdfree wdrealloc rs w U = Inr (w', U')"
    "(a, k) \<in> U" "\<forall>r \<in> set rs. \<not> touches a r" "i < k"
  shows "(a, k) \<in> U' \<and> wmem w' (ad (a + i)) = wmem w (ad (a + i))"
  using wd_resizing.serve_live [OF assms(1), of rs] assms(2-5) by auto

theorem heap_sessions_keep_data_witness:
  "\<exists>w' U'. serve wdmalloc wdfree wdrealloc [Malloc 8] two_block_heap {(0x1040, 48)} = Inr (w', U') \<and>
    (0x1040, 48) \<in> U' \<and> wmem w' (ad (0x1040 + 47)) = wmem two_block_heap (ad (0x1040 + 47))"
proof -
  have h: "heap_start two_block_heap = 0x1000" "heap_size two_block_heap = 112"
    by (simp_all add: two_block_heap_def)
  have l: "live_blocks 0x1000 112 two_block_heap {(0x1040, 48)}"
    by (rule live_blocksI [OF two_block_heap_inv]) (auto simp: h)
  obtain w' U' where s: "serve wdmalloc wdfree wdrealloc [Malloc 8] two_block_heap {(0x1040, 48)} = Inr (w', U')"
    using wd_resizing.serve_live [OF l] by blast
  show ?thesis using heap_sessions_keep_data [OF l s, of "0x1040" 48 47] s by simp
qed



end
