(* ===== verification/Kernel.thy ===== *)
theory Kernel
  imports Poolinit Pit Wdrealloc
begin

text \<open>
  The entry point of the kernel (\<^verbatim>\<open>src/kernel/main.c\<close>): the order in which it brings up the console,
  the interrupts, the paging, the heap and the timer, over one memory and one trace of port accesses.
  The linker's and the assembly's symbols are the record \<open>kernel_env\<close>. Interrupts that arrive while the
  greeting is printed are not modelled.
\<close>

section \<open>Definitions\<close>

abbreviation (input) KERNEL_HEAP_PAGES :: u64 where "KERNEL_HEAP_PAGES \<equiv> 10"

record kernel_env =
  mboot_magic :: u32
  mboot_tags :: u32
  exc_stub :: "nat \<Rightarrow> addr"
  isr_stub :: "nat \<Rightarrow> addr"
  idt_symbol :: addr
  kernel_end_symbol :: addr
  page_fault_symbol :: addr
  timer_symbol :: addr
  ports :: device

record kernel =
  k_intr :: intr
  k_paging :: paging
  k_heap :: wdm
  k_term :: terminal

text \<open>
  Memory is one function of the virtual addresses of the direct map; once CR3 is loaded that is what the
  processor sees only where the new tables say so. The accesses of \<^verbatim>\<open>kernel_main\<close> behind \<^verbatim>\<open>paging_init\<close> are
  checked against them: a byte they do not map to the physical address of the direct map is a fault, which
  nothing can handle when the code, the stack or the IDT is among them.
\<close>

abbreviation (input) KERNEL_START :: addr where "KERNEL_START \<equiv> 0xFFFFFFFF80100000"

definition mapped :: "paging \<Rightarrow> addr \<Rightarrow> nat \<Rightarrow> bool" where
  "mapped pg a n = list_all (\<lambda>i. translate (pg_mem pg) (cr3 pg) (a + of_nat i) = Some (k_vtop (a + of_nat i))) [0..<n]"

definition touch :: "paging \<Rightarrow> addr \<Rightarrow> nat \<Rightarrow> 'a outcome \<Rightarrow> 'a outcome" where
  "touch pg a n rest = (if mapped pg a n then rest else Inl Bad_pointer)"

text \<open>\<^verbatim>\<open>kernel_main\<close> up to \<^verbatim>\<open>interrupts_enable\<close>. With the new tables it runs in its image, reads the bitmap of the
  kernel's pool and writes the header of the heap.\<close>

definition kernel_init :: "kernel_env \<Rightarrow> kernel \<Rightarrow> kernel outcome" where
  "kernel_init env k =
     (let i = interrupts_disable (k_intr k) in
      ASSERT (mboot_magic env = MULTIBOOT2_BOOTLOADER_MAGIC)
     (let console = term_clear (k_term k);
          i = i\<lparr>ipic := (ipic i)\<lparr>pic_io := snd (serial_init (ports env) COM1 (pic_io (ipic i)))\<rparr>\<rparr>;
          i = interrupts_init (exc_stub env) (isr_stub env) (idt_symbol env) i
      in bindR (paging_init (ports env) (mboot_tags env) (kernel_end_symbol env) (page_fault_symbol env) (k_paging k) i)
           (\<lambda>(pg, i).
         touch pg KERNEL_START (unat (kernel_end_symbol env - KERNEL_START))
        (touch pg (bmp_buf (allocated_bmp (kernel_pool pg))) (bmp_extent (allocated_bmp (kernel_pool pg)))
        (bindR (paging_get_pages KERNEL_HEAP_PAGES 0 pg) (\<lambda>(heap, pg).
         touch pg heap 12
        (bindR (wdmalloc_init heap (ucast (KERNEL_HEAP_PAGES * 4096)) ((k_heap k)\<lparr>wmem := pg_mem pg\<rparr>)) (\<lambda>w.
         bindR (pit_init (ports env) (timer_symbol env) 100 i) (\<lambda>i.
         Inr \<lparr>k_intr = interrupts_enable i, k_paging = pg\<lparr>pg_mem := wmem w\<rparr>, k_heap = w, k_term = console\<rparr>)))))))))"

text \<open>One line of the greeting; the last two arguments are of type \<^verbatim>\<open>int\<close>.\<close>

definition hello_line :: "kernel_env \<Rightarrow> nat \<Rightarrow> kernel \<Rightarrow> kernel outcome" where
  "hello_line env i k =
     bindR (printf (ports env) (map of_char (''Hello World! %s %d %x'' @ [LF, CR]))
              [Vstr (map of_char ''abc''), Vint (of_nat i), Vint (of_nat i)]
              \<lparr>out_term = k_term k, out_io = pic_io (ipic (k_intr k))\<rparr>) (\<lambda>d.
     Inr (k\<lparr>k_term := out_term d, k_intr := (k_intr k)\<lparr>ipic := (ipic (k_intr k))\<lparr>pic_io := out_io d\<rparr>\<rparr>\<rparr>))"

definition kernel_main :: "kernel_env \<Rightarrow> kernel \<Rightarrow> kernel outcome" where
  "kernel_main env k =
     bindR (kernel_init env k) (\<lambda>k. bindR (foldR (hello_line env) [0..<100] k) (\<lambda>_. Inl Endless_loop))"

section \<open>The heap in its pages\<close>

lemma wdmalloc_init_outside:
  assumes "wdmalloc_init start n w = Inr w'" "\<not> unat (x - start) < 12"
  shows "wmem w' x = wmem w x"
proof -
  have out: "store_le k m (start + of_nat j) v x = m x" if "j + k \<le> 12" for k j m and v :: "'a::len word"
  proof (rule store_le_outside)
    have "j + k \<le> 2 ^ 64" using that by simp
    then show "\<not> unat (x - (start + of_nat j)) < k" using that assms(2) by (intro bytes_after) auto
  qed (use that in simp)
  show ?thesis using assms(1)
    by (auto simp: wdmalloc_init_def ASSERT_eq_Inr Let_def set_prev_sz_def set_sz_def set_lom_def store16_def store64_def
        out [of 0 2, simplified] out [of 2 2, simplified] out [of 4 8, simplified])
qed

text \<open>Twelve bytes that are neither in a table nor in the bitmap.\<close>

definition clear_of_tables :: "pool_t \<Rightarrow> (nat list \<Rightarrow> nat option) \<Rightarrow> addr \<Rightarrow> bool" where
  "clear_of_tables pool nodes start \<longleftrightarrow>
     (\<forall>x. unat (x - start) < 12 \<longrightarrow> (\<forall>p. nodes p \<noteq> Some (page_no pool x)) \<and> \<not> in_bitmap pool x)"

lemma tree_heap_header:
  assumes "table_tree m pool nodes leaves" "clear_of_tables pool nodes start"
    "\<And>x. \<not> unat (x - start) < 12 \<Longrightarrow> m' x = m x"
  shows "table_tree m' pool nodes leaves"
proof (rule tree_frame [OF assms(1)])
  have bits: "taken m' pool i = taken m pool i" if "i < pages pool" for i
    using that assms(2,3) unfolding clear_of_tables_def by (intro bmp_bit_cong) (auto simp: in_bitmap_def)
  show "pool_ok m' pool" using pool_ok_bits [OF bits] table_treeD(1) [OF assms(1)] by blast
  show "taken m' pool i" if "i < pages pool" "taken m pool i" for i using that bits by simp
  show "m' x = m x" if "nodes p = Some (page_no pool x)" for p x
    using that assms(2,3) unfolding clear_of_tables_def by blast
qed

lemma given_pages_clear:
  assumes "table_tree m pool nodes leaves" "pages_given flags pool c n m m'" "0 < n"
  shows "clear_of_tables pool nodes (page_at pool c)"
  unfolding clear_of_tables_def
proof (intro allI impI)
  fix x assume x: "unat (x - page_at pool c) < 12"
  note tree = table_treeD [OF assms(1)]
  have c: "c < pages pool" "\<not> taken m pool c" using assms(2,3) by (auto simp: pages_given_def)
  have "4096 * (c + 1) \<le> 2 ^ 64" using tree(1) c(1) by (simp add: pool_ok_def)
  then have no: "page_no pool x = c" using in_pages_iff [of c 1 x pool] x by simp
  show "(\<forall>p. nodes p \<noteq> Some (page_no pool x)) \<and> \<not> in_bitmap pool x"
    using c tree(1) tree(4) no unfolding pool_ok_def by metis
qed

lemma given_pages_tree:
  assumes "table_tree m pool nodes leaves" "pages_given 0 pool c n m m'" "pool_ok m' pool"
  shows "table_tree m' pool nodes leaves"
proof (rule tree_frame [OF assms(1,3)])
  show "taken m' pool i" if "i < pages pool" "taken m pool i" for i using that assms(2) by (simp add: pages_given_def)
  show "m' x = m x" if "nodes p = Some (page_no pool x)" for p x
    using table_treeD(6) [OF assms(1) that] assms(2) by (simp add: pages_given_def)
qed

text \<open>The heap gets the first ten pages in a row that are free; taking them and writing the header leaves the
  tables as they are.\<close>

lemma heap_keeps_tables:
  assumes "page_tables s nodes leaves" "L + 10 \<le> pages (kernel_pool s)"
    "\<And>j. L \<le> j \<Longrightarrow> j < L + 10 \<Longrightarrow> \<not> taken (pg_mem s) (kernel_pool s) j"
  shows "\<exists>c m. paging_get_pages 10 0 s = Inr (page_at (kernel_pool s) c, s\<lparr>pg_mem := m\<rparr>) \<and> c \<le> L \<and>
    page_tables (s\<lparr>pg_mem := m\<rparr>) nodes leaves \<and>
    (\<forall>w w' sz. wmem w = m \<and> wdmalloc_init (page_at (kernel_pool s) c) sz w = Inr w' \<longrightarrow>
      page_tables (s\<lparr>pg_mem := wmem w'\<rparr>) nodes leaves)"
proof -
  let ?pool = "kernel_pool s"
  have tree: "table_tree (pg_mem s) ?pool nodes leaves" using assms(1) by (simp add: page_tables_def)
  have pool: "pool_of 0 s = ?pool" by (simp add: pool_of_def)
  have run: "\<not> (\<exists>j. L \<le> j \<and> j < L + 10 \<and> taken (pg_mem s) ?pool j)" using assms(3) by blast
  then obtain c m where c: "paging_get_pages 10 0 s = Inr (page_at ?pool c, s\<lparr>pg_mem := m\<rparr>)"
    "pages_given 0 ?pool c 10 (pg_mem s) m" "pool_ok m ?pool"
    using paging_get_pages_cases [of s 0 10] table_treeD(1) [OF tree] assms(2) unfolding pool by fastforce
  have "c \<le> L" using c(2) run by (auto simp: pages_given_def not_le [symmetric])
  have tree': "table_tree m ?pool nodes leaves" using given_pages_tree [OF tree c(2,3)] .
  have clear: "clear_of_tables ?pool nodes (page_at ?pool c)" using given_pages_clear [OF tree c(2)] by simp
  have "page_tables (s\<lparr>pg_mem := wmem w'\<rparr>) nodes leaves"
    if "wmem w = m" "wdmalloc_init (page_at ?pool c) sz w = Inr w'" for w w' sz
    using tree_heap_header [OF tree' clear, of "wmem w'"] wdmalloc_init_outside [OF that(2)] that(1) assms(1)
    by (simp add: page_tables_def)
  moreover have "page_tables (s\<lparr>pg_mem := m\<rparr>) nodes leaves" using tree' assms(1) by (simp add: page_tables_def)
  ultimately show ?thesis using c(1) \<open>c \<le> L\<close> by blast
qed

section \<open>Running under the new tables\<close>

lemma direct_address: "2 ^ 64 - 2 ^ 31 \<le> unat x \<Longrightarrow> k_ptov (of_nat (unat x - (2 ^ 64 - 2 ^ 31))) = x"
  by (simp add: k_ptov_def of_nat_diff)

text \<open>The bytes the direct map of \<open>t\<close> pages reaches, and a range it does not.\<close>

lemma direct_mapped:
  assumes "page_tables s nodes (direct_leaves t)" "cr3 s = k_vtop (init_pml4 s)" "t \<le> 2 ^ 19"
    "2 ^ 64 - 2 ^ 31 \<le> unat a" "unat a + n \<le> 2 ^ 64 - 2 ^ 31 + 4096 * t"
  shows "mapped s a n"
proof -
  have "translate (pg_mem s) (cr3 s) (a + of_nat i) = Some (k_vtop (a + of_nat i))" if "i < n" for i
  proof -
    have "unat (a + of_nat i) = unat a + i"
      using that assms(3,5) unat_of_nat_u64 [of i] by (simp add: unat_word_ariths)
    then have p: "2 ^ 64 - 2 ^ 31 \<le> unat (a + of_nat i)" "unat (a + of_nat i) - (2 ^ 64 - 2 ^ 31) < 4096 * t"
      using that assms(4,5) by linarith+
    define b where "b = unat (a + of_nat i) - (2 ^ 64 - 2 ^ 31)"
    have b: "a + of_nat i = k_ptov (of_nat b)" unfolding b_def by (rule direct_address [OF p(1), symmetric])
    show ?thesis unfolding b using page_tables_direct [OF assms(1-3) p(2)] by (simp add: b_def k_ptov_def k_vtop_def)
  qed
  then show ?thesis by (simp add: mapped_def list_all_iff)
qed

lemma direct_unmapped:
  assumes "page_tables s nodes (direct_leaves t)" "cr3 s = k_vtop (init_pml4 s)"
    "2 ^ 64 - 2 ^ 31 \<le> unat a" "2 ^ 64 - 2 ^ 31 + 4096 * t < unat e" "unat a < unat e"
  shows "\<not> mapped s a (unat (e - a))"
proof -
  have e: "unat (e - a) = unat e - unat a" using assms(5) by (simp add: unat_sub word_le_nat_alt)
  define b where "b = unat e - 1 - (2 ^ 64 - 2 ^ 31)"
  have b: "4096 * t \<le> b" "b < 2 ^ 31" using assms(4) unat_u64_less [of e] by (auto simp: b_def)
  have "a + of_nat (unat (e - a) - 1) = e - 1"
    using assms(5) e by (simp add: of_nat_diff)
  moreover have "unat (e - 1) = unat e - 1" using assms(5) by (subst unat_minus_one) auto
  then have "e - 1 = k_ptov (of_nat b)" using direct_address [of "e - 1"] assms(3,5) by (simp add: b_def)
  ultimately have "translate (pg_mem s) (cr3 s) (a + of_nat (unat (e - a) - 1)) = None"
    using page_tables_beyond [OF assms(1,2) b] by simp
  moreover have "unat (e - a) - 1 < unat (e - a)" using assms(5) e by simp
  ultimately show ?thesis unfolding mapped_def list_all_iff by (metis atLeast0LessThan lessThan_iff option.distinct(1) set_upt)
qed

text \<open>The direct map of \<open>t\<close> pages is loaded, its tables are in the pages from \<open>fs\<close> on: writes below leave it as it is.\<close>

definition direct_loaded :: "addr \<Rightarrow> nat \<Rightarrow> paging \<Rightarrow> bool" where
  "direct_loaded fs t s \<longleftrightarrow> (\<exists>nodes. page_tables s nodes (direct_leaves t)) \<and> cr3 s = k_vtop (init_pml4 s) \<and> t \<le> 2 ^ 19 \<and>
     pool_layout (kernel_pool s) fs (t div 2) \<and> page_base (kernel_pool s) = fs"

lemma direct_loaded_translate:
  "direct_loaded fs t s \<Longrightarrow> a < 4096 * t \<Longrightarrow> translate (pg_mem s) (cr3 s) (k_ptov (of_nat a)) = Some (of_nat a)"
  using page_tables_direct by (auto simp: direct_loaded_def)

lemma offset_le: "unat (b :: addr) + n \<le> 2 ^ 64 \<Longrightarrow> unat (x - b) < n \<Longrightarrow> unat b \<le> unat x"
  by (auto simp: unat_sub_if' split: if_splits)

lemma direct_loaded_below:
  assumes "direct_loaded fs t s" "\<And>x. unat fs \<le> unat x \<Longrightarrow> m' x = pg_mem s x"
  shows "direct_loaded fs t (s\<lparr>pg_mem := m'\<rparr>)"
proof -
  let ?pool = "kernel_pool s"
  obtain nodes where tree: "table_tree (pg_mem s) ?pool nodes (direct_leaves t)" "page_tables s nodes (direct_leaves t)"
    using assms(1) by (auto simp: direct_loaded_def page_tables_def)
  have lay: "pool_layout ?pool fs (t div 2)" "page_base ?pool = fs" using assms(1) by (simp_all add: direct_loaded_def)
  note facts = table_treeD [OF tree(1)]
  have space: "unat fs + 4096 * pages ?pool \<le> 2 ^ 64" using facts(1) lay(2) by (simp add: pool_ok_def)
  have bits: "taken m' ?pool i = taken (pg_mem s) ?pool i" if "i < pages ?pool" for i
  proof (rule bmp_bit_cong [OF _ that])
    fix x assume "unat (x - bmp_buf (allocated_bmp ?pool)) < bmp_extent (allocated_bmp ?pool)"
    moreover have "bmp_extent (allocated_bmp ?pool) \<le> bitmap_bytes (t div 2) + 7"
      using bmp_extent_bytes [of "allocated_bmp ?pool"] layout_extent(1) [OF lay(1)] by simp
    ultimately have "unat fs \<le> unat x"
      using lay(1) by (intro offset_le [of fs "bitmap_bytes (t div 2) + 7"]) (auto simp: pool_layout_def)
    then show "m' x = pg_mem s x" by (rule assms(2))
  qed
  have "table_tree m' ?pool nodes (direct_leaves t)"
  proof (rule tree_frame [OF tree(1)])
    show "pool_ok m' ?pool" using pool_ok_bits [OF bits] facts(1) by blast
    show "taken m' ?pool i" if "i < pages ?pool" "taken (pg_mem s) ?pool i" for i using that bits by simp
    show "m' x = pg_mem s x" if "nodes p = Some (page_no ?pool x)" for p x
    proof -
      have "page_no ?pool x < pages ?pool" using facts(4) that by blast
      then have "unat (x - fs) < 4096 * pages ?pool" by (simp add: page_no_def lay(2) div_less_iff_less_mult mult.commute)
      then show ?thesis using offset_le [OF space] assms(2) by blast
    qed
  qed
  then show ?thesis using assms(1) tree(2) by (auto simp: direct_loaded_def page_tables_def)
qed

text \<open>A memory in which the new tables reach the kernel, the bitmaps behind it and the first page of the heap.\<close>

definition direct_room :: "addr \<Rightarrow> u64 \<Rightarrow> bool" where
  "direct_room kernel_end phys_end \<longleftrightarrow>
     memory_room kernel_end phys_end \<and> KERNEL_START \<le> kernel_end \<and>
     (let t = unat (total_pages kernel_end phys_end)
      in unat (ROUND_UP_TO kernel_end 4096) + 4096 * (table_limit t + 1) \<le> 2 ^ 64 - 2 ^ 31 + 4096 * t)"

section \<open>Bringing up the kernel\<close>

lemma timer_registered:
  assumes "pic_ready (ipic i)" "master_pic_offset (ipic i) = 32" "\<not> i_active i"
    "reads_back dev MASTER_PIC_DATA" "pic_mask MASTER_PIC_DATA (ipic i) = Some 0xFF"
  shows "\<exists>p. pit_init dev h 100 i = Inr (i\<lparr>isr_handlers := (isr_handlers i)[0 := h], ipic := p\<rparr>) \<and> pic_ready p \<and>
    master_pic_offset p = 32 \<and> pic_mask MASTER_PIC_DATA p = Some 0xFE \<and> pic_mask SLAVE_PIC_DATA p = pic_mask SLAVE_PIC_DATA (ipic i)"
proof -
  have so: "unat (slave_pic_offset (ipic i)) = 40" using assms(1,2) by (simp add: pic_ready_def)
  have ok: "pic_vector_ok 0x20 (ipic i)" using so assms(2) by (simp add: pic_vector_ok_def word_le_nat_alt)
  have port: "vector_port 0x20 (ipic i) = MASTER_PIC_DATA" "vector_bit 0x20 (ipic i) = 0"
    using so assms(2) by (simp_all add: vector_port_def vector_bit_def word_le_nat_alt)
  have "reads_back dev (vector_port 0x20 (ipic i))" "pic_mask (vector_port 0x20 (ipic i)) (ipic i) = Some 0xFF"
    using assms(4,5) port by simp_all
  note upd = mask_update(1) [OF assms(1) ok this]
  obtain p where p: "pic_clear_mask dev 0x20 (ipic i) = Inr p" "pic_mask MASTER_PIC_DATA p = Some 0xFE"
    "pic_mask SLAVE_PIC_DATA p = pic_mask SLAVE_PIC_DATA (ipic i)"
    "master_pic_offset p = master_pic_offset (ipic i)" "slave_pic_offset p = slave_pic_offset (ipic i)"
    using upd [of MASTER_PIC_DATA] upd [of SLAVE_PIC_DATA] port by auto
  then show ?thesis using assms(1-3)
    by (auto simp: pit_init_def interrupts_active_def interrupts_register_handler_def on_pic_def Let_def
        intr_out_def pic_out_def pic_mask_def pic_ready_def)
qed

text \<open>The interrupts as \<^verbatim>\<open>paging_init\<close> finds and leaves them.\<close>

definition intr_before :: "kernel_env \<Rightarrow> intr \<Rightarrow> intr" where
  "intr_before env i =
     (let i = interrupts_disable i;
          i = i\<lparr>ipic := (ipic i)\<lparr>pic_io := snd (serial_init (ports env) COM1 (pic_io (ipic i)))\<rparr>\<rparr>
      in interrupts_init (exc_stub env) (isr_stub env) (idt_symbol env) i)"

definition intr_paged :: "kernel_env \<Rightarrow> intr \<Rightarrow> intr" where
  "intr_paged env i = (intr_before env i)\<lparr>exc_handlers := (exc_handlers (intr_before env i))[14 := page_fault_symbol env]\<rparr>"

lemma intr_paged_fields:
  "exc_handlers (intr_paged env i) = (exc_handlers i)[14 := page_fault_symbol env]"
  "isr_handlers (intr_paged env i) = isr_handlers i" "\<not> i_active (intr_paged env i)" "pic_ready (ipic (intr_paged env i))"
  "master_pic_offset (ipic (intr_paged env i)) = 32" "pic_mask MASTER_PIC_DATA (ipic (intr_paged env i)) = Some 0xFF"
  by (simp_all add: intr_paged_def intr_before_def Let_def interrupts_init_fields interrupts_disable_def pic_init_result pic_ready_def)

text \<open>What is left of \<^verbatim>\<open>kernel_main\<close> once the tables are loaded.\<close>

definition under_tables :: "kernel_env \<Rightarrow> kernel \<Rightarrow> paging \<Rightarrow> intr \<Rightarrow> kernel outcome" where
  "under_tables env k pg i =
     touch pg KERNEL_START (unat (kernel_end_symbol env - KERNEL_START))
    (touch pg (bmp_buf (allocated_bmp (kernel_pool pg))) (bmp_extent (allocated_bmp (kernel_pool pg)))
    (bindR (paging_get_pages 10 0 pg) (\<lambda>(heap, pg).
     touch pg heap 12
    (bindR (wdmalloc_init heap 40960 ((k_heap k)\<lparr>wmem := pg_mem pg\<rparr>)) (\<lambda>w.
     bindR (pit_init (ports env) (timer_symbol env) 100 i) (\<lambda>i.
     Inr \<lparr>k_intr = interrupts_enable i, k_paging = pg\<lparr>pg_mem := wmem w\<rparr>, k_heap = w, k_term = term_clear (k_term k)\<rparr>))))))"

lemma kernel_init_eq:
  "kernel_init env k = ASSERT (mboot_magic env = MULTIBOOT2_BOOTLOADER_MAGIC)
     (bindR (paging_init (ports env) (mboot_tags env) (kernel_end_symbol env) (page_fault_symbol env) (k_paging k)
        (intr_before env (k_intr k))) (\<lambda>(pg, i). under_tables env k pg i))"
  by (simp add: kernel_init_def Let_def intr_before_def under_tables_def)

lemma kernel_init_paged:
  assumes "mboot_magic env = MULTIBOOT2_BOOTLOADER_MAGIC" "memory_map_init (mboot_tags env) (k_paging k) = Inr s1"
    "memory_room (kernel_end_symbol env) (phys_mem_end_paddr s1)" "entries_apart (kernel_end_symbol env) s1"
  defines "t \<equiv> unat (total_pages (kernel_end_symbol env) (phys_mem_end_paddr s1))"
  shows "\<exists>s2 nodes. kernel_init env k = under_tables env k s2 (intr_paged env (k_intr k)) \<and>
    paging_built (ROUND_UP_TO (kernel_end_symbol env) 4096) t (pg_mem (k_paging k)) s2 nodes \<and> t \<le> 2 ^ 19"
proof -
  obtain s2 nodes where s2: "paging_init (ports env) (mboot_tags env) (kernel_end_symbol env) (page_fault_symbol env)
      (k_paging k) (intr_before env (k_intr k)) = Inr (s2, intr_paged env (k_intr k))"
    "paging_built (ROUND_UP_TO (kernel_end_symbol env) 4096) t (pg_mem (k_paging k)) s2 nodes" "t \<le> 2 ^ 19"
    using paging_init_result [OF assms(2-4), of "ports env" "page_fault_symbol env" "intr_before env (k_intr k)", folded intr_paged_def t_def]
    by blast
  have "kernel_init env k = under_tables env k s2 (intr_paged env (k_intr k))"
    using s2(1) assms(1) by (simp add: kernel_init_eq)
  then show ?thesis using s2(2,3) by blast
qed

lemma kernel_unmapped:
  assumes "paging_built fs t m s2 nodes" "2 ^ 64 - 2 ^ 31 + 4096 * t < unat (kernel_end_symbol env)"
    "unat KERNEL_START < unat (kernel_end_symbol env)"
  shows "under_tables env k s2 i = Inl Bad_pointer"
proof -
  have "\<not> mapped s2 KERNEL_START (unat (kernel_end_symbol env - KERNEL_START))"
    using assms by (intro direct_unmapped [of s2 nodes t]) (simp_all add: paging_built_def)
  then show ?thesis by (simp add: under_tables_def touch_def)
qed

lemma image_mapped:
  assumes "direct_loaded (ROUND_UP_TO kernel_end 4096) (unat (total_pages kernel_end phys_end)) s" "direct_room kernel_end phys_end"
  shows "mapped s KERNEL_START (unat (kernel_end - KERNEL_START))"
proof -
  have room: "memory_room kernel_end phys_end" "unat KERNEL_START \<le> unat kernel_end"
    using assms(2) by (simp_all add: direct_room_def word_le_nat_alt)
  have "unat (kernel_end - KERNEL_START) = unat kernel_end - unat KERNEL_START"
    using room(2) unat_sub [of KERNEL_START kernel_end] by (simp add: word_le_nat_alt)
  moreover have "unat kernel_end \<le> 2 ^ 64 - 2 ^ 31 + 4096 * unat (total_pages kernel_end phys_end)"
    using assms(2) room_facts(6) [OF room(1)] by (simp add: direct_room_def Let_def)
  ultimately show ?thesis using room(2) assms(1) by (auto simp: direct_loaded_def intro!: direct_mapped)
qed

lemma room_mapped:
  assumes "paging_built (ROUND_UP_TO kernel_end 4096) t m s2 nodes" "direct_room kernel_end phys_end"
    "t = unat (total_pages kernel_end phys_end)"
  shows "mapped s2 KERNEL_START (unat (kernel_end - KERNEL_START))"
    "mapped s2 (bmp_buf (allocated_bmp (kernel_pool s2))) (bmp_extent (allocated_bmp (kernel_pool s2)))"
    "page_tables s' nodes (direct_leaves t) \<Longrightarrow> cr3 s' = cr3 s2 \<Longrightarrow> init_pml4 s' = init_pml4 s2 \<Longrightarrow> c \<le> table_limit t \<Longrightarrow>
      mapped s' (page_at (kernel_pool s2) c) 12"
proof -
  define fs where "fs = ROUND_UP_TO kernel_end 4096"
  have room: "memory_room kernel_end phys_end"
    "unat fs + 4096 * (table_limit t + 1) \<le> 2 ^ 64 - 2 ^ 31 + 4096 * t"
    using assms(2,3) by (simp_all add: direct_room_def Let_def fs_def word_le_nat_alt)
  note facts = room_facts [OF room(1), folded assms(3) fs_def]
  have built: "page_tables s2 nodes (direct_leaves t)" "cr3 s2 = k_vtop (init_pml4 s2)" "t \<le> 2 ^ 19"
    "pool_layout (kernel_pool s2) fs (t div 2)" "page_base (kernel_pool s2) = fs"
    using assms(1) facts(5) by (simp_all add: paging_built_def pools_placed_def fs_def)
  note map = direct_mapped [OF _ _ built(3)]
  have "direct_loaded fs t s2" using built by (auto simp: direct_loaded_def)
  then show "mapped s2 KERNEL_START (unat (kernel_end - KERNEL_START))"
    using image_mapped assms(2,3) by (simp add: fs_def)
  have "4096 * meta_pages (t div 2) \<le> 4096 * table_limit t" by (simp add: table_limit_def)
  then show "mapped s2 (bmp_buf (allocated_bmp (kernel_pool s2))) (bmp_extent (allocated_bmp (kernel_pool s2)))"
    using layout_extent(2) [OF built(4)] room(2) facts(2) built(4)
    by (intro map [OF built(1,2)]) (simp_all add: pool_layout_def)
  assume s': "page_tables s' nodes (direct_leaves t)" "cr3 s' = cr3 s2" "init_pml4 s' = init_pml4 s2" and c: "c \<le> table_limit t"
  have off: "unat (of_nat (4096 * c) :: u64) = 4096 * c" using room(2) c facts(5) by (intro unat_of_nat_u64) simp
  then have "unat (fs + of_nat (4096 * c)) = unat fs + 4096 * c"
    using room(2) c facts(5) by (simp add: unat_word_ariths)
  then have "unat (page_at (kernel_pool s2) c) = unat fs + 4096 * c" by (simp add: page_at_def built(5))
  then show "mapped s' (page_at (kernel_pool s2) c) 12"
    using s'(2,3) built(2) room(2) facts(2) c by (intro map [OF s'(1)]) simp_all
qed

lemma kernel_init_result:
  assumes "mboot_magic env = MULTIBOOT2_BOOTLOADER_MAGIC" "memory_map_init (mboot_tags env) (k_paging k) = Inr s1"
    "direct_room (kernel_end_symbol env) (phys_mem_end_paddr s1)" "entries_apart (kernel_end_symbol env) s1"
    "length (exc_handlers (k_intr k)) = 32" "length (isr_handlers (k_intr k)) = 16"
    "reads_back (ports env) MASTER_PIC_DATA"
  shows "\<exists>k'. kernel_init env k = Inr k' \<and> cpu_if (k_intr k') \<and>
    pic_mask MASTER_PIC_DATA (ipic (k_intr k')) = Some 0xFE \<and>
    isr_handlers (k_intr k') ! 0 = timer_symbol env \<and> exc_handlers (k_intr k') ! 14 = page_fault_symbol env \<and>
    direct_loaded (ROUND_UP_TO (kernel_end_symbol env) 4096) (unat (total_pages (kernel_end_symbol env) (phys_mem_end_paddr s1))) (k_paging k') \<and>
    (\<forall>n. wdmalloc n (k_heap k') = Inr (NULL, k_heap k'))"
proof -
  let ?t = "unat (total_pages (kernel_end_symbol env) (phys_mem_end_paddr s1))" and ?i = "intr_paged env (k_intr k)"
  have room: "memory_room (kernel_end_symbol env) (phys_mem_end_paddr s1)" using assms(3) by (simp add: direct_room_def)
  obtain s2 nodes where s2: "kernel_init env k = under_tables env k s2 ?i"
    "paging_built (ROUND_UP_TO (kernel_end_symbol env) 4096) ?t (pg_mem (k_paging k)) s2 nodes" "?t \<le> 2 ^ 19"
    using kernel_init_paged [OF assms(1,2) room assms(4)] by blast
  have built: "page_tables s2 nodes (direct_leaves ?t)" "cr3 s2 = k_vtop (init_pml4 s2)"
    "pool_layout (kernel_pool s2) (ROUND_UP_TO (kernel_end_symbol env) 4096) (?t div 2)"
    "\<forall>j. table_limit ?t \<le> j \<and> j < 8 * (?t div 2 div 8) \<longrightarrow> \<not> taken (pg_mem s2) (kernel_pool s2) j"
    using s2(2) by (simp_all add: paging_built_def pools_placed_def)
  have fits: "table_limit ?t + 10 \<le> 8 * (?t div 2 div 8)" using tables_fit [OF room_facts(4,5) [OF room]] .
  moreover have "8 * (?t div 2 div 8) \<le> pages (kernel_pool s2)" using layout_extent(1) [OF built(3)] by simp
  ultimately have enough: "table_limit ?t + 10 \<le> pages (kernel_pool s2)" by (rule order_trans)
  have free: "\<not> taken (pg_mem s2) (kernel_pool s2) j" if "table_limit ?t \<le> j" "j < table_limit ?t + 10" for j
    using built(4) that fits by auto
  obtain c m where heap: "paging_get_pages 10 0 s2 = Inr (page_at (kernel_pool s2) c, s2\<lparr>pg_mem := m\<rparr>)" "c \<le> table_limit ?t"
    "page_tables (s2\<lparr>pg_mem := m\<rparr>) nodes (direct_leaves ?t)"
    "\<forall>w w' sz. wmem w = m \<and> wdmalloc_init (page_at (kernel_pool s2) c) sz w = Inr w' \<longrightarrow>
      page_tables (s2\<lparr>pg_mem := wmem w'\<rparr>) nodes (direct_leaves ?t)"
    using heap_keeps_tables [OF built(1) enough free] by blast
  let ?heap = "page_at (kernel_pool s2) c"
  note maps = room_mapped [OF s2(2) assms(3) refl]
  have header: "mapped (s2\<lparr>pg_mem := m\<rparr>) ?heap 12" using maps(3) [OF heap(3) _ _ heap(2)] by simp
  obtain w where w: "wdmalloc_init ?heap 40960 ((k_heap k)\<lparr>wmem := m\<rparr>) = Inr w" "\<forall>n. wdmalloc n w = Inr (NULL, w)"
    using large_region_never_serves [of 40960 ?heap "(k_heap k)\<lparr>wmem := m\<rparr>"] by auto
  obtain i4 where i4: "pit_init (ports env) (timer_symbol env) 100 ?i = Inr i4" "isr_handlers i4 ! 0 = timer_symbol env"
    "exc_handlers i4 = exc_handlers ?i" "pic_mask MASTER_PIC_DATA (ipic i4) = Some 0xFE"
    using timer_registered [of ?i "ports env" "timer_symbol env"] intr_paged_fields [of env "k_intr k"] assms(6,7) by fastforce
  have "kernel_init env k = Inr \<lparr>k_intr = interrupts_enable i4, k_paging = s2\<lparr>pg_mem := wmem w\<rparr>, k_heap = w,
      k_term = term_clear (k_term k)\<rparr>"
    using s2(1) maps(1,2) header heap(1) w(1) i4(1) by (simp add: under_tables_def touch_def)
  moreover have "page_tables (s2\<lparr>pg_mem := wmem w\<rparr>) nodes (direct_leaves ?t)" using heap(4) w(1) by force
  then have "direct_loaded (ROUND_UP_TO (kernel_end_symbol env) 4096) ?t (s2\<lparr>pg_mem := wmem w\<rparr>)"
    using built(2,3) s2(2,3) by (auto simp: direct_loaded_def paging_built_def pools_placed_def)
  ultimately show ?thesis using w(2) i4(2-4) intr_paged_fields(1) [of env "k_intr k"] assms(5) by (simp add: interrupts_enable_def)
qed

section \<open>Properties\<close>


text \<open>The kernel of the sample machine.\<close>

definition sample_env :: kernel_env where
  "sample_env = \<lparr>mboot_magic = 0x36D76289, mboot_tags = 0x1000, exc_stub = (\<lambda>i. 0), isr_stub = (\<lambda>i. 0),
     idt_symbol = 0xFFFFFFFF80180000, kernel_end_symbol = sample_end, page_fault_symbol = 0x2000,
     timer_symbol = 0x3000, ports = ready_uart\<rparr>"

definition sample_kernel :: kernel where
  "sample_kernel = \<lparr>k_intr = cold_intr, k_paging = cold_paging sample_ram, k_heap = bare_heap, k_term = out_term fresh_out\<rparr>"

lemma sample_boot:
  "\<exists>s1. mboot_magic sample_env = MULTIBOOT2_BOOTLOADER_MAGIC \<and>
     memory_map_init (mboot_tags sample_env) (k_paging sample_kernel) = Inr s1 \<and>
     direct_room (kernel_end_symbol sample_env) (phys_mem_end_paddr s1) \<and> entries_apart (kernel_end_symbol sample_env) s1 \<and>
     length (exc_handlers (k_intr sample_kernel)) = 32 \<and> length (isr_handlers (k_intr sample_kernel)) = 16 \<and>
     reads_back (ports sample_env) MASTER_PIC_DATA \<and> uart_live (ports sample_env)"
proof -
  obtain s1 where s1: "memory_map_init 0x1000 (cold_paging sample_ram) = Inr s1" "phys_mem_end_paddr s1 = 0x800000"
    "entries_apart sample_end s1" using sample_ram_map by blast
  have "direct_room sample_end (phys_mem_end_paddr s1)"
    by (simp add: direct_room_def memory_room_def s1(2) total_pages_def ROUND_UP_TO_def k_ptov_def table_limit_def meta_pages_def bitmap_bytes_def)
  then show ?thesis using s1 ready_uart_facts by (auto simp: sample_env_def sample_kernel_def cold_intr_def)
qed

text \<open>The same machine with its memory ending at 0x320000, behind the kernel but not twice as far.\<close>

definition small_ram :: memory where
  "small_ram = (\<lambda>_. 0)(0x1008 := 6, 0x100C := 64, 0x1010 := 24, 0x1022 := 0x32, 0x1028 := 1)"

definition small_kernel :: kernel where
  "small_kernel = sample_kernel\<lparr>k_paging := cold_paging small_ram\<rparr>"


text \<open>C40: the first line of the greeting is already undefined: its \<^verbatim>\<open>%x\<close> reads 64 bits where the call
  passes an \<^verbatim>\<open>int\<close>, so \<^verbatim>\<open>kernel_main\<close> has no defined behaviour once the kernel is up and the serial
  port works.\<close>

theorem kernel_main_greeting_undefined:
  assumes "kernel_init env k = Inr k'" "uart_live (ports env)"
  shows "kernel_main env k = Inl Wrong_vararg"
proof -
  let ?str = "map of_char (''Hello World! %s %d %x'' @ [LF, CR]) :: u8 list"
  let ?args = "[Vstr (map of_char ''abc''), Vint (of_nat 0), Vint (of_nat 0)]"
  have "snd (render ?str ?args) = Some Wrong_vararg"
    by (simp add: directive_def int_text_def split: prod.split)
  moreover have "length ?str < 0xFFFFFFFF" by simp
  ultimately have "hello_line env 0 k' = Inl Wrong_vararg"
    using emit_live [OF assms(2), of "fst (render ?str ?args)" "\<lparr>out_term = k_term k', out_io = pic_io (ipic (k_intr k'))\<rparr>"]
    unfolding hello_line_def printf_def vprintf_to_device_def by (auto simp only: vprintf_with_render send_def bindR_simps option.case)
  then show ?thesis using assms(1) by (simp add: kernel_main_def upt_conv_Cons)
qed

theorem kernel_main_greeting_undefined_witness:
  "kernel_main sample_env sample_kernel = Inl Wrong_vararg"
proof -
  obtain k' where "kernel_init sample_env sample_kernel = Inr k'"
    using sample_boot kernel_init_result [of sample_env sample_kernel] by metis
  moreover have "uart_live (ports sample_env)" using sample_boot by blast
  ultimately show ?thesis by (rule kernel_main_greeting_undefined)
qed

end
