(* ===== verification/Stubs.thy ===== *)
theory Stubs
  imports Interrupts
begin

text \<open>
  The entry and exit of interrupts and exceptions (\<^verbatim>\<open>src/kernel/drivers/interrupt_stubs.S\<close>): the registers
  the stubs push and pop around the dispatchers, and the frame the dispatchers and handlers are given. What
  the processor pushes before a stub runs, and what \<^verbatim>\<open>iretq\<close> takes back, is the specification of long mode:
  the stack is aligned to 16 bytes and gets SS, RSP, RFLAGS, CS, RIP and the error code of the vectors that
  have one.
\<close>

section \<open>Definitions\<close>

record cpu =
  c_rax :: u64
  c_rbx :: u64
  c_rcx :: u64
  c_rdx :: u64
  c_rbp :: u64
  c_rsi :: u64
  c_rdi :: u64
  c_r8 :: u64
  c_r9 :: u64
  c_r10 :: u64
  c_r11 :: u64
  c_r12 :: u64
  c_r13 :: u64
  c_r14 :: u64
  c_r15 :: u64
  c_rip :: u64
  c_cs :: u64
  c_rflags :: u64
  c_rsp :: u64
  c_ss :: u64

text \<open>The stack: its pointer and the memory it lies in.\<close>

type_synonym stack = "addr \<times> memory"

definition pushq :: "u64 \<Rightarrow> stack \<Rightarrow> stack" where
  "pushq v st = (fst st - 8, store64 (snd st) (fst st - 8) v)"

text \<open>What the processor pushes; a vector without error code has none.\<close>

definition cpu_deliver :: "u64 list \<Rightarrow> cpu \<Rightarrow> memory \<Rightarrow> stack" where
  "cpu_deliver error_code c m =
     fold pushq ([c_ss c, c_rsp c, c_rflags c, c_cs c, c_rip c] @ error_code) (c_rsp c AND NOT 15, m)"

definition push_registers :: "cpu \<Rightarrow> stack \<Rightarrow> stack" where
  "push_registers c st =
     fold pushq [c_rax c, c_rbx c, c_rcx c, c_rdx c, c_rbp c, c_rsi c, c_rdi c, c_r8 c, c_r9 c, c_r10 c,
       c_r11 c, c_r12 c, c_r13 c, c_r14 c, c_r15 c] st"

text \<open>The fifteen \<^verbatim>\<open>popq\<close> and the \<^verbatim>\<open>iretq\<close> behind them.\<close>

definition pop_registers :: "stack \<Rightarrow> cpu" where
  "pop_registers st =
     (let sp = fst st; m = snd st in
      \<lparr>c_rax = load64 m (sp + 112), c_rbx = load64 m (sp + 104), c_rcx = load64 m (sp + 96), c_rdx = load64 m (sp + 88),
       c_rbp = load64 m (sp + 80), c_rsi = load64 m (sp + 72), c_rdi = load64 m (sp + 64), c_r8 = load64 m (sp + 56),
       c_r9 = load64 m (sp + 48), c_r10 = load64 m (sp + 40), c_r11 = load64 m (sp + 32), c_r12 = load64 m (sp + 24),
       c_r13 = load64 m (sp + 16), c_r14 = load64 m (sp + 8), c_r15 = load64 m sp,
       c_rip = load64 m (sp + 120), c_cs = load64 m (sp + 128), c_rflags = load64 m (sp + 136),
       c_rsp = load64 m (sp + 144), c_ss = load64 m (sp + 152)\<rparr>)"

text \<open>
  A dispatcher is called: \<^verbatim>\<open>call\<close> pushes the return address, and the compiled C code keeps its locals and
  saved registers below it. What the compiler does with that part of the stack is not in the sources: it is
  the parameter \<open>c_stack\<close>, the memory left behind by a call entered with the given registers and stack.
\<close>

record compiled =
  return_address :: addr
  c_stack :: "cpu \<Rightarrow> stack \<Rightarrow> memory"

definition after_call :: "compiled \<Rightarrow> cpu \<Rightarrow> stack \<Rightarrow> stack" where
  "after_call cc c st = (fst st, c_stack cc c (pushq (return_address cc) st))"

definition ISR_STUB ::
  "device \<Rightarrow> (addr \<Rightarrow> addr \<Rightarrow> intr \<Rightarrow> intr outcome) \<Rightarrow> compiled \<Rightarrow> u64 \<Rightarrow> cpu \<Rightarrow> stack \<Rightarrow> intr \<Rightarrow> (cpu \<times> memory \<times> intr) outcome" where
  "ISR_STUB dev call cc irq_num c st s =
     (let st = push_registers c st
      in bindR (interrupt_handler dev call (fst st) irq_num s) (\<lambda>s.
         let st = after_call cc c st in Inr (pop_registers st, snd st, s)))"

text \<open>The vectors whose stub expects an error code, and the stub up to the call.\<close>

definition has_error_code :: "nat \<Rightarrow> bool" where
  "has_error_code vector \<longleftrightarrow> vector \<in> set [8, 10, 11, 12, 13, 14, 17]"

definition exc_stub_enter :: "nat \<Rightarrow> cpu \<Rightarrow> stack \<Rightarrow> stack" where
  "exc_stub_enter vector c st =
     (let st = push_registers c st in if has_error_code vector then st else pushq 0 st)"

definition EXC_STUB ::
  "device \<Rightarrow> (addr \<Rightarrow> addr \<Rightarrow> intr \<Rightarrow> intr outcome) \<Rightarrow> compiled \<Rightarrow> nat \<Rightarrow> cpu \<Rightarrow> stack \<Rightarrow> intr \<Rightarrow> (cpu \<times> memory \<times> intr) outcome" where
  "EXC_STUB dev call cc vector c st s =
     (let st = exc_stub_enter vector c st
      in bindR (exception_handler dev (snd (pushq (return_address cc) st)) call (fst st) (of_nat vector) s) (\<lambda>s.
         let st = after_call cc c st;
             st = (if has_error_code vector then st else (fst st + 8, snd st))
         in Inr (pop_registers st, snd st, s)))"

section \<open>The words on the stack\<close>

definition words_at :: "memory \<Rightarrow> addr \<Rightarrow> nat \<Rightarrow> u64 list" where
  "words_at m a n = map (\<lambda>i. load64 m (a + of_nat (8 * i))) [0..<n]"

lemma words_at_Suc: "words_at m a (Suc n) = load64 m a # words_at m (a + 8) n"
  by (simp add: words_at_def upt_conv_Cons map_Suc_upt [symmetric] add.assoc del: upt_Suc)

lemma words_at_below:
  assumes "8 * Suc n < 2 ^ 64"
  shows "words_at (store64 m (a - 8) v) a n = words_at m a n"
proof -
  have "load64 (store64 m (a - 8) v) (a + of_nat (8 * i)) = load64 m (a + of_nat (8 * i))" if "i < n" for i
    using load_store_offsets [of 0 8 "8 * Suc i" 8 m "a - 8" v] that assms
    by (simp add: load64_def store64_def algebra_simps)
  then show ?thesis by (simp add: words_at_def)
qed

lemma pushes:
  assumes "8 * length vs < 2 ^ 64"
  shows "fst (fold pushq vs (sp, m)) = sp - of_nat (8 * length vs)"
    "words_at (snd (fold pushq vs (sp, m))) (sp - of_nat (8 * length vs)) (length vs) = rev vs"
    "\<not> unat (x - (sp - of_nat (8 * length vs))) < 8 * length vs \<Longrightarrow> snd (fold pushq vs (sp, m)) x = m x"
proof -
  have "fst (fold pushq vs (sp, m)) = sp - of_nat (8 * length vs) \<and>
    words_at (snd (fold pushq vs (sp, m))) (sp - of_nat (8 * length vs)) (length vs) = rev vs \<and>
    (\<not> unat (x - (sp - of_nat (8 * length vs))) < 8 * length vs \<longrightarrow> snd (fold pushq vs (sp, m)) x = m x)"
    using assms
  proof (induction vs rule: rev_induct)
    case Nil
    then show ?case by (simp add: words_at_def)
  next
    case (snoc v vs)
    define a m1 where "a = sp - of_nat (8 * length vs)" and "m1 = snd (fold pushq vs (sp, m))"
    have IH: "fst (fold pushq vs (sp, m)) = a" "words_at m1 a (length vs) = rev vs"
      "\<not> unat (x - a) < 8 * length vs \<longrightarrow> m1 x = m x"
      using snoc by (simp_all add: a_def m1_def)
    have push: "fold pushq (vs @ [v]) (sp, m) = (a - 8, store64 m1 (a - 8) v)" by (simp add: pushq_def IH(1) m1_def)
    have sp: "sp - of_nat (8 * Suc (length vs)) = a - 8" by (simp add: a_def algebra_simps)
    have len: "length (vs @ [v]) = Suc (length vs)" "8 * Suc (length vs) < 2 ^ 64" using snoc.prems by simp_all
    have "load64 (store64 m1 (a - 8) v) (a - 8) = v" unfolding load64_def store64_def by (rule load_store_same) simp_all
    moreover have "words_at (store64 m1 (a - 8) v) a (length vs) = rev vs" using words_at_below [OF len(2)] IH(2) by simp
    ultimately have "words_at (store64 m1 (a - 8) v) (a - 8) (Suc (length vs)) = rev (vs @ [v])" by (simp add: words_at_Suc)
    moreover have "store64 m1 (a - 8) v x = m x" if "\<not> unat (x - (a - 8)) < 8 * Suc (length vs)"
    proof -
      have "store64 m1 (a - 8) v x = m1 x"
        unfolding store64_def using that by (intro store_le_outside) simp_all
      moreover have "\<not> unat (x - (a - 8 + of_nat 8)) < 8 * length vs"
        using that len(2) by (intro bytes_after) simp_all
      ultimately show ?thesis using IH(3) by simp
    qed
    ultimately show ?case unfolding push len(1) sp by simp
  qed
  then show "fst (fold pushq vs (sp, m)) = sp - of_nat (8 * length vs)"
    "words_at (snd (fold pushq vs (sp, m))) (sp - of_nat (8 * length vs)) (length vs) = rev vs"
    "\<not> unat (x - (sp - of_nat (8 * length vs))) < 8 * length vs \<Longrightarrow> snd (fold pushq vs (sp, m)) x = m x"
    by blast+
qed

text \<open>The convention C code keeps to: it writes only the \<open>d\<close> bytes below the stack pointer it is entered with.\<close>

definition stack_use :: "nat \<Rightarrow> compiled \<Rightarrow> bool" where
  "stack_use d cc \<longleftrightarrow> d < 2 ^ 32 \<and>
     (\<forall>c st x. \<not> unat (x - (fst st - of_nat d)) < d \<longrightarrow> c_stack cc c st x = snd st x)"

text \<open>A call leaves what lies above its return address, and what lies below its deepest local, as it was.\<close>

lemma after_call_outside:
  assumes "stack_use d cc" "\<not> unat (x - (fst st - of_nat (8 + d))) < 8 + d"
  shows "snd (after_call cc c st) x = snd st x"
proof -
  have d: "d < 2 ^ 32" using assms(1) by (simp add: stack_use_def)
  define b where "b = fst st - of_nat (8 + d)"
  have b: "fst st - 8 = b + of_nat d" by (simp add: b_def)
  then have "fst st - 8 - of_nat d = b" by simp
  then have "\<not> unat (x - (fst st - 8 - of_nat d)) < d" "\<not> unat (x - (fst st - 8)) < 8"
    using assms(2) d bytes_after [where x = x and ?b0.0 = b and j = d and k = 8] unfolding b b_def [symmetric] by auto
  then show ?thesis
    using assms(1) store_le_outside [where x = x and a = "fst st - 8" and n = 8 and m = "snd st" and v = "return_address cc"]
    by (simp add: after_call_def stack_use_def pushq_def store64_def)
qed

lemma words_at_cong:
  assumes "\<And>x. unat (x - a) < 8 * n \<Longrightarrow> m' x = m x" "8 * n < 2 ^ 64"
  shows "words_at m' a n = words_at m a n"
proof -
  have "load64 m' (a + of_nat (8 * i)) = load64 m (a + of_nat (8 * i))" if "i < n" for i
    unfolding load64_def
  proof (rule load_le_cong)
    fix j assume j: "j < (8 :: nat)"
    have "unat (of_nat (8 * i + j) :: addr) = 8 * i + j" using that j assms(2) by (intro unat_of_nat_u64) simp
    then have "unat (a + of_nat (8 * i) + of_nat j - a) < 8 * n" using that j by simp
    then show "m' (a + of_nat (8 * i) + of_nat j) = m (a + of_nat (8 * i) + of_nat j)" by (rule assms(1))
  qed
  then show ?thesis by (simp add: words_at_def)
qed

text \<open>Nothing of the interrupted program is lost: the registers come back and only the stack below it is written.\<close>

lemma isr_stub_round_trip:
  assumes "st = push_registers c (cpu_deliver [] c m)" "stack_use d cc"
  shows "pop_registers (after_call cc c st) = c"
    "\<not> unat (x - ((c_rsp c AND NOT 15) - of_nat (168 + d))) < 168 + d \<Longrightarrow> snd (after_call cc c st) x = m x"
proof -
  let ?vs = "[c_ss c, c_rsp c, c_rflags c, c_cs c, c_rip c, c_rax c, c_rbx c, c_rcx c, c_rdx c, c_rbp c, c_rsi c, c_rdi c,
    c_r8 c, c_r9 c, c_r10 c, c_r11 c, c_r12 c, c_r13 c, c_r14 c, c_r15 c]"
  define sp where "sp = (c_rsp c AND NOT 15) - 160"
  have st: "st = fold pushq ?vs (c_rsp c AND NOT 15, m)" by (simp add: assms(1) push_registers_def cpu_deliver_def)
  have len: "8 * length ?vs < 2 ^ 64" "of_nat (8 * length ?vs) = (160 :: u64)" "8 * length ?vs = 160" "length ?vs = 20" by simp_all
  note p = pushes [OF len(1), where sp = "c_rsp c AND NOT 15" and m = m, folded st, unfolded len(2-4), folded sp_def]
  have d: "d < 2 ^ 32" using assms(2) by (simp add: stack_use_def)
  have call: "snd (after_call cc c st) x = snd st x" if "\<not> unat (x - (sp - of_nat (8 + d))) < 8 + d" for x
  proof -
    have "fst st = sp" using p(1) by (simp add: sp_def)
    then show ?thesis using after_call_outside [OF assms(2), of x st c] that by metis
  qed
  have "words_at (snd (after_call cc c st)) sp 20 = words_at (snd st) sp 20"
  proof (rule words_at_cong)
    fix x :: addr assume x: "unat (x - sp) < 8 * 20"
    have off: "unat (of_nat (8 + d) :: addr) = 8 + d" using d by (intro unat_of_nat_u64) simp
    have "unat (x - (sp - of_nat (8 + d))) = unat (x - sp + of_nat (8 + d))" by (simp add: algebra_simps)
    also have "\<dots> = unat (x - sp) + (8 + d)" using x d off by (simp add: unat_word_ariths del: of_nat_add)
    finally show "snd (after_call cc c st) x = snd st x" by (intro call) simp
  qed simp
  then show "pop_registers (after_call cc c st) = c"
    using p(1,2) unfolding sp_def by (simp add: pop_registers_def Let_def words_at_def upt_conv_Cons after_call_def)
  show "snd (after_call cc c st) x = m x" if x: "\<not> unat (x - ((c_rsp c AND NOT 15) - of_nat (168 + d))) < 168 + d"
  proof -
    have sp2: "(c_rsp c AND NOT 15) - of_nat (168 + d) = sp - of_nat (8 + d)" by (simp add: sp_def)
    have "sp - of_nat (8 + d) + of_nat (8 + d) = sp" by simp
    then have "\<not> unat (x - (sp - of_nat (8 + d))) < 8 + d" "\<not> unat (x - sp) < 160"
      using x d bytes_after [where x = x and ?b0.0 = "sp - of_nat (8 + d)" and j = "8 + d" and k = 160] unfolding sp2 by auto
    then show ?thesis using call p(3) [of x] by (simp add: sp_def)
  qed
qed

section \<open>Properties\<close>

text \<open>
  The vectors for which the processor pushes an error code, and two ways to fill the frame: under the names of
  its fields but for RSI and RDI, and with every general register one field too high.
\<close>

definition cpu_error_code :: "nat \<Rightarrow> bool" where
  "cpu_error_code vector \<longleftrightarrow> vector \<in> set [8, 10, 11, 12, 13, 14, 17, 21]"

definition named_frame :: "cpu \<Rightarrow> u64 \<Rightarrow> interrupt_frame_t" where
  "named_frame c e =
     \<lparr>f_r15 = c_r15 c, f_r14 = c_r14 c, f_r13 = c_r13 c, f_r12 = c_r12 c, f_r11 = c_r11 c, f_r10 = c_r10 c,
      f_r9 = c_r9 c, f_r8 = c_r8 c, f_rsi = c_rdi c, f_rdi = c_rsi c, f_rbp = c_rbp c, f_rdx = c_rdx c,
      f_rcx = c_rcx c, f_rbx = c_rbx c, f_rax = c_rax c, f_error_code = e, f_rip = c_rip c, f_cs = c_cs c,
      f_rflags = c_rflags c, f_rsp = c_rsp c, f_ss = c_ss c\<rparr>"

definition shifted_frame :: "cpu \<Rightarrow> interrupt_frame_t" where
  "shifted_frame c =
     \<lparr>f_r15 = 0, f_r14 = c_r15 c, f_r13 = c_r14 c, f_r12 = c_r13 c, f_r11 = c_r12 c, f_r10 = c_r11 c,
      f_r9 = c_r10 c, f_r8 = c_r9 c, f_rsi = c_r8 c, f_rdi = c_rdi c, f_rbp = c_rsi c, f_rdx = c_rbp c,
      f_rcx = c_rdx c, f_rbx = c_rcx c, f_rax = c_rbx c, f_error_code = c_rax c, f_rip = c_rip c, f_cs = c_cs c,
      f_rflags = c_rflags c, f_rsp = c_rsp c, f_ss = c_ss c\<rparr>"

text \<open>C31: what the exception dispatcher and its handlers find in the frame. For the seven vectors whose stub
  expects an error code the fields are what their names say, except that those of RSI and RDI are exchanged. For
  the others the stub pushes its dummy behind the registers instead of in front of them: every general register
  is found in the field of its neighbour and the error code is RAX; what the processor pushed is in place,
  except for vector 21, whose error code the stub does not expect and which is taken for RIP. RSP and SS are
  among what the processor pushed, whatever the privilege level it comes from: in long mode it pushes them
  always, where the comment at these fields in \<^verbatim>\<open>interrupts.h\<close> says only when the level changes.\<close>

theorem exception_frame_fields:
  "load_frame (snd (exc_stub_enter vector c (cpu_deliver (if cpu_error_code vector then [e] else []) c m)))
     (fst (exc_stub_enter vector c (cpu_deliver (if cpu_error_code vector then [e] else []) c m))) =
   (if vector \<in> {8, 10, 11, 12, 13, 14, 17} then named_frame c e
    else if vector = 21 then (shifted_frame c)\<lparr>f_rip := e, f_cs := c_rip c, f_rflags := c_cs c, f_rsp := c_rflags c, f_ss := c_rsp c\<rparr>
    else shifted_frame c)"
proof -
  let ?hw = "[c_ss c, c_rsp c, c_rflags c, c_cs c, c_rip c]" and ?regs = "[c_rax c, c_rbx c, c_rcx c, c_rdx c, c_rbp c, c_rsi c, c_rdi c,
    c_r8 c, c_r9 c, c_r10 c, c_r11 c, c_r12 c, c_r13 c, c_r14 c, c_r15 c]"
  define vs where "vs = ?hw @ (if cpu_error_code vector then [e] else []) @ ?regs @ (if has_error_code vector then [] else [0])"
  define st sp where "st = fold pushq vs (c_rsp c AND NOT 15, m)" and "sp = (c_rsp c AND NOT 15) - of_nat (8 * length vs)"
  have st: "exc_stub_enter vector c (cpu_deliver (if cpu_error_code vector then [e] else []) c m) = st"
    by (simp add: st_def vs_def exc_stub_enter_def push_registers_def cpu_deliver_def)
  have len: "8 * length vs < 2 ^ 64" by (simp add: vs_def)
  note p = pushes(1,2) [OF len, where sp = "c_rsp c AND NOT 15" and m = m, folded st_def, folded sp_def]
  consider "has_error_code vector" "cpu_error_code vector" "vector \<in> {8, 10, 11, 12, 13, 14, 17}"
    | "\<not> has_error_code vector" "cpu_error_code vector" "vector = 21"
    | "\<not> has_error_code vector" "\<not> cpu_error_code vector" "vector \<notin> {8, 10, 11, 12, 13, 14, 17, 21}"
    by (auto simp: has_error_code_def cpu_error_code_def)
  then show ?thesis unfolding st
    using p by cases (auto simp: load_frame_def words_at_def upt_conv_Cons vs_def named_frame_def shifted_frame_def)
qed

end
