(* ===== verification/Irq.thy ===== *)
theory Irq
  imports Kernel Stubs
begin

text \<open>
  The kernel after \<^verbatim>\<open>interrupts_enable\<close> as a state machine whose steps are hardware interrupts: the controller
  raises an open line, the processor enters the stub of its gate, \<^verbatim>\<open>interrupt_handler\<close> calls the handler and
  signals the end, the stub returns. The gate, the masks and the vector offsets are those the code has
  programmed; the processor's part is that of \<open>cpu_deliver\<close>.
\<close>

section \<open>Definitions\<close>

text \<open>A call through a handler pointer: the timer's is the only function registered for a line.\<close>

definition call_isr :: "kernel_env \<Rightarrow> addr \<Rightarrow> addr \<Rightarrow> intr \<Rightarrow> intr outcome" where
  "call_isr env handler frame s = (if handler = timer_symbol env then timer_interrupt frame s else Inl Bad_pointer)"

record running =
  r_cpu :: cpu
  r_kernel :: kernel

text \<open>A line gets through when its mask bit is clear, and for the second controller also the cascade's.\<close>

definition unmasked :: "u16 \<Rightarrow> nat \<Rightarrow> pic \<Rightarrow> bool" where
  "unmasked port l p = (case pic_mask port p of None \<Rightarrow> False | Some w \<Rightarrow> \<not> bit w l)"

definition line_open :: "pic \<Rightarrow> nat \<Rightarrow> bool" where
  "line_open p l \<longleftrightarrow>
     (if l < 8 then unmasked MASTER_PIC_DATA l p
      else l < 16 \<and> unmasked MASTER_PIC_DATA (unat SLAVE_PIC_CASCADE_IRQ) p \<and> unmasked SLAVE_PIC_DATA (l - 8) p)"

definition irq_vector :: "pic \<Rightarrow> nat \<Rightarrow> u8" where
  "irq_vector p l = (if l < 8 then master_pic_offset p + of_nat l else slave_pic_offset p + of_nat (l - 8))"

text \<open>The processor and the stub write their frame and the return address where the loaded tables map the stack.
  The compiled dispatchers, one per line, have the return address of the stub's call and the stack they use.\<close>

definition take_interrupt :: "kernel_env \<Rightarrow> (nat \<Rightarrow> compiled) \<Rightarrow> nat \<Rightarrow> running \<Rightarrow> running outcome" where
  "take_interrupt env cc l r =
     (let k = r_kernel r; i = k_intr k; v = irq_vector (ipic i) l in
      if gate (isr_stub env (unat v - 32)) 0x8E (idt i ! unat v)
      then touch (k_paging k) ((c_rsp (r_cpu r) AND NOT 15) - 168) 168
           (bindR (ISR_STUB (ports env) (call_isr env) (cc l) (ucast v) (r_cpu r) (cpu_deliver [] (r_cpu r) (pg_mem (k_paging k)))
                   (i\<lparr>cpu_if := False\<rparr>)) (\<lambda>(c, m, i).
             Inr \<lparr>r_cpu = c, r_kernel = k\<lparr>k_intr := i\<lparr>cpu_if := bit (c_rflags c) 9\<rparr>, k_paging := (k_paging k)\<lparr>pg_mem := m\<rparr>,
                    k_heap := (k_heap k)\<lparr>wmem := m\<rparr>\<rparr>\<rparr>))
      else Inl Bad_pointer)"

text \<open>Runs of \<open>n\<close> interrupts.\<close>

inductive kernel_run :: "kernel_env \<Rightarrow> (nat \<Rightarrow> compiled) \<Rightarrow> nat \<Rightarrow> running \<Rightarrow> running \<Rightarrow> bool" for env cc where
  idle: "kernel_run env cc 0 r r"
| irq: "kernel_run env cc n r r' \<Longrightarrow> cpu_if (k_intr (r_kernel r')) \<Longrightarrow> line_open (ipic (k_intr (r_kernel r'))) l \<Longrightarrow>
    take_interrupt env cc l r' = Inr r'' \<Longrightarrow> kernel_run env cc (Suc n) r r''"

definition eois :: "running \<Rightarrow> nat" where
  "eois r = length (filter (\<lambda>e. e = Out MASTER_PIC_CMD OCW2_EOI) (pic_io (ipic (k_intr (r_kernel r)))))"

section \<open>The state that serves the timer\<close>

definition serving :: "kernel_env \<Rightarrow> intr \<Rightarrow> bool" where
  "serving env i \<longleftrightarrow> cpu_if i \<and> pic_ready (ipic i) \<and> master_pic_offset (ipic i) = 32 \<and>
     pic_mask MASTER_PIC_DATA (ipic i) = Some 0xFE \<and> pic_mask SLAVE_PIC_DATA (ipic i) = Some 0xFF \<and>
     isr_handlers i = (replicate 16 0)[0 := timer_symbol env] \<and>
     (\<forall>l < 16. gate (isr_stub env l) 0x8E (idt i ! (32 + l)))"

lemma paging_init_intr:
  assumes "paging_init dev tags kend handler s i = Inr (s', i')"
  shows "i' = i\<lparr>exc_handlers := (exc_handlers i)[14 := handler]\<rparr>"
proof -
  have "vector_value EXC_PAGE_FAULT = 14" by (simp add: vector_value_def interrupt_vectors_def)
  then show ?thesis using assms
    by (auto simp: paging_init_def bindR_eq_Inr Let_def interrupts_register_handler_def split: prod.splits)
qed

lemma kernel_init_serving:
  assumes init: "kernel_init env k = Inr k'" and cold: "length (idt (k_intr k)) = 256" "isr_handlers (k_intr k) = replicate 16 0"
    and pic: "reads_back (ports env) MASTER_PIC_DATA"
  shows "serving env (k_intr k')"
proof -
  let ?i2 = "intr_before env (k_intr k)" and ?i3 = "intr_paged env (k_intr k)"
  have table: "\<forall>l < 16. gate (isr_stub env l) 0x8E (idt ?i3 ! (32 + l))" "pic_mask SLAVE_PIC_DATA (ipic ?i3) = Some 0xFF"
    using interrupts_init_table [OF _ refl, of _ "exc_stub env" "isr_stub env" "idt_symbol env"] cold(1)
    by (simp_all add: intr_paged_def intr_before_def Let_def interrupts_disable_def)
  note fields = intr_paged_fields [of env "k_intr k"]
  obtain pg i where pg: "paging_init (ports env) (mboot_tags env) (kernel_end_symbol env) (page_fault_symbol env) (k_paging k) ?i2 = Inr (pg, i)"
    "under_tables env k pg i = Inr k'"
    using init by (auto simp: kernel_init_eq bindR_eq_Inr ASSERT_eq_Inr)
  have "i = ?i3" using paging_init_intr [OF pg(1)] by (simp add: intr_paged_def)
  with pg(2) obtain i4 where i4: "pit_init (ports env) (timer_symbol env) 100 ?i3 = Inr i4" "k_intr k' = interrupts_enable i4"
    by (auto simp: under_tables_def touch_def bindR_eq_Inr split: if_splits prod.splits)
  obtain p where "i4 = ?i3\<lparr>isr_handlers := (replicate 16 0)[0 := timer_symbol env], ipic := p\<rparr>" "pic_ready p" "master_pic_offset p = 32"
    "pic_mask MASTER_PIC_DATA p = Some 0xFE" "pic_mask SLAVE_PIC_DATA p = Some 0xFF"
    using timer_registered [of ?i3 "ports env" "timer_symbol env"] table fields cold(2) pic i4(1) by auto
  then show ?thesis using table(1) i4(2) by (simp add: serving_def interrupts_enable_def)
qed

lemma bit_FE: "l < 8 \<Longrightarrow> bit (0xFE :: u8) l \<longleftrightarrow> l \<noteq> 0"
  by (cases l) (auto simp: less_Suc_eq numeral_eq_Suc)

lemma serving_line: "serving env i \<Longrightarrow> line_open (ipic i) l \<longleftrightarrow> l = 0"
  using bit_FE [of l] by (auto simp: serving_def line_open_def unmasked_def)

lemma serving_vector:
  assumes "serving env i" "l < 16"
  shows "unat (irq_vector (ipic i) l) = 32 + l" "32 \<le> irq_vector (ipic i) l" "irq_vector (ipic i) l < 48"
    "pic_vector_ok (irq_vector (ipic i) l) (ipic i)"
proof -
  have p: "master_pic_offset (ipic i) = 32" "unat (slave_pic_offset (ipic i)) = 40" using assms(1) by (simp_all add: serving_def pic_ready_def)
  then have "slave_pic_offset (ipic i) = 40" by (simp add: word_unat_eq_iff)
  then show u: "unat (irq_vector (ipic i) l) = 32 + l"
    using assms(2) p(1) by (simp add: irq_vector_def unat_word_ariths unat_of_nat)
  then show "32 \<le> irq_vector (ipic i) l" "irq_vector (ipic i) l < 48" "pic_vector_ok (irq_vector (ipic i) l) (ipic i)"
    using assms(2) p by (simp_all add: word_le_nat_alt word_less_nat_alt pic_vector_ok_def)
qed

text \<open>The stack below the interrupted code that an interrupt may write: the frame of the processor and the stub,
  the return address of the call and the \<open>d\<close> bytes of the C code.\<close>

definition below_stack :: "nat \<Rightarrow> cpu \<Rightarrow> addr \<Rightarrow> bool" where
  "below_stack d c x \<longleftrightarrow> unat (x - ((c_rsp c AND NOT 15) - of_nat (168 + d))) < 168 + d"

text \<open>A stack inside the kernel's image, and the state in which the kernel takes its interrupts: the timer is
  served, the direct map is loaded and reaches the image, whose end is at or before \<open>fs\<close>.\<close>

definition stack_in_image :: "addr \<Rightarrow> nat \<Rightarrow> cpu \<Rightarrow> bool" where
  "stack_in_image kernel_end d c \<longleftrightarrow> unat KERNEL_START + (168 + d) \<le> unat (c_rsp c AND NOT 15) \<and> unat (c_rsp c) \<le> unat kernel_end"

definition alive :: "kernel_env \<Rightarrow> addr \<Rightarrow> nat \<Rightarrow> nat \<Rightarrow> running \<Rightarrow> bool" where
  "alive env fs t d r \<longleftrightarrow> serving env (k_intr (r_kernel r)) \<and> direct_loaded fs t (k_paging (r_kernel r)) \<and>
     unat fs \<le> 2 ^ 64 - 2 ^ 31 + 4096 * t \<and> stack_in_image fs d (r_cpu r) \<and> bit (c_rflags (r_cpu r)) 9"

lemma stack_top_le: "unat (x AND NOT 15 :: u64) \<le> unat x"
  using unat_and_not_mask [of x 4] by (simp add: mask_eq_exp_minus_1)

lemma alive_stack:
  assumes "alive env fs t d r"
  shows "mapped (k_paging (r_kernel r)) ((c_rsp (r_cpu r) AND NOT 15) - 168) 168"
    and "below_stack d (r_cpu r) x \<Longrightarrow> unat x < unat fs"
proof -
  define top where "top = c_rsp (r_cpu r) AND NOT 15"
  have img: "unat KERNEL_START + (168 + d) \<le> unat top" "unat top \<le> unat fs" "unat fs \<le> 2 ^ 64 - 2 ^ 31 + 4096 * t"
    "direct_loaded fs t (k_paging (r_kernel r))"
    using assms stack_top_le [of "c_rsp (r_cpu r)"] unfolding alive_def stack_in_image_def top_def by linarith+
  have low: "unat (top - of_nat n) = unat top - n" if "n \<le> 168 + d" for n
  proof -
    have "n \<le> unat top" using that img(1) by linarith
    then have "unat (of_nat n :: u64) = n" using unat_u64_less [of top] by (intro unat_of_nat_u64) linarith
    then show ?thesis using \<open>n \<le> unat top\<close> by (simp add: unat_sub word_le_nat_alt)
  qed
  have "unat (top - 168) = unat top - 168" using low [of 168] by simp
  then show "mapped (k_paging (r_kernel r)) ((c_rsp (r_cpu r) AND NOT 15) - 168) 168"
    unfolding top_def [symmetric] using img by (auto simp: direct_loaded_def intro!: direct_mapped)
  assume "below_stack d (r_cpu r) x"
  then have "unat (x - (top - of_nat (168 + d))) < 168 + d" by (simp add: below_stack_def top_def)
  moreover have "unat x = unat (top - of_nat (168 + d) + (x - (top - of_nat (168 + d))))" by simp
  ultimately have "unat x < unat top"
    using low [of "168 + d"] img(1) unat_u64_less [of top] by (simp only: unat_word_ariths) simp
  then show "unat x < unat fs" using img(2) by linarith
qed

lemma take_interrupt_eq:
  assumes "serving env (k_intr (r_kernel r))" "uart_live (ports env)" "\<forall>l. stack_use d (cc l)"
    "mapped (k_paging (r_kernel r)) ((c_rsp (r_cpu r) AND NOT 15) - 168) 168" "l < 16"
  defines "i \<equiv> k_intr (r_kernel r)" and "st \<equiv> push_registers (r_cpu r) (cpu_deliver [] (r_cpu r) (pg_mem (k_paging (r_kernel r))))"
  defines "m \<equiv> snd (after_call (cc l) (r_cpu r) st)"
  shows "\<exists>es. uart_events es \<and> take_interrupt env cc l r =
    (if isr_handlers i ! l = 0 then Inl Assertion_hang
     else bindR (bindR (call_isr env (isr_handlers i ! l) (fst st) (logged es (i\<lparr>cpu_if := False\<rparr>))) (on_pic (pic_eoi (irq_vector (ipic i) l))))
       (\<lambda>j. Inr \<lparr>r_cpu = r_cpu r, r_kernel = (r_kernel r)\<lparr>k_intr := j\<lparr>cpu_if := bit (c_rflags (r_cpu r)) 9\<rparr>,
          k_paging := (k_paging (r_kernel r))\<lparr>pg_mem := m\<rparr>, k_heap := (k_heap (r_kernel r))\<lparr>wmem := m\<rparr>\<rparr>\<rparr>))"
proof -
  note v = serving_vector [OF assms(1,5), folded i_def]
  have gate: "gate (isr_stub env (unat (irq_vector (ipic i) l) - 32)) 0x8E (idt i ! unat (irq_vector (ipic i) l))"
    using assms(1,5) unfolding v(1) by (simp add: serving_def i_def)
  obtain es where es: "uart_events es" "interrupt_handler (ports env) (call_isr env) (fst st) (ucast (irq_vector (ipic i) l)) (i\<lparr>cpu_if := False\<rparr>) =
      (if isr_handlers i ! l = 0 then Inl Assertion_hang
       else bindR (call_isr env (isr_handlers i ! l) (fst st) (logged es (i\<lparr>cpu_if := False\<rparr>))) (on_pic (pic_eoi (irq_vector (ipic i) l))))"
    using interrupt_handler_eq [OF assms(2) v(2,3), of "i\<lparr>cpu_if := False\<rparr>"] unfolding v(1) by auto
  have regs: "pop_registers (after_call (cc l) (r_cpu r) st) = r_cpu r"
    unfolding st_def by (rule isr_stub_round_trip(1) [OF refl assms(3) [THEN spec]])
  show ?thesis
    unfolding take_interrupt_def Let_def i_def [symmetric] ISR_STUB_def st_def [symmetric] es(2) regs bindR_assoc m_def [symmetric]
    using gate es(1) assms(4) by (intro exI [of _ es]) (simp add: bindR_assoc touch_def)
qed

lemma timer_served:
  assumes "alive env fs t d r" "uart_live (ports env)" "\<forall>l. stack_use d (cc l)" "timer_symbol env \<noteq> 0"
  shows "\<exists>r'. take_interrupt env cc 0 r = Inr r' \<and> alive env fs t d r' \<and> r_cpu r' = r_cpu r \<and> eois r' = Suc (eois r) \<and>
    (\<forall>x. \<not> below_stack d (r_cpu r) x \<longrightarrow> pg_mem (k_paging (r_kernel r')) x = pg_mem (k_paging (r_kernel r)) x)"
proof -
  define i st where "i = k_intr (r_kernel r)" and "st = push_registers (r_cpu r) (cpu_deliver [] (r_cpu r) (pg_mem (k_paging (r_kernel r))))"
  define m where "m = snd (after_call (cc 0) (r_cpu r) st)"
  have i: "serving env i" and on: "bit (c_rflags (r_cpu r)) 9" using assms(1) by (simp_all add: i_def alive_def)
  have h: "isr_handlers i ! 0 = timer_symbol env" using i by (simp add: serving_def)
  obtain es where es: "uart_events es" "take_interrupt env cc 0 r =
      bindR (on_pic (pic_eoi (irq_vector (ipic i) 0)) (logged es (i\<lparr>cpu_if := False\<rparr>)))
       (\<lambda>j. Inr \<lparr>r_cpu = r_cpu r, r_kernel = (r_kernel r)\<lparr>k_intr := j\<lparr>cpu_if := bit (c_rflags (r_cpu r)) 9\<rparr>,
          k_paging := (k_paging (r_kernel r))\<lparr>pg_mem := m\<rparr>, k_heap := (k_heap (r_kernel r))\<lparr>wmem := m\<rparr>\<rparr>\<rparr>)"
    using take_interrupt_eq [OF i [unfolded i_def] assms(2,3) alive_stack(1) [OF assms(1)], of 0, folded i_def st_def m_def] h assms(4) by (auto simp: call_isr_def timer_interrupt_def)
  have offs: "master_pic_offset (ipic i) = 32" "unat (slave_pic_offset (ipic i)) = 40" using i by (simp_all add: serving_def pic_ready_def)
  then have v: "irq_vector (ipic i) 0 = 32" "pic_vector_ok 32 (ipic i)" "slave_pic_offset (ipic i) = 40"
    using serving_vector(4) [OF i, of 0] word_unat_eq_iff [of "slave_pic_offset (ipic i)" 40] by (simp_all add: irq_vector_def)
  let ?p = "(ipic i)\<lparr>pic_io := pic_io (ipic i) @ es @ [Out MASTER_PIC_CMD OCW2_EOI]\<rparr>"
  have eoi: "on_pic (pic_eoi (irq_vector (ipic i) 0)) (logged es (i\<lparr>cpu_if := False\<rparr>)) = Inr (i\<lparr>cpu_if := False, ipic := ?p\<rparr>)"
    using v by (simp add: on_pic_def pic_eoi_eq logged_def pic_vector_ok_def eoi_events_def)
  have mask: "pic_mask p ?p = pic_mask p (ipic i)" if "p \<noteq> COM1" "p \<noteq> MASTER_PIC_CMD" for p
    using last_out_uart [OF es(1) that(1)] that(2) by (simp add: pic_mask_def append_assoc [symmetric] del: append_assoc)
  have "serving env (i\<lparr>ipic := ?p, cpu_if := True\<rparr>)"
    using i mask [of MASTER_PIC_DATA] mask [of SLAVE_PIC_DATA] by (simp add: serving_def pic_ready_def)
  moreover have "filter (\<lambda>e. e = Out MASTER_PIC_CMD OCW2_EOI) es = []" using es(1) by (auto simp: uart_events_def filter_empty_conv)
  moreover have frame: "m x = pg_mem (k_paging (r_kernel r)) x" if "\<not> below_stack d (r_cpu r) x" for x
    using isr_stub_round_trip(2) [OF st_def assms(3) [THEN spec]] that by (simp add: below_stack_def m_def)
  moreover have "direct_loaded fs t ((k_paging (r_kernel r))\<lparr>pg_mem := m\<rparr>)"
  proof (rule direct_loaded_below)
    show "direct_loaded fs t (k_paging (r_kernel r))" using assms(1) by (simp add: alive_def)
    show "m x = pg_mem (k_paging (r_kernel r)) x" if "unat fs \<le> unat x" for x
      using alive_stack(2) [OF assms(1), of x] that by (intro frame) auto
  qed
  ultimately show ?thesis using es(2) eoi on assms(1) by (simp add: eois_def i_def alive_def)
qed

lemma other_line_hangs:
  assumes "alive env fs t d r" "uart_live (ports env)" "\<forall>l. stack_use d (cc l)" "0 < l" "l < 16"
  shows "take_interrupt env cc l r = Inl Assertion_hang"
proof -
  have i: "serving env (k_intr (r_kernel r))" using assms(1) by (simp add: alive_def)
  then have "isr_handlers (k_intr (r_kernel r)) ! l = 0" using assms(4,5) by (simp add: serving_def)
  then show ?thesis using take_interrupt_eq [OF i assms(2,3) alive_stack(1) [OF assms(1)] assms(5)] by auto
qed

lemma kernel_run_alive:
  assumes "kernel_run env cc n r0 r" "alive env fs t d r0" "uart_live (ports env)" "\<forall>l. stack_use d (cc l)" "timer_symbol env \<noteq> 0"
  shows "alive env fs t d r \<and> r_cpu r = r_cpu r0 \<and> eois r = eois r0 + n \<and>
    (\<forall>x. \<not> below_stack d (r_cpu r0) x \<longrightarrow> pg_mem (k_paging (r_kernel r)) x = pg_mem (k_paging (r_kernel r0)) x)"
  using assms
proof induction
  case (irq n r0 r l r')
  then have IH: "alive env fs t d r" "r_cpu r = r_cpu r0" "eois r = eois r0 + n"
    "\<And>x. \<not> below_stack d (r_cpu r0) x \<Longrightarrow> pg_mem (k_paging (r_kernel r)) x = pg_mem (k_paging (r_kernel r0)) x" by simp_all
  have "l = 0" using serving_line [of env "k_intr (r_kernel r)" l] IH(1) irq.hyps(3) unfolding alive_def by blast
  then show ?case using timer_served [OF IH(1) irq.prems(2-4)] IH irq.hyps(4) by auto
qed simp

section \<open>Properties\<close>

text \<open>C8: interrupts after the boot, with the stack in the kernel's image. However many interrupts the booted
  kernel has taken, the interrupted registers are as they were, memory has changed only below the interrupted
  stack, in the 160 bytes of the frame, the 8 of the call's return address and the \<open>d\<close> that the compiled
  dispatcher uses below it; the tables in CR3 still reach the stack, every
  interrupt has been acknowledged once, the timer's is the only open line and its next interrupt
  will be served again. A line with no handler stops the kernel, should the controller raise it all the same, as it
  does for a spurious interrupt on line 7.\<close>

theorem booted_kernel_takes_interrupts:
  assumes "mboot_magic env = MULTIBOOT2_BOOTLOADER_MAGIC" "memory_map_init (mboot_tags env) (k_paging k) = Inr s1"
    "direct_room (kernel_end_symbol env) (phys_mem_end_paddr s1)" "entries_apart (kernel_end_symbol env) s1"
    "length (idt (k_intr k)) = 256" "length (exc_handlers (k_intr k)) = 32" "isr_handlers (k_intr k) = replicate 16 0"
    "reads_back (ports env) MASTER_PIC_DATA" "uart_live (ports env)" "timer_symbol env \<noteq> 0"
    "\<forall>l. stack_use d (cc l)" "stack_in_image (kernel_end_symbol env) d c" "bit (c_rflags c) 9"
  shows "\<exists>k0. kernel_init env k = Inr k0 \<and> (\<forall>n r. kernel_run env cc n \<lparr>r_cpu = c, r_kernel = k0\<rparr> r \<longrightarrow>
    r_cpu r = c \<and> cpu_if (k_intr (r_kernel r)) \<and> eois r = eois \<lparr>r_cpu = c, r_kernel = k0\<rparr> + n \<and>
    (\<forall>x. \<not> below_stack d c x \<longrightarrow> pg_mem (k_paging (r_kernel r)) x = pg_mem (k_paging k0) x) \<and>
    mapped (k_paging (r_kernel r)) ((c_rsp c AND NOT 15) - 168) 168 \<and>
    (\<forall>l. line_open (ipic (k_intr (r_kernel r))) l \<longleftrightarrow> l = 0) \<and>
    (\<exists>r'. take_interrupt env cc 0 r = Inr r' \<and> kernel_run env cc (Suc n) \<lparr>r_cpu = c, r_kernel = k0\<rparr> r') \<and>
    (\<forall>l. 0 < l \<and> l < 16 \<longrightarrow> take_interrupt env cc l r = Inl Assertion_hang))"
proof -
  let ?fs = "ROUND_UP_TO (kernel_end_symbol env) 4096" and ?t = "unat (total_pages (kernel_end_symbol env) (phys_mem_end_paddr s1))"
  have "length (isr_handlers (k_intr k)) = 16" using assms(7) by simp
  then obtain k0 where k0: "kernel_init env k = Inr k0" "direct_loaded ?fs ?t (k_paging k0)"
    using kernel_init_result [OF assms(1-4,6) _ assms(8)] by blast
  let ?r0 = "\<lparr>r_cpu = c, r_kernel = k0\<rparr>"
  have "memory_room (kernel_end_symbol env) (phys_mem_end_paddr s1)" "unat ?fs \<le> 2 ^ 64 - 2 ^ 31 + 4096 * ?t"
    using assms(3) by (auto simp: direct_room_def Let_def)
  then have alive0: "alive env ?fs ?t d ?r0"
    using kernel_init_serving [OF k0(1) assms(5,7,8)] k0(2) assms(12,13) room_facts(6)
    unfolding alive_def stack_in_image_def by fastforce
  {
    fix n r assume run: "kernel_run env cc n ?r0 r"
    note r = kernel_run_alive [OF run alive0 assms(9,11,10)]
    then have alive: "alive env ?fs ?t d r" by blast
    then have serving: "serving env (k_intr (r_kernel r))" by (simp add: alive_def)
    have on: "cpu_if (k_intr (r_kernel r))" using serving by (simp add: serving_def)
    obtain r' where r': "take_interrupt env cc 0 r = Inr r'" using timer_served [OF alive assms(9,11,10)] by blast
    have "kernel_run env cc (Suc n) ?r0 r'" using run on serving_line [OF serving] r' by (blast intro: kernel_run.irq)
    then have "r_cpu r = c \<and> cpu_if (k_intr (r_kernel r)) \<and> eois r = eois ?r0 + n \<and>
      (\<forall>x. \<not> below_stack d c x \<longrightarrow> pg_mem (k_paging (r_kernel r)) x = pg_mem (k_paging k0) x) \<and>
      mapped (k_paging (r_kernel r)) ((c_rsp c AND NOT 15) - 168) 168 \<and>
      (\<forall>l. line_open (ipic (k_intr (r_kernel r))) l \<longleftrightarrow> l = 0) \<and>
      (\<exists>r'. take_interrupt env cc 0 r = Inr r' \<and> kernel_run env cc (Suc n) ?r0 r') \<and>
      (\<forall>l. 0 < l \<and> l < 16 \<longrightarrow> take_interrupt env cc l r = Inl Assertion_hang)"
      using r r' on alive_stack(1) [OF alive] serving_line [OF serving] other_line_hangs [OF alive assms(9,11)] by auto
  }
  then show ?thesis using k0(1) by blast
qed

text \<open>The kernel of the sample machine, one timer interrupt later.\<close>

definition sample_cpu :: cpu where
  "sample_cpu = \<lparr>c_rax = 1, c_rbx = 2, c_rcx = 3, c_rdx = 4, c_rbp = 5, c_rsi = 6, c_rdi = 7, c_r8 = 8, c_r9 = 9, c_r10 = 10,
     c_r11 = 11, c_r12 = 12, c_r13 = 13, c_r14 = 14, c_r15 = 15, c_rip = 0xFFFFFFFF80101234, c_cs = 8, c_rflags = 0x202,
     c_rsp = 0xFFFFFFFF80105FF8, c_ss = 16\<rparr>"

text \<open>Dispatchers compiled to push one register.\<close>

definition sample_code :: "nat \<Rightarrow> compiled" where
  "sample_code l = \<lparr>return_address = 0xFFFFFFFF80102020, c_stack = (\<lambda>c st. snd (pushq (c_rbp c) st))\<rparr>"

lemma sample_code_stack: "\<forall>l. stack_use 8 (sample_code l)"
  by (simp add: stack_use_def sample_code_def pushq_def store64_def store_le_outside)

theorem booted_kernel_takes_interrupts_witness:
  "\<exists>k0 r1. kernel_init sample_env sample_kernel = Inr k0 \<and> kernel_run sample_env sample_code 1 \<lparr>r_cpu = sample_cpu, r_kernel = k0\<rparr> r1 \<and>
    r_cpu r1 = sample_cpu \<and> eois r1 = eois \<lparr>r_cpu = sample_cpu, r_kernel = k0\<rparr> + 1 \<and>
    take_interrupt sample_env sample_code 7 r1 = Inl Assertion_hang"
proof -
  obtain s1 where s1: "mboot_magic sample_env = MULTIBOOT2_BOOTLOADER_MAGIC"
    "memory_map_init (mboot_tags sample_env) (k_paging sample_kernel) = Inr s1"
    "direct_room (kernel_end_symbol sample_env) (phys_mem_end_paddr s1)" "entries_apart (kernel_end_symbol sample_env) s1"
    using sample_boot by blast
  have facts: "length (idt (k_intr sample_kernel)) = 256" "length (exc_handlers (k_intr sample_kernel)) = 32"
    "isr_handlers (k_intr sample_kernel) = replicate 16 0" "reads_back (ports sample_env) MASTER_PIC_DATA"
    "uart_live (ports sample_env)" "timer_symbol sample_env \<noteq> 0" "\<forall>l. stack_use 8 (sample_code l)"
    "stack_in_image (kernel_end_symbol sample_env) 8 sample_cpu" "bit (c_rflags sample_cpu) 9"
    using ready_uart_facts sample_code_stack
    by (simp_all add: sample_kernel_def cold_intr_def sample_env_def sample_cpu_def stack_in_image_def)
  from booted_kernel_takes_interrupts [OF s1 facts] show ?thesis
  proof (elim exE conjE, goal_cases)
    case (1 k0)
    note takes = 1(2) [THEN spec, THEN spec, THEN mp]
    obtain r1 where r1: "kernel_run sample_env sample_code (Suc 0) \<lparr>r_cpu = sample_cpu, r_kernel = k0\<rparr> r1"
      using takes [OF kernel_run.idle] by blast
    show ?case using 1(1) r1 takes [OF r1] by (intro exI [of _ k0] exI [of _ r1]) simp
  qed
qed

end
