(* ===== verification/Loader.thy ===== *)
theory Loader
  imports Kstring Multiboot Serial
begin

text \<open>
  The second stage of the boot loader (\<^verbatim>\<open>src/loader/boot1/main.c\<close>), compiled for 32 bits: it reads
  the kernel's ELF image off the disk, answers the tag requests of its multiboot header and enters it.
  Pointers are 32-bit; \<open>ptr\<close> is the memory address of one. The static copy of the ELF header and the
  array \<^verbatim>\<open>linfo\<close> are values of their own, apart from the memory. The disk and what the BIOS and the processor
  report are arguments, collected in the record \<open>machine\<close>; so is the console call, because the
  32-bit calling convention decides what a mistyped \<^verbatim>\<open>%x\<close> prints.
\<close>

section \<open>Layouts\<close>

text \<open>The types and structures of \<^verbatim>\<open>src/lib/elf.h\<close> the loader reads, and where their fields lie.\<close>

type_synonym Elf64_Half = u16
type_synonym Elf64_Word = u32
type_synonym Elf64_Xword = u64
type_synonym Elf64_Addr = u64
type_synonym Elf64_Off = u64

record Elf64_Ehdr =
  e_ident :: "u8 list"
  e_type :: Elf64_Half
  e_machine :: Elf64_Half
  e_version :: Elf64_Word
  e_entry :: Elf64_Addr
  e_phoff :: Elf64_Off
  e_shoff :: Elf64_Off
  e_flags :: Elf64_Word
  e_ehsize :: Elf64_Half
  e_phentsize :: Elf64_Half
  e_phnum :: Elf64_Half
  e_shentsize :: Elf64_Half
  e_shnum :: Elf64_Half
  e_shstrndx :: Elf64_Half

definition load_ehdr :: "memory \<Rightarrow> addr \<Rightarrow> Elf64_Ehdr" where
  "load_ehdr m a =
     \<lparr>e_ident = map (\<lambda>i. m (a + of_nat i)) [0..<16],
      e_type = load16 m (a + 16), e_machine = load16 m (a + 18), e_version = load32 m (a + 20),
      e_entry = load64 m (a + 24), e_phoff = load64 m (a + 32), e_shoff = load64 m (a + 40),
      e_flags = load32 m (a + 48), e_ehsize = load16 m (a + 52), e_phentsize = load16 m (a + 54),
      e_phnum = load16 m (a + 56), e_shentsize = load16 m (a + 58), e_shnum = load16 m (a + 60),
      e_shstrndx = load16 m (a + 62)\<rparr>"

definition ELFMAG :: "u8 list" where
  "ELFMAG = [0x7F, 0x45, 0x4C, 0x46]"

abbreviation (input) SELFMAG :: nat where "SELFMAG \<equiv> 4"

record Elf64_Phdr =
  p_type :: Elf64_Word
  p_flags :: Elf64_Word
  p_offset :: Elf64_Off
  p_vaddr :: Elf64_Addr
  p_paddr :: Elf64_Addr
  p_filesz :: Elf64_Xword
  p_memsz :: Elf64_Xword
  p_align :: Elf64_Xword

definition load_phdr :: "memory \<Rightarrow> addr \<Rightarrow> Elf64_Phdr" where
  "load_phdr m a =
     \<lparr>p_type = load32 m a, p_flags = load32 m (a + 4), p_offset = load64 m (a + 8),
      p_vaddr = load64 m (a + 16), p_paddr = load64 m (a + 24), p_filesz = load64 m (a + 32),
      p_memsz = load64 m (a + 40), p_align = load64 m (a + 48)\<rparr>"

abbreviation (input) PT_LOAD :: u32 where "PT_LOAD \<equiv> 1"

text \<open>\<^verbatim>\<open>struct multiboot_header\<close> and \<^verbatim>\<open>struct multiboot_header_tag\<close>.\<close>

record multiboot_header =
  mh_magic :: u32
  mh_architecture :: u32
  mh_header_length :: u32
  mh_checksum :: u32

definition load_multiboot_header :: "memory \<Rightarrow> addr \<Rightarrow> multiboot_header" where
  "load_multiboot_header m a =
     \<lparr>mh_magic = load32 m a, mh_architecture = load32 m (a + 4),
      mh_header_length = load32 m (a + 8), mh_checksum = load32 m (a + 12)\<rparr>"

definition header_tag_type :: "memory \<Rightarrow> addr \<Rightarrow> u16" where
  "header_tag_type m t = load16 m t"

definition header_tag_size :: "memory \<Rightarrow> addr \<Rightarrow> u32" where
  "header_tag_size m t = load32 m (t + 4)"

definition header_tag_request :: "memory \<Rightarrow> addr \<Rightarrow> nat \<Rightarrow> u32" where
  "header_tag_request m t i = load32 m (t + 8 + of_nat (4 * i))"

abbreviation (input) MULTIBOOT2_HEADER_MAGIC :: u32 where "MULTIBOOT2_HEADER_MAGIC \<equiv> 0xE85250D6"
abbreviation (input) MULTIBOOT_HEADER_TAG_END :: u16 where "MULTIBOOT_HEADER_TAG_END \<equiv> 0"
abbreviation (input) MULTIBOOT_HEADER_TAG_INFORMATION_REQUEST :: u16 where
  "MULTIBOOT_HEADER_TAG_INFORMATION_REQUEST \<equiv> 1"

section \<open>State and environment\<close>

abbreviation (input) KERNEL_START_SECTOR :: nat where "KERNEL_START_SECTOR \<equiv> 12"
abbreviation (input) DISK_BUFFER_ADDR :: u32 where "DISK_BUFFER_ADDR \<equiv> 0x8000"
abbreviation (input) MULTIBOOT_RETURN_INFO_ADDR :: u32 where "MULTIBOOT_RETURN_INFO_ADDR \<equiv> 0xC000"

definition ptr :: "u32 \<Rightarrow> addr" where
  "ptr a = ucast a"

text \<open>
  The bytes of each sector of the disk; whether the BIOS has the disk extensions and reads without error; whether
  it answers the \<open>k\<close>-th memory map call with its signature, the entry it stores and whether it was the last; the registers AX and BX it answers
  function E801h with, if it does; the flags, what is read back after writing them, and EAX and EDX
  of each CPUID function; the ports; the console.
\<close>

record machine =
  disk :: "nat \<Rightarrow> nat \<Rightarrow> u8"
  bios_smap :: "nat \<Rightarrow> bool"
  bios_mmap :: "nat \<Rightarrow> mmap_entry \<times> bool"
  bios_e801 :: "(u16 \<times> u16) option"
  int13_extensions :: bool
  int13_reads :: bool
  eflags :: u32
  eflags_readback :: "u32 \<Rightarrow> u32"
  cpuid :: "u32 \<Rightarrow> u32 \<times> u32"
  uart :: device
  console :: "string \<Rightarrow> u64 list \<Rightarrow> io \<Rightarrow> io outcome"

record loader =
  ld_mem :: memory
  ld_io :: io
  mmap_calls :: nat
  kernel_entry :: Elf64_Addr
  ld_cr3 :: u32
  ld_eax :: u32
  ld_ebx :: u32

record load_info_t =
  bytes :: u32
  load_addr :: u32
  offset :: u32

text \<open>The two checks of the processor: bit 21 of the flags can be flipped, and bit 29 of the extended features is set.\<close>

definition check_for_cpuid :: "machine \<Rightarrow> int" where
  "check_for_cpuid mc =
     (if (eflags_readback mc (eflags mc XOR 0x200000) XOR eflags mc) AND 0x200000 = 0 then 0 else 1)"

definition check_for_longmode :: "machine \<Rightarrow> int" where
  "check_for_longmode mc =
     (if fst (cpuid mc 0x80000000) < 0x80000001 then 0
      else if bit (snd (cpuid mc 0x80000001)) 29 then 1 else 0)"

definition say :: "machine \<Rightarrow> string \<Rightarrow> u64 list \<Rightarrow> loader \<Rightarrow> loader outcome" where
  "say mc str args s = bindR (console mc str args (ld_io s)) (\<lambda>t. Inr (s\<lparr>ld_io := t\<rparr>))"

section \<open>Reading the disk\<close>

text \<open>
  The assembly routine compares both arguments as signed words and does nothing when the sector is
  below 12 or the count above 24. Otherwise \<^verbatim>\<open>_rmode_load_sector\<close> asks for the extensions and reads, and spins at
  \<^verbatim>\<open>jc .\<close> when the BIOS reports an error for one of the two calls; a negative count is one it refuses.
\<close>

definition load_sector_asm :: "machine \<Rightarrow> u16 \<Rightarrow> u16 \<Rightarrow> memory \<Rightarrow> memory outcome" where
  "load_sector_asm mc sector num_sectors m =
     (if sint sector < 12 \<or> sint num_sectors > 24 then Inr m
      else if \<not> int13_extensions mc then Inl Endless_loop
      else if \<not> int13_reads mc \<or> sint num_sectors < 0 then Inl Endless_loop
      else Inr (\<lambda>x. let d = unat (x - ptr DISK_BUFFER_ADDR)
                    in if d < 512 * unat num_sectors
                       then disk mc (unat sector + d div 512) (d mod 512) else m x))"

function load_sector :: "machine \<Rightarrow> u16 \<Rightarrow> u16 \<Rightarrow> u32 \<Rightarrow> memory \<Rightarrow> memory outcome" where
  "load_sector mc sector num_sectors address m =
     (if num_sectors > 0 then
        let sectors_curr = (if num_sectors > 24 then 24 else num_sectors)
        in bindR (load_sector_asm mc sector sectors_curr m) (\<lambda>m.
           let n = push_bit 9 (ucast sectors_curr :: u32);
               m = memcpy m (ptr address) (ptr DISK_BUFFER_ADDR) (ucast n)
           in load_sector mc (sector + sectors_curr) (num_sectors - sectors_curr) (address + n) m)
      else Inr m)"
  by pat_completeness auto
termination
proof (relation "measure (\<lambda>(mc, sector, n, a, m). unat n)", goal_cases)
  case (2 mc sector n a m)
  then show ?case by (auto simp: word_less_nat_alt unat_sub_if')
qed simp

declare load_sector.simps [simp del]

definition load_segment :: "machine \<Rightarrow> load_info_t \<Rightarrow> loader \<Rightarrow> loader outcome" where
  "load_segment mc li s =
     bindR (load_sector mc (ucast (of_nat KERNEL_START_SECTOR + drop_bit 9 (offset li)))
              (ucast (drop_bit 9 (bytes li) + 1)) (load_addr li) (ld_mem s))
       (\<lambda>m. Inr (s\<lparr>ld_mem := m\<rparr>))"

section \<open>Program headers\<close>

text \<open>The sector read depends on the index and the entry size only; \<^verbatim>\<open>linfo\<close> has room for five.\<close>

definition read_phdr ::
  "machine \<Rightarrow> Elf64_Ehdr \<Rightarrow> nat \<Rightarrow> load_info_t list \<times> loader \<Rightarrow> (load_info_t list \<times> loader) outcome" where
  "read_phdr mc ehdr i st =
     (case st of (linfo, s) \<Rightarrow>
      let pos = i * unat (e_phentsize ehdr)
      in if pos \<ge> 2 ^ 31 then Inl Signed_overflow
         else bindR (load_sector_asm mc (of_nat (KERNEL_START_SECTOR + pos div 512))
                       (of_nat (unat (e_phentsize ehdr) div 512 + 2)) (ld_mem s)) (\<lambda>m.
           let s = s\<lparr>ld_mem := m\<rparr>;
               phdr = load_phdr m (ptr (ucast (ucast DISK_BUFFER_ADDR + (e_phoff ehdr + of_nat pos) mod 512)))
           in if p_type phdr = PT_LOAD then
                if length linfo < 5 then
                  let li = \<lparr>bytes = ucast (p_filesz phdr), load_addr = ucast (p_paddr phdr),
                            offset = ucast (p_offset phdr)\<rparr>
                  in bindR (say mc (''Linfo[%d] = %x'' @ [LF, CR]) [of_nat (length linfo), ucast (load_addr li)] s)
                       (\<lambda>s. Inr (linfo @ [li], s))
                else Inl Out_of_bounds
              else Inr (linfo, s)))"

section \<open>The multiboot header of the kernel\<close>

text \<open>The index of the request loop is a byte, so a longer request list is read for ever.\<close>

partial_function (option) request_loop :: "memory \<Rightarrow> addr \<Rightarrow> u8 \<Rightarrow> u32 \<Rightarrow> u32 outcome option" where
  "request_loop m t i bmap =
     (if ucast i < (header_tag_size m t - 8) div 4
      then (case int_shl 1 (unat (header_tag_request m t (unat i))) of
              Inl e \<Rightarrow> Some (Inl e)
            | Inr b \<Rightarrow> request_loop m t (i + 1) (bmap OR b))
      else Some (Inr bmap))"

definition next_header_tag :: "memory \<Rightarrow> u32 \<Rightarrow> u32" where
  "next_header_tag m t = (t + header_tag_size m (ptr t) + 7) AND NOT 7"

partial_function (option) header_tag_loop :: "memory \<Rightarrow> u32 \<Rightarrow> u32 \<Rightarrow> u32 outcome option" where
  "header_tag_loop m t bmap =
     (if header_tag_type m (ptr t) \<noteq> MULTIBOOT_HEADER_TAG_END
      then (if header_tag_type m (ptr t) = MULTIBOOT_HEADER_TAG_INFORMATION_REQUEST
            then (case request_loop m (ptr t) 0 bmap of
                    None \<Rightarrow> None
                  | Some r \<Rightarrow> (case r of Inl e \<Rightarrow> Some (Inl e)
                                        | Inr b \<Rightarrow> header_tag_loop m (next_header_tag m t) b))
            else header_tag_loop m (next_header_tag m t) bmap)
      else Some (Inr bmap))"

definition tags_requested :: "memory \<Rightarrow> u32 \<Rightarrow> u32 outcome" where
  "tags_requested m mhdr =
     (case header_tag_loop m (mhdr + 16) 0 of None \<Rightarrow> Inl Endless_loop | Some r \<Rightarrow> r)"

section \<open>Boot information for the kernel\<close>

text \<open>The size above 16 MB is shifted in a 16-bit register, from blocks of 64 KB to KB.\<close>

definition get_basic_meminfo :: "machine \<Rightarrow> (u32 \<times> u32) outcome" where
  "get_basic_meminfo mc =
     (case bios_e801 mc of None \<Rightarrow> Inl Endless_loop | Some (ax, bx) \<Rightarrow> Inr (ucast ax, ucast (push_bit 6 bx)))"

text \<open>The routine in real mode spins when the BIOS does not answer with its signature.\<close>

definition get_single_mmap :: "machine \<Rightarrow> addr \<Rightarrow> loader \<Rightarrow> (bool \<times> loader) outcome" where
  "get_single_mmap mc a s =
     (if \<not> bios_smap mc (mmap_calls s) then Inl Endless_loop
      else case bios_mmap mc (mmap_calls s) of (e, fin) \<Rightarrow>
        Inr (fin, s\<lparr>ld_mem := store_mmap_entry (ld_mem s) a e, mmap_calls := Suc (mmap_calls s)\<rparr>))"

partial_function (option) mmap_loop :: "machine \<Rightarrow> u32 \<Rightarrow> loader \<Rightarrow> (u32 \<times> loader) outcome option" where
  "mmap_loop mc curr_entry s =
     (case get_single_mmap mc (ptr curr_entry) s of
        Inl e \<Rightarrow> Some (Inl e)
      | Inr r \<Rightarrow> (case r of (fin, s) \<Rightarrow>
          if fin then Some (Inr (curr_entry, s)) else mmap_loop mc (curr_entry + 24) s))"

definition put32 :: "u32 \<Rightarrow> u32 \<Rightarrow> loader \<Rightarrow> loader" where
  "put32 a v s = s\<lparr>ld_mem := store32 (ld_mem s) (ptr a) v\<rparr>"

definition answer_tag :: "machine \<Rightarrow> u8 \<Rightarrow> u32 \<Rightarrow> loader \<Rightarrow> loader outcome" where
  "answer_tag mc curr_tag_type cur s =
     bindR (if ucast curr_tag_type = MULTIBOOT_TAG_TYPE_BASIC_MEMINFO then
              bindR (get_basic_meminfo mc) (\<lambda>(mem_lower, mem_upper).
                let s = put32 (cur + 8) mem_lower s;
                    s = put32 (cur + 12) mem_upper s
                in Inr (put32 (cur + 4) 16 s))
            else if ucast curr_tag_type = MULTIBOOT_TAG_TYPE_MMAP then
              bindR (of_loop (mmap_loop mc (cur + 16) s)) (\<lambda>r. bindR r (\<lambda>(curr_entry, s).
                let s = put32 (cur + 8) 24 s;
                    s = put32 (cur + 4) (curr_entry - cur) s
                in Inr (put32 (cur + 12) 0 s)))
            else Inr s)
       (\<lambda>s. Inr (put32 cur (ucast curr_tag_type) s))"

text \<open>The total and the next position use the size field of the slot, written or not.\<close>

function info_loop :: "machine \<Rightarrow> u32 \<Rightarrow> u8 \<Rightarrow> u32 \<Rightarrow> loader \<Rightarrow> loader outcome" where
  "info_loop mc bmap curr_tag_type cur s =
     (if bmap \<noteq> 0 then
        bindR (if bmap AND 1 \<noteq> 0 then answer_tag mc curr_tag_type cur s else Inr s) (\<lambda>s.
          let total = load32 (ld_mem s) (ptr MULTIBOOT_RETURN_INFO_ADDR);
              s = put32 MULTIBOOT_RETURN_INFO_ADDR (total + load32 (ld_mem s) (ptr (cur + 4))) s;
              cur = (cur + load32 (ld_mem s) (ptr (cur + 4)) + 7) AND NOT 7
          in info_loop mc (drop_bit 1 bmap) (curr_tag_type + 1) cur s)
      else Inr s)"
  by pat_completeness auto
termination
proof (relation "measure (\<lambda>(mc, bmap, ty, cur, s). unat bmap)", goal_cases)
  case (2 mc bmap ty cur s)
  then have "0 < unat bmap" by (simp add: unat_gt_0)
  then show ?case by (simp add: drop_bit_eq_div unat_div)
qed simp

declare info_loop.simps [simp del]

definition multiboot_info :: "machine \<Rightarrow> u32 \<Rightarrow> loader \<Rightarrow> loader outcome" where
  "multiboot_info mc tags_requested_bmap s =
     (let s = put32 MULTIBOOT_RETURN_INFO_ADDR 2 s;
          s = put32 (MULTIBOOT_RETURN_INFO_ADDR + 4) 0 s
      in info_loop mc tags_requested_bmap 0 (MULTIBOOT_RETURN_INFO_ADDR + 8) s)"

section \<open>Entering long mode\<close>

text \<open>
  The tables \<^verbatim>\<open>long_mode\<close> of \<^verbatim>\<open>boot1.S\<close> builds before it turns paging on: \<^verbatim>\<open>rep stosl\<close> over the four tables from
  \<^verbatim>\<open>p4t_addr\<close> on, one entry at a time for the upper levels, and the loop over the 512 entries of the last.
  The registers hold what the kernel expects of a multiboot loader.
\<close>

definition clear_dwords :: "nat \<Rightarrow> memory \<Rightarrow> memory" where
  "clear_dwords n m = fold (\<lambda>i m. store32 m (0x10000 + of_nat (4 * i)) 0) [0..<n] m"

definition put_entry :: "addr \<Rightarrow> u32 \<Rightarrow> memory \<Rightarrow> memory" where
  "put_entry a v m = store32 (store32 m a v) (a + 4) 0"

definition set_entries :: "nat \<Rightarrow> memory \<Rightarrow> memory" where
  "set_entries n m = fold (\<lambda>i. put_entry (0x14000 + of_nat (8 * i)) (3 + of_nat (4096 * i))) [0..<n] m"

definition boot_tables :: "memory \<Rightarrow> memory" where
  "boot_tables m =
     (let m = clear_dwords 4096 m;
          m = put_entry 0x10000 (0x11000 OR 3) m;
          m = put_entry (0x10000 + 511 * 8) (0x12000 OR 3) m;
          m = put_entry 0x11000 (0x13000 OR 3) m;
          m = put_entry (0x12000 + 510 * 8) (0x13000 OR 3) m;
          m = put_entry 0x13000 (0x14000 OR 3) m
      in set_entries 512 m)"

definition long_mode :: "loader \<Rightarrow> loader" where
  "long_mode s = s\<lparr>ld_cr3 := 0x10000, ld_mem := boot_tables (ld_mem s),
     ld_eax := MULTIBOOT2_BOOTLOADER_MAGIC, ld_ebx := MULTIBOOT_RETURN_INFO_ADDR\<rparr>"

section \<open>The loader\<close>

definition header_ok :: "multiboot_header \<Rightarrow> bool" where
  "header_ok h \<longleftrightarrow> mh_magic h = MULTIBOOT2_HEADER_MAGIC \<and>
     mh_magic h + mh_architecture h + mh_header_length h + mh_checksum h = 0"

text \<open>
  Every \<^verbatim>\<open>while(1)\<close> of an error path is \<open>Endless_loop\<close>; the result is the state in which
  \<^verbatim>\<open>long_mode\<close> jumps to the kernel, with its page tables in place. With no loadable segment \<^verbatim>\<open>linfo[0]\<close> is read uninitialised.
\<close>

definition loader_main :: "machine \<Rightarrow> loader \<Rightarrow> loader outcome" where
  "loader_main mc s =
     (let s = s\<lparr>ld_io := snd (serial_init (uart mc) COM1 (ld_io s))\<rparr> in
      bindR (load_sector_asm mc (of_nat KERNEL_START_SECTOR) 1 (ld_mem s)) (\<lambda>m.
      let s = s\<lparr>ld_mem := m\<rparr>; ehdr = load_ehdr m (ptr DISK_BUFFER_ADDR) in
      if take SELFMAG (e_ident ehdr) \<noteq> ELFMAG
      then bindR (say mc (''ELF magic incorrect!'' @ [LF]) [] s) (\<lambda>s. Inl Endless_loop)
      else
      bindR (say mc (''Elf header obtained!'' @ [LF]) [] s) (\<lambda>s.
      bindR (foldR (read_phdr mc ehdr) [0..<unat (e_phnum ehdr)] ([], s)) (\<lambda>(linfo, s).
      if linfo = [] then Inl Bad_pointer
      else
      bindR (load_segment mc (hd linfo) s) (\<lambda>s.
      let mhdr = load_addr (hd linfo) in
      if \<not> header_ok (load_multiboot_header (ld_mem s) (ptr mhdr)) then Inl Endless_loop
      else
      bindR (tags_requested (ld_mem s) mhdr) (\<lambda>bmap.
      bindR (say mc (''Tags Requested: %d'' @ [LF]) [ucast bmap] s) (\<lambda>s.
      bindR (multiboot_info mc bmap s) (\<lambda>s.
      bindR (foldR (load_segment mc) linfo s) (\<lambda>s.
      bindR (if check_for_cpuid mc \<noteq> 1 then say mc (''No CPUID!'' @ [LF]) [] s else Inr s) (\<lambda>s.
      if check_for_longmode mc \<noteq> 1
      then bindR (say mc (''No long mode!'' @ [LF]) [] s) (\<lambda>s. Inl Endless_loop)
      else
      bindR (say mc (''Entering kernel at %x'' @ [LF]) [e_entry ehdr] s) (\<lambda>s.
      Inr (long_mode (s\<lparr>kernel_entry := e_entry ehdr\<rparr>)))))))))))))"

section \<open>Sectors in memory\<close>

lemma unat_ptr: "unat (ptr a) = unat a"
proof -
  have "unat a < 2 ^ 32" using unsigned_less [of a] by simp
  then show ?thesis by (simp add: ptr_def unsigned_ucast_eq take_bit_nat_eq_self)
qed

lemma ptr_of_nat: "ptr a = of_nat (unat a)"
  using unat_ptr [of a] by (metis word_unat_eq_iff unat_of_nat_u64 unat_u64_less)

lemma near: "i < 2 ^ 64 \<Longrightarrow> j + n \<le> 2 ^ 64 \<Longrightarrow> unat (of_nat i - of_nat j :: u64) < n \<longleftrightarrow> j \<le> i \<and> i < j + n"
  using unat_of_nat_diff [of i j n 0] by simp

lemma unat_diff_nat: "j \<le> i \<Longrightarrow> i < 2 ^ 64 \<Longrightarrow> unat (of_nat i - of_nat j :: u64) = i - j"
  by (metis diff_le_self le_less_trans of_nat_diff unat_of_nat_u64)

text \<open>The byte at distance \<open>d\<close> from the start of sector \<open>sec\<close>.\<close>

definition sector_byte :: "machine \<Rightarrow> nat \<Rightarrow> nat \<Rightarrow> u8" where
  "sector_byte mc sec d = disk mc (sec + d div 512) (d mod 512)"

lemma sector_byte_skip: "sector_byte mc (sec + c) d = sector_byte mc sec (512 * c + d)"
  by (simp add: sector_byte_def algebra_simps)

lemma sint_u16_small: "unat w < 2 ^ 15 \<Longrightarrow> sint (w :: u16) = int (unat w)"
proof -
  assume lt: "unat w < 2 ^ 15"
  have w: "uint w = int (unat w)" by simp
  then have "uint w < 2 ^ 15" using lt by (metis of_nat_less_iff of_nat_numeral of_nat_power)
  moreover have "0 \<le> uint w" by simp
  ultimately have "signed_take_bit 15 (uint w) = uint w" by (intro signed_take_bit_int_eq_self) linarith+
  then show ?thesis by (simp add: sint_uint)
qed

lemma sint_u16_bounds:
  "unat w < 2 ^ 15 \<Longrightarrow> sint (w :: u16) < 12 \<longleftrightarrow> unat w < 12"
  "unat w < 2 ^ 15 \<Longrightarrow> sint (w :: u16) > 24 \<longleftrightarrow> unat w > 24"
  "unat w < 2 ^ 15 \<Longrightarrow> \<not> sint (w :: u16) < 0"
  using sint_u16_small [of w] by linarith+

text \<open>A disk that is read without error.\<close>

definition disk_works :: "machine \<Rightarrow> bool" where
  "disk_works mc \<longleftrightarrow> int13_extensions mc \<and> int13_reads mc"

lemma load_sector_asm_reads:
  assumes "12 \<le> unat sec" "unat sec < 2 ^ 15" "unat c \<le> 24" "disk_works mc"
  shows "\<exists>m'. load_sector_asm mc sec c m = Inr m' \<and>
    (\<forall>a < 2 ^ 64. m' (of_nat a) =
       (if 0x8000 \<le> a \<and> a < 0x8000 + 512 * unat c then sector_byte mc (unat sec) (a - 0x8000) else m (of_nat a)))"
proof -
  have "\<not> sint sec < 12" "\<not> sint c > 24" "\<not> sint c < 0"
    using assms by (simp_all add: sint_u16_bounds)
  moreover have "ptr 0x8000 = of_nat 0x8000" by (simp add: ptr_def)
  moreover have "(of_nat a - of_nat 0x8000 :: u64) = of_nat a - 0x8000" for a by simp
  ultimately show ?thesis
    using near [where j = "0x8000" and n = "512 * unat c"] unat_diff_nat [of "0x8000"] assms(3,4)
    by (auto simp: load_sector_asm_def sector_byte_def Let_def disk_works_def)
qed

lemma chunk_bytes: "unat c \<le> 24 \<Longrightarrow> unat (push_bit 9 (ucast (c :: u16) :: u32)) = 512 * unat c"
proof -
  assume c: "unat c \<le> 24"
  then have "unat (ucast c :: u32) = unat c" by (simp add: unsigned_ucast_eq take_bit_nat_eq_self)
  then show ?thesis using c by (simp add: push_bit_eq_mult unat_word_ariths)
qed

lemma load_chunk:
  assumes "12 \<le> unat sec" "unat sec < 2 ^ 15" "unat c \<le> 24"
    "unat a + 512 * unat c \<le> 2 ^ 32" "0xB000 \<le> unat a \<or> unat a + 512 * unat c \<le> 0x8000" "disk_works mc"
  shows "\<exists>m'. load_sector_asm mc sec c m = Inr m' \<and>
    (\<forall>x < 2 ^ 64. memcpy m' (ptr a) (ptr 0x8000) (ucast (push_bit 9 (ucast c :: u32))) (of_nat x) =
       (if unat a \<le> x \<and> x < unat a + 512 * unat c then sector_byte mc (unat sec) (x - unat a)
        else if 0x8000 \<le> x \<and> x < 0x8000 + 512 * unat c then sector_byte mc (unat sec) (x - 0x8000)
        else m (of_nat x)))"
proof -
  obtain m' where m': "load_sector_asm mc sec c m = Inr m'" and read:
    "\<And>x. x < 2 ^ 64 \<Longrightarrow> m' (of_nat x) =
       (if 0x8000 \<le> x \<and> x < 0x8000 + 512 * unat c then sector_byte mc (unat sec) (x - 0x8000) else m (of_nat x))"
    using load_sector_asm_reads [OF assms(1-3,6)] by blast
  let ?n = "ucast (push_bit 9 (ucast c :: u32)) :: u64"
  have n: "unat ?n = 512 * unat c"
    using assms(3) by (simp add: unsigned_ucast_eq chunk_bytes take_bit_nat_eq_self)
  have a: "ptr a = of_nat (unat a)" "ptr 0x8000 = of_nat 0x8000" by (simp_all only: ptr_of_nat) simp
  have safe: "copy_safe (ptr a) (ptr 0x8000) (unat ?n)"
    unfolding copy_safe_def n a
  proof (cases "0xB000 \<le> unat a")
    case True
    have "unat (of_nat (unat a) - of_nat 0x8000 :: u64) = unat a - 0x8000"
      using True unat_ptr [of a] unat_u64_less [of "ptr a"] by (intro unat_diff_nat) simp_all
    then show "of_nat (unat a) = (of_nat 0x8000 :: u64) \<or> 512 * unat c \<le> unat (of_nat (unat a) - of_nat 0x8000 :: u64)"
      using True assms(3) by linarith
  next
    case False
    then have "unat a + 512 * unat c \<le> 0x8000" using assms(5) by simp
    then have "\<not> unat (of_nat (unat a) - of_nat 0x8000 :: u64) < 512 * unat c"
      using assms(3,4) by (subst near) auto
    then show "of_nat (unat a) = (of_nat 0x8000 :: u64) \<or> 512 * unat c \<le> unat (of_nat (unat a) - of_nat 0x8000 :: u64)"
      by linarith
  qed
  note cp = memmove_apply [OF safe, of m', folded memcpy_def, unfolded n a]
  show ?thesis
  proof (intro exI conjI, rule m', intro allI impI)
    fix x :: nat assume x: "x < 2 ^ 64"
    have near_a: "unat (of_nat x - of_nat (unat a) :: u64) < 512 * unat c \<longleftrightarrow> unat a \<le> x \<and> x < unat a + 512 * unat c"
      using x assms(4) by (intro near) simp_all
    show "memcpy m' (ptr a) (ptr 0x8000) ?n (of_nat x) =
       (if unat a \<le> x \<and> x < unat a + 512 * unat c then sector_byte mc (unat sec) (x - unat a)
        else if 0x8000 \<le> x \<and> x < 0x8000 + 512 * unat c then sector_byte mc (unat sec) (x - 0x8000)
        else m (of_nat x))"
    proof (cases "unat a \<le> x \<and> x < unat a + 512 * unat c")
      case True
      have "of_nat 0x8000 + (of_nat x - of_nat (unat a)) = (of_nat (0x8000 + (x - unat a)) :: u64)"
        using True by (simp only: of_nat_add of_nat_diff)
      then have "memcpy m' (ptr a) (ptr 0x8000) ?n (of_nat x) = m' (of_nat (0x8000 + (x - unat a)))"
        unfolding a cp near_a using True by (simp only: simp_thms if_True)
      moreover define d where "d = x - unat a"
      moreover have "m' (of_nat (0x8000 + d)) = sector_byte mc (unat sec) d"
        using True assms(3) by (subst read) (auto simp: d_def)
      ultimately show ?thesis using True by (simp only: simp_thms if_True)
    next
      case False
      then have "memcpy m' (ptr a) (ptr 0x8000) ?n (of_nat x) = m' (of_nat x)"
        unfolding a cp near_a by (simp only: if_False)
      then show ?thesis using False read [OF x] by (simp only: if_False)
    qed
  qed
qed

lemma load_sector_copies:
  assumes disk: "disk_works mc"
    and "12 \<le> unat sec" "unat sec + unat n \<le> 2 ^ 15"
    "unat a + 512 * unat n < 2 ^ 32" "0xB000 \<le> unat a \<or> unat a + 512 * unat n \<le> 0x8000"
  shows "\<exists>m'. load_sector mc sec n a m = Inr m' \<and>
    (\<forall>x < 2 ^ 64. (unat a \<le> x \<and> x < unat a + 512 * unat n \<longrightarrow> m' (of_nat x) = sector_byte mc (unat sec) (x - unat a)) \<and>
       (\<not> (unat a \<le> x \<and> x < unat a + 512 * unat n) \<and> \<not> (0x8000 \<le> x \<and> x < 0xB000) \<longrightarrow> m' (of_nat x) = m (of_nat x)))"
  using assms(2-)
proof (induction "unat n" arbitrary: sec n a m rule: less_induct)
  case less
  show ?case
  proof (cases "n = 0")
    case True
    then have "load_sector mc sec n a m = Inr m" by (simp add: load_sector.simps)
    then show ?thesis using True by auto
  next
    case False
    define c where "c = (if n > 24 then 24 else n)"
    have c: "unat c \<le> 24" "unat c \<le> unat n" "0 < unat c"
      using False by (auto simp: c_def word_less_nat_alt unat_gt_0)
    have le: "c \<le> n" using c(2) by (simp add: word_le_nat_alt)
    define n' where "n' = n - c"
    define sec' where "sec' = sec + c"
    define a' where "a' = a + push_bit 9 (ucast c :: u32)"
    have n': "unat n' = unat n - unat c" using le by (simp add: n'_def unat_sub)
    have sec': "unat sec' = unat sec + unat c"
      using less.prems(1,2) c by (simp add: sec'_def unat_word_ariths)
    have a': "unat a' = unat a + 512 * unat c"
      using less.prems(3) c by (simp add: a'_def unat_word_ariths chunk_bytes)
    have sum: "unat a' + 512 * unat n' = unat a + 512 * unat n" using a' n' c by simp
    have smaller: "unat n' < unat n" using n' c by simp
    have prems': "12 \<le> unat sec'" "unat sec' + unat n' \<le> 2 ^ 15" "unat a' + 512 * unat n' < 2 ^ 32"
      "0xB000 \<le> unat a' \<or> unat a' + 512 * unat n' \<le> 0x8000"
      unfolding sum using less.prems c n' sec' a' by auto
    obtain m1 where m1: "load_sector_asm mc sec c m = Inr m1" and chunk:
      "\<forall>x < 2 ^ 64. memcpy m1 (ptr a) (ptr 0x8000) (ucast (push_bit 9 (ucast c :: u32))) (of_nat x) =
         (if unat a \<le> x \<and> x < unat a + 512 * unat c then sector_byte mc (unat sec) (x - unat a)
          else if 0x8000 \<le> x \<and> x < 0x8000 + 512 * unat c then sector_byte mc (unat sec) (x - 0x8000)
          else m (of_nat x))"
      using load_chunk [of sec c a mc m] less.prems c disk by auto
    define m2 where "m2 = memcpy m1 (ptr a) (ptr 0x8000) (ucast (push_bit 9 (ucast c :: u32)))"
    have step: "load_sector mc sec n a m = load_sector mc sec' n' a' m2"
      using False m1 by (subst load_sector.simps)
        (simp add: c_def [symmetric] Let_def m2_def n'_def sec'_def a'_def word_neq_0_conv)
    obtain m3 where m3: "load_sector mc sec' n' a' m2 = Inr m3" and rest:
      "\<forall>x < 2 ^ 64. (unat a' \<le> x \<and> x < unat a' + 512 * unat n' \<longrightarrow> m3 (of_nat x) = sector_byte mc (unat sec') (x - unat a')) \<and>
         (\<not> (unat a' \<le> x \<and> x < unat a' + 512 * unat n') \<and> \<not> (0x8000 \<le> x \<and> x < 0xB000) \<longrightarrow> m3 (of_nat x) = m2 (of_nat x))"
      using less.hyps [OF smaller prems', of m2] by blast
    have inside: "m3 (of_nat x) = sector_byte mc (unat sec) (x - unat a)"
      if x: "x < 2 ^ 64" "unat a \<le> x" "x < unat a + 512 * unat n" for x
    proof (cases "unat a' \<le> x")
      case True
      then have "m3 (of_nat x) = sector_byte mc (unat sec') (x - unat a')" using rest x sum by simp
      moreover have "512 * unat c + (x - unat a') = x - unat a" using True a' by simp
      ultimately show ?thesis by (simp add: sec' sector_byte_skip)
    next
      case False
      then have "m3 (of_nat x) = m2 (of_nat x)" using rest x sum less.prems(4) c by auto
      then show ?thesis using chunk x False a' by (simp add: m2_def)
    qed
    have outside: "m3 (of_nat x) = m (of_nat x)"
      if x: "x < 2 ^ 64" "\<not> (unat a \<le> x \<and> x < unat a + 512 * unat n)" "\<not> (0x8000 \<le> x \<and> x < 0xB000)" for x
    proof -
      have "m3 (of_nat x) = m2 (of_nat x)" using rest x sum a' by auto
      moreover have "\<not> (unat a \<le> x \<and> x < unat a + 512 * unat c)" "\<not> (0x8000 \<le> x \<and> x < 0x8000 + 512 * unat c)"
        using x c by auto
      ultimately show ?thesis using chunk x(1) unfolding m2_def by (simp only: if_False simp_thms)
    qed
    have "load_sector mc sec n a m = Inr m3" using step m3 by simp
    then show ?thesis using inside outside by (intro exI [of _ m3] conjI allI impI) auto
  qed
qed

end
