(* ===== verification/Bootinfo.thy ===== *)
theory Bootinfo
  imports Loader Paging
begin

text \<open>
  The boot information from the loader to the kernel: what \<^verbatim>\<open>src/loader/boot1/main.c\<close> writes for the
  two tags the kernel's header requests is what \<^verbatim>\<open>memory_map_init\<close> of \<^verbatim>\<open>src/kernel/mem/paging.c\<close>
  reads. Both sides lose the last entry of what they are given.
\<close>

section \<open>Words and entries at fixed addresses\<close>

lemma load32_store32_same [simp]: "load32 (store32 m a v) a = v"
  unfolding load32_def store32_def by (rule load_store_same) simp_all

lemma load32_store32_other:
  assumes "4 \<le> unat (b - a)" "4 \<le> unat (a - b)"
  shows "load32 (store32 m a v) b = load32 m b"
  unfolding load32_def store32_def
proof (rule load_store_other)
  fix i :: nat assume i: "i < 4"
  define d where "d = unat (b - a)"
  have "unat (0 - (b - a)) = 2 ^ 64 - d" using assms(1) unat_sub_if' [of 0 "b - a"] by (simp add: d_def)
  then have "unat (a - b) = 2 ^ 64 - d" by simp
  then have lt: "d + 4 \<le> 2 ^ 64" using assms(2) by linarith
  have "b + of_nat i - a = of_nat (d + i)" by (simp add: d_def)
  then have "unat (b + of_nat i - a) = d + i" using lt i by (metis add_strict_left_mono less_le_trans unat_of_nat_u64)
  then show "\<not> unat (b + of_nat i - a) < 4" using assms(1) by (simp add: d_def)
qed simp

lemma store32_outside: "4 \<le> unat (x - a) \<Longrightarrow> store32 m a v x = m x"
  unfolding store32_def by (rule store_le_outside) simp_all

lemma load64_words: "load64 m a = ucast (load32 m a) OR push_bit 32 (ucast (load32 m (a + 4)))"
proof (rule bit_word_eqI)
  fix n assume n: "n < LENGTH(64)"
  show "bit (load64 m a) n = bit (ucast (load32 m a) OR push_bit 32 (ucast (load32 m (a + 4))) :: u64) n"
  proof (cases "n < 32")
    case False
    then obtain j where j: "n = 32 + j" by (metis le_Suc_ex linorder_not_less)
    have "n div 8 = 4 + j div 8" "n mod 8 = j mod 8" unfolding j by presburger+
    then have "a + of_nat (n div 8) = a + 4 + of_nat (j div 8)" "n mod 8 = j mod 8" by simp_all
    then show ?thesis using n j by (simp add: load64_def load32_def bit_load_le bit_or_iff bit_push_bit_iff bit_ucast_iff add.assoc)
  qed (use n in \<open>simp add: load64_def load32_def bit_load_le bit_or_iff bit_push_bit_iff bit_ucast_iff\<close>)
qed

lemma load_mmap_entry_cong:
  assumes "\<And>x. unat (x - a) < 24 \<Longrightarrow> m x = m' x"
  shows "load_mmap_entry m a = load_mmap_entry m' a"
proof -
  have "(load_le n m (a + of_nat j) :: 'a::len word) = load_le n m' (a + of_nat j)" if "j + n \<le> 24" for j n
  proof (rule load_le_cong)
    fix i assume "i < n"
    then have lt: "j + i < 24" using that by simp
    then have "unat (of_nat (j + i) :: u64) = j + i" by (intro unat_of_nat_u64) simp
    moreover have "a + of_nat j + of_nat i - a = of_nat (j + i)" by simp
    ultimately show "m (a + of_nat j + of_nat i) = m' (a + of_nat j + of_nat i)" using lt by (intro assms) (simp only:)
  qed
  from this [of 0 8] this [of 8 8] this [of 16 4] this [of 20 4] show ?thesis
    by (simp add: load_mmap_entry_def load64_def load32_def)
qed

section \<open>Copying the memory map\<close>

lemma mmap_loop_stores:
  assumes "unat a + 24 * Suc n < 2 ^ 32" "\<forall>k < n. \<not> snd (bios_mmap mc (mmap_calls s + k))"
    "snd (bios_mmap mc (mmap_calls s + n))" "\<forall>k \<le> n. bios_smap mc (mmap_calls s + k)"
  shows "\<exists>s'. mmap_loop mc a s = Some (Inr (a + of_nat (24 * n), s')) \<and>
    (\<forall>k \<le> n. load_mmap_entry (ld_mem s') (of_nat (unat a + 24 * k)) = fst (bios_mmap mc (mmap_calls s + k))) \<and>
    (\<forall>x. \<not> (unat a \<le> unat x \<and> unat x < unat a + 24 * Suc n) \<longrightarrow> ld_mem s' x = ld_mem s x)"
  using assms
proof (induction n arbitrary: a s)
  case (0 a s)
  let ?s = "s\<lparr>ld_mem := store_mmap_entry (ld_mem s) (ptr a) (fst (bios_mmap mc (mmap_calls s))), mmap_calls := Suc (mmap_calls s)\<rparr>"
  have fin: "get_single_mmap mc (ptr a) s = Inr (True, ?s)"
    "ld_mem ?s = store_mmap_entry (ld_mem s) (ptr a) (fst (bios_mmap mc (mmap_calls s)))"
    using 0(3,4) by (auto simp: get_single_mmap_def split: prod.splits)
  have "mmap_loop mc a s = Some (Inr (a, ?s))" using fin(1) by (subst mmap_loop.simps) simp
  moreover have "ld_mem ?s x = ld_mem s x" if "\<not> (unat a \<le> unat x \<and> unat x < unat a + 24)" for x
  proof -
    have "24 \<le> unat (x - ptr a)"
      using near [of "unat x" "unat a" 24] unat_u64_less [of x] 0(1) that by (simp add: ptr_of_nat not_less [symmetric])
    then show ?thesis unfolding fin(2) by (rule store_mmap_entry_outside)
  qed
  ultimately show ?case using fin(2) by (intro exI [of _ ?s]) (simp add: ptr_def load_store_entry)
next
  case (Suc n a s)
  let ?s = "s\<lparr>ld_mem := store_mmap_entry (ld_mem s) (ptr a) (fst (bios_mmap mc (mmap_calls s))), mmap_calls := Suc (mmap_calls s)\<rparr>"
  have more: "get_single_mmap mc (ptr a) s = Inr (False, ?s)" "mmap_calls ?s = Suc (mmap_calls s)"
    "ld_mem ?s = store_mmap_entry (ld_mem s) (ptr a) (fst (bios_mmap mc (mmap_calls s)))"
    using Suc.prems(2,4) [rule_format, of 0] by (auto simp: get_single_mmap_def split: prod.splits)
  have a: "unat (a + 24) = unat a + 24" using Suc.prems(1) by (simp add: unat_word_ariths)
  have "unat (a + 24) + 24 * Suc n < 2 ^ 32" using Suc.prems(1) unfolding a by simp
  moreover have "\<forall>k < n. \<not> snd (bios_mmap mc (mmap_calls ?s + k))"
    using Suc.prems(2) more(2) by (metis Suc_less_eq add_Suc_shift)
  moreover have "snd (bios_mmap mc (mmap_calls ?s + n))" using Suc.prems(3) more(2) by simp
  moreover have "\<forall>k \<le> n. bios_smap mc (mmap_calls ?s + k)"
    using Suc.prems(4) more(2) by (metis Suc_le_mono add_Suc_shift)
  ultimately obtain s' where s': "mmap_loop mc (a + 24) ?s = Some (Inr (a + 24 + of_nat (24 * n), s'))"
    "\<forall>k \<le> n. load_mmap_entry (ld_mem s') (of_nat (unat a + 24 + 24 * k)) = fst (bios_mmap mc (mmap_calls ?s + k))"
    "\<forall>x. \<not> (unat a + 24 \<le> unat x \<and> unat x < unat a + 24 + 24 * Suc n) \<longrightarrow> ld_mem s' x = ld_mem ?s x"
    using Suc.IH [of "a + 24" ?s] unfolding a by blast
  have near_a: "unat (x - ptr a) < 24 \<longleftrightarrow> unat a \<le> unat x \<and> unat x < unat a + 24" for x
    using near [of "unat x" "unat a" 24] unat_u64_less [of x] Suc.prems(1) by (simp add: ptr_of_nat)
  have "mmap_loop mc a s = Some (Inr (a + of_nat (24 * Suc n), s'))"
    using more(1) s'(1) by (subst mmap_loop.simps) (simp add: add.assoc)
  moreover have "load_mmap_entry (ld_mem s') (of_nat (unat a + 24 * k)) = fst (bios_mmap mc (mmap_calls s + k))"
    if "k \<le> Suc n" for k
  proof (cases k)
    case 0
    have "load_mmap_entry (ld_mem s') (ptr a) = load_mmap_entry (ld_mem ?s) (ptr a)"
      using s'(3) near_a by (intro load_mmap_entry_cong) auto
    then show ?thesis using 0 more(3) by (simp add: ptr_def load_store_entry)
  next
    case (Suc j)
    then show ?thesis using s'(2) that more(2) by (simp add: add.assoc)
  qed
  moreover have "ld_mem s' x = ld_mem s x" if "\<not> (unat a \<le> unat x \<and> unat x < unat a + 24 * Suc (Suc n))" for x
  proof -
    have "\<not> (unat a + 24 \<le> unat x \<and> unat x < unat a + 24 + 24 * Suc n)" using that by auto
    then have "ld_mem s' x = ld_mem ?s x" using s'(3) by blast
    moreover have "\<not> (unat a \<le> unat x \<and> unat x < unat a + 24)" using that by auto
    then have "24 \<le> unat (x - ptr a)" using near_a [of x] by (metis linorder_not_le)
    ultimately show ?thesis using more(3) store_mmap_entry_outside by simp
  qed
  ultimately show ?case by blast
qed

section \<open>The two tags the kernel requests\<close>

text \<open>Bits 4 and 6 of the request bitmap: \<^verbatim>\<open>MULTIBOOT_TAG_TYPE_BASIC_MEMINFO\<close> and \<^verbatim>\<open>MULTIBOOT_TAG_TYPE_MMAP\<close>.\<close>

lemma info_loop_step:
  "info_loop mc bmap ty cur s =
     (if bmap \<noteq> 0 then
        bindR (if bmap AND 1 \<noteq> 0 then answer_tag mc ty cur s else Inr s) (\<lambda>s.
          let s' = put32 0xC000 (load32 (ld_mem s) (ptr 0xC000) + load32 (ld_mem s) (ptr (cur + 4))) s
          in info_loop mc (drop_bit 1 bmap) (ty + 1) ((cur + load32 (ld_mem s') (ptr (cur + 4)) + 7) AND NOT 7) s')
      else Inr s)"
  by (subst info_loop.simps) (simp add: Let_def)

lemma info_before_map:
  assumes "load32 (ld_mem s) 0xC00C = 0" "load32 (ld_mem s) 0xC01C = 0" "bios_e801 mc \<noteq> None"
  shows "\<exists>t. multiboot_info mc 0x50 s = info_loop mc 1 6 0xC018 t \<and> mmap_calls t = mmap_calls s \<and>
    load32 (ld_mem t) 0xC008 = 4 \<and> load32 (ld_mem t) 0xC00C = 16"
proof -
  let ?put = "\<lambda>total s. put32 0xC000 total s"
  define s0 where "s0 = put32 0xC004 0 (put32 0xC000 2 s)"
  have z: "load32 (ld_mem s0) 0xC000 = 2" "load32 (ld_mem s0) 0xC00C = 0" "load32 (ld_mem s0) 0xC01C = 0"
    using assms by (simp_all add: s0_def put32_def ptr_def load32_store32_other)
  have skip: "info_loop mc b ty 0xC008 u = info_loop mc (drop_bit 1 b) (ty + 1) 0xC008 (?put 2 u)"
    if "b \<noteq> 0" "b AND 1 = 0" "load32 (ld_mem u) 0xC000 = 2" "load32 (ld_mem u) 0xC00C = 0" for b ty u
    using that by (subst info_loop_step) (simp add: put32_def ptr_def load32_store32_other Let_def)
  define s4 where "s4 = ?put 2 (?put 2 (?put 2 (?put 2 s0)))"
  have z4: "load32 (ld_mem s4) 0xC000 = 2" "load32 (ld_mem s4) 0xC00C = 0" "load32 (ld_mem s4) 0xC01C = 0"
    using z by (simp_all add: s4_def put32_def ptr_def load32_store32_other)
  have first: "multiboot_info mc 0x50 s = info_loop mc 5 4 0xC008 s4"
    unfolding multiboot_info_def Let_def s4_def using z
    by (simp add: skip put32_def ptr_def load32_store32_other s0_def)
  obtain lo hi where mem: "get_basic_meminfo mc = Inr (lo, hi)" using assms(3) by (auto simp: get_basic_meminfo_def)
  define s5 where "s5 = put32 0xC008 4 (put32 0xC00C 16 (put32 0xC014 hi (put32 0xC010 lo s4)))"
  have z5: "load32 (ld_mem s5) 0xC000 = 2" "load32 (ld_mem s5) 0xC00C = 16" "load32 (ld_mem s5) 0xC008 = 4" "load32 (ld_mem s5) 0xC01C = 0"
    using z4 by (simp_all add: s5_def put32_def ptr_def load32_store32_other)
  have "answer_tag mc 4 0xC008 s4 = Inr s5" by (simp add: answer_tag_def s5_def Let_def mem)
  then have second: "info_loop mc 5 4 0xC008 s4 = info_loop mc 2 5 0xC018 (?put 18 s5)"
    using z5 by (subst info_loop_step) (simp add: Let_def put32_def ptr_def load32_store32_other)
  have "info_loop mc 2 5 0xC018 (?put 18 s5) = info_loop mc 1 6 0xC018 (?put 18 (?put 18 s5))"
    using z5 by (subst info_loop_step) (simp add: Let_def put32_def ptr_def load32_store32_other)
  moreover have "mmap_calls (?put 18 (?put 18 s5)) = mmap_calls s"
    by (simp add: put32_def s5_def s4_def s0_def)
  ultimately show ?thesis using first second z5
    by (intro exI [of _ "?put 18 (?put 18 s5)"]) (simp add: put32_def ptr_def load32_store32_other)
qed

text \<open>What the kernel finds: two tags, the second with all entries but the last counted in its size.\<close>

definition boot_tags :: "machine \<Rightarrow> nat \<Rightarrow> nat \<Rightarrow> memory \<Rightarrow> bool" where
  "boot_tags mc c n m \<longleftrightarrow>
     load32 m 0xC008 = 4 \<and> load32 m 0xC00C = 16 \<and>
     load32 m 0xC018 = 6 \<and> load32 m 0xC01C = of_nat (16 + 24 * n) \<and> load32 m 0xC020 = 24 \<and>
     (\<forall>k \<le> n. load_mmap_entry m (of_nat (0xC028 + 24 * k)) = fst (bios_mmap mc (c + k)))"

lemma info_map:
  assumes "load32 (ld_mem t) 0xC008 = 4" "load32 (ld_mem t) 0xC00C = 16" "n \<le> 100"
    "\<forall>k < n. \<not> snd (bios_mmap mc (mmap_calls t + k))" "snd (bios_mmap mc (mmap_calls t + n))"
    "\<forall>k \<le> n. bios_smap mc (mmap_calls t + k)"
  shows "\<exists>s'. info_loop mc 1 6 0xC018 t = Inr s' \<and> boot_tags mc (mmap_calls t) n (ld_mem s')"
proof -
  have "unat (0xC028 :: u32) + 24 * Suc n < 2 ^ 32" using assms(3) by simp
  then obtain t1 where t1: "mmap_loop mc 0xC028 t = Some (Inr (0xC028 + of_nat (24 * n), t1))"
    "\<forall>k \<le> n. load_mmap_entry (ld_mem t1) (of_nat (0xC028 + 24 * k)) = fst (bios_mmap mc (mmap_calls t + k))"
    "\<forall>x. \<not> (0xC028 \<le> unat x \<and> unat x < 0xC028 + 24 * Suc n) \<longrightarrow> ld_mem t1 x = ld_mem t x"
    using mmap_loop_stores [of "0xC028" n mc t] assms(4-6) by auto
  have low: "load32 (ld_mem t1) a = load32 (ld_mem t) a" if "unat a < 0xC024" for a
    unfolding load32_def
  proof (rule load_le_cong)
    fix i :: nat assume "i < 4"
    then have "unat (a + of_nat i) = unat a + i" using that by (simp add: unat_word_ariths unat_of_nat)
    then show "ld_mem t1 (a + of_nat i) = ld_mem t (a + of_nat i)" using t1(3) that \<open>i < 4\<close> by simp
  qed
  define t2 where "t2 = put32 0xC018 6 (put32 0xC024 0 (put32 0xC01C (of_nat (16 + 24 * n)) (put32 0xC020 24 t1)))"
  have size: "(0xC028 + of_nat (24 * n)) - 0xC018 = (of_nat (16 + 24 * n) :: u32)" by simp
  have "answer_tag mc 6 0xC018 t =
      bindR (of_loop (mmap_loop mc 0xC028 t)) (\<lambda>r. bindR r (\<lambda>(e, s). Inr (put32 0xC018 6 (put32 0xC024 0 (put32 0xC01C (e - 0xC018) (put32 0xC020 24 s))))))"
    unfolding answer_tag_def bindR_assoc Let_def
    by (simp add: bindR_assoc split_def)
  then have "answer_tag mc 6 0xC018 t = Inr t2" unfolding t1(1) t2_def of_loop_simps bindR_simps prod.case size .
  define s' where "s' = put32 0xC000 (load32 (ld_mem t2) 0xC000 + load32 (ld_mem t2) 0xC01C) t2"
  have "info_loop mc 1 6 0xC018 t = Inr s'"
    using \<open>answer_tag mc 6 0xC018 t = Inr t2\<close>
    by (subst info_loop_step, simp add: Let_def, subst info_loop_step) (simp add: s'_def ptr_def)
  moreover have "load_mmap_entry (ld_mem s') (of_nat (0xC028 + 24 * k)) = load_mmap_entry (ld_mem t1) (of_nat (0xC028 + 24 * k))"
    if k: "k \<le> n" for k
  proof (rule load_mmap_entry_cong)
    fix x :: addr assume x: "unat (x - of_nat (0xC028 + 24 * k)) < 24"
    have "0xC028 \<le> unat x"
      using near [of "unat x" "0xC028 + 24 * k" 24] unat_u64_less [of x] k assms(3) x by simp
    then have "4 \<le> unat (x - of_nat a)" if "a \<le> 0xC024" for a
      using near [of "unat x" a 4] unat_u64_less [of x] that by simp
    from this [of "0xC000"] this [of "0xC018"] this [of "0xC01C"] this [of "0xC020"] this [of "0xC024"]
    show "ld_mem s' x = ld_mem t1 x"
      by (simp add: s'_def t2_def put32_def ptr_def store32_outside)
  qed
  ultimately show ?thesis
    using assms(1,2) low t1(2) by (intro exI [of _ s']) (simp add: boot_tags_def s'_def t2_def put32_def ptr_def load32_store32_other)
qed

lemma boot_tags_found:
  assumes "boot_tags mc c n m"
  shows "multiboot_get_tag m 0xC000 MULTIBOOT_TAG_TYPE_MMAP = Inr 0xC018"
    "tag_size m 0xC018 = of_nat (16 + 24 * n)" "mmap_tag_entry_size m 0xC018 = 24"
proof -
  have tags: "tag_type m 0xC008 = 4" "tag_size m 0xC008 = 16" "tag_type m 0xC018 = 6"
    using assms by (simp_all add: boot_tags_def tag_type_def tag_size_def)
  have "next_tag m 0xC008 = 0xC018" by (simp add: next_tag_def tags)
  then show "multiboot_get_tag m 0xC000 MULTIBOOT_TAG_TYPE_MMAP = Inr 0xC018"
    by (simp add: multiboot_get_tag_def tag_loop.simps [of m _ "0xC008"] tag_loop.simps [of m _ "0xC018"] tags)
  show "tag_size m 0xC018 = of_nat (16 + 24 * n)" "mmap_tag_entry_size m 0xC018 = 24"
    using assms by (simp_all add: boot_tags_def tag_size_def mmap_tag_entry_size_def)
qed

section \<open>From the request to the kernel's memory map\<close>

lemma multiboot_info_tags:
  assumes "load32 (ld_mem s) 0xC00C = 0" "load32 (ld_mem s) 0xC01C = 0" "n \<le> 100"
    "\<forall>k < n. \<not> snd (bios_mmap mc (mmap_calls s + k))" "snd (bios_mmap mc (mmap_calls s + n))" "\<forall>k \<le> n. bios_smap mc (mmap_calls s + k)"
    "bios_e801 mc \<noteq> None"
  shows "\<exists>s'. multiboot_info mc 0x50 s = Inr s' \<and> boot_tags mc (mmap_calls s) n (ld_mem s')"
  using info_before_map [OF assms(1,2,7)] info_map [OF _ _ assms(3), of _ mc] assms(4-6) by metis

lemma load32_cong:
  assumes "\<And>x. lo \<le> unat x \<Longrightarrow> unat x < hi \<Longrightarrow> m' x = m x" "lo \<le> unat a" "unat a + 4 \<le> hi" "hi < 2 ^ 64"
  shows "load32 m' a = load32 m a"
  unfolding load32_def
proof (rule load_le_cong)
  fix i :: nat assume "i < 4"
  then have "unat (a + of_nat i) = unat a + i" using assms(3,4) by (simp add: unat_word_ariths unat_of_nat)
  then show "m' (a + of_nat i) = m (a + of_nat i)" using assms(2,3) \<open>i < 4\<close> by (intro assms(1)) simp_all
qed

lemma boot_tags_cong:
  assumes "boot_tags mc c n m" "n \<le> 100" "\<And>x. 0xC000 \<le> unat x \<Longrightarrow> unat x < 0x10000 \<Longrightarrow> m' x = m x"
  shows "boot_tags mc c n m'"
proof -
  have "load32 m' a = load32 m a" if "0xC000 \<le> unat a" "unat a + 4 \<le> 0x10000" for a
    using load32_cong [of "0xC000" "0x10000" m' m a] assms(3) that by simp
  moreover have "load_mmap_entry m' (of_nat (0xC028 + 24 * k)) = load_mmap_entry m (of_nat (0xC028 + 24 * k))" if "k \<le> n" for k
  proof (rule load_mmap_entry_cong)
    fix x :: addr assume "unat (x - of_nat (0xC028 + 24 * k)) < 24"
    then show "m' x = m x"
      using near [of "unat x" "0xC028 + 24 * k" 24] unat_u64_less [of x] that assms(2) by (intro assms(3)) simp_all
  qed
  ultimately show ?thesis using assms(1) by (simp add: boot_tags_def)
qed

text \<open>What the kernel makes of the tags of \<open>n\<close> regions: all but the last two, sorted, and the end of the
  highest as the end of memory.\<close>

definition regions_taken :: "machine \<Rightarrow> nat \<Rightarrow> nat \<Rightarrow> paging \<Rightarrow> bool" where
  "regions_taken mc c n pg \<longleftrightarrow> memory_map_len pg = int n - 2 \<and> addr_sorted (take (n - 2) (memory_map pg)) \<and>
     mset (take (n - 2) (memory_map pg)) = mset (map (\<lambda>k. fst (bios_mmap mc (c + k))) [0..<n - 2]) \<and>
     phys_mem_end_paddr pg = (let top = last (take (n - 2) (memory_map pg)) in entry_addr top + entry_len top)"

lemma boot_tags_memory_map:
  assumes "boot_tags mc c (n - 1) m" "3 \<le> n" "n \<le> 11" "length (memory_map pg) = 10"
  shows "\<exists>pg'. memory_map_init 0xC000 (pg\<lparr>pg_mem := m\<rparr>) = Inr pg' \<and> regions_taken mc c n pg'"
proof -
  let ?pg = "pg\<lparr>pg_mem := m\<rparr>"
  have n: "n - 1 - 1 = n - 2" "int (n - 1) - 1 = int n - 2" "2 \<le> n - 1" "n - 1 \<le> 10" using assms(2,3) by auto
  have mem: "pg_mem ?pg = m" and arr: "length (memory_map ?pg) = 10" using assms(4) by simp_all
  have tag: "multiboot_get_tag (pg_mem ?pg) 0xC000 MULTIBOOT_TAG_TYPE_MMAP = Inr 0xC018" "(0xC018 :: addr) \<noteq> NULL"
    "tag_size (pg_mem ?pg) 0xC018 = of_nat (16 + 24 * (n - 1))" "mmap_tag_entry_size (pg_mem ?pg) 0xC018 = 24"
    unfolding mem using boot_tags_found [OF assms(1)] by simp_all
  obtain es and top :: mmap_entry where es: "memory_map_init 0xC000 ?pg = Inr (?pg\<lparr>memory_map := es, memory_map_len := int n - 2,
        phys_mem_end_paddr := entry_addr top + entry_len top\<rparr>)"
    "mset (take (n - 2) es) = mset (map (\<lambda>k. load_mmap_entry m (0xC018 + 16 + of_nat (24 * k))) [0..<n - 2])"
    "addr_sorted (take (n - 2) es)" "top = last (take (n - 2) es)"
    using memory_map_init_copies [OF tag n(3,4) arr, unfolded n(1,2) mem] by blast
  have "load_mmap_entry m (0xC018 + 16 + of_nat (24 * k)) = fst (bios_mmap mc (c + k))" if "k < n - 2" for k
    using assms(1) that by (simp add: boot_tags_def)
  then have "map (\<lambda>k. load_mmap_entry m (0xC018 + 16 + of_nat (24 * k))) [0..<n - 2] =
      map (\<lambda>k. fst (bios_mmap mc (c + k))) [0..<n - 2]" by (intro map_cong) auto
  then have "mset (take (n - 2) es) = mset (map (\<lambda>k. fst (bios_mmap mc (c + k))) [0..<n - 2])"
    using es(2) by (simp only:)
  then show ?thesis unfolding es(1) using es(3,4) by (simp add: regions_taken_def Let_def del: mset_map)
qed

end
