(* ===== verification/Bootmap.thy ===== *)
theory Bootmap
  imports Bootinfo Pagetables
begin

text \<open>
  The page tables the loader enters the kernel with: \<^verbatim>\<open>long_mode\<close> of \<^verbatim>\<open>src/loader/boot1/boot1.S\<close> maps the first two
  megabytes twice, at their own addresses and at the kernel's. The walk of the processor is the one the kernel's own
  tables are measured by; it sees the loader's memory, which is physical, at the kernel's addresses.
\<close>

section \<open>The memory after the table set-up\<close>

text \<open>Physical memory at the addresses of the kernel and, below them, at its own.\<close>

definition boot_view :: "memory \<Rightarrow> memory" where
  "boot_view m x = m (if PHYS_BASE \<le> x then k_vtop x else x)"

lemma boot_view_high: "a < 2 ^ 31 \<Longrightarrow> boot_view m (k_ptov (of_nat a)) = m (of_nat a)"
  using unat_k_ptov [of a] by (simp add: boot_view_def word_le_nat_alt)

lemma boot_view_low: "unat x < 2 ^ 63 \<Longrightarrow> boot_view m x = m x"
  by (simp add: boot_view_def word_le_nat_alt)

lemma load_boot_view:
  assumes "a + 8 \<le> 2 ^ 31"
  shows "load64 (boot_view m) (k_ptov (of_nat a)) = load64 m (of_nat a)"
proof (rule bit_word_eqI)
  fix n assume "n < LENGTH(64)"
  then have "a + n div 8 < 2 ^ 31" using assms by auto
  then have "boot_view m (k_ptov (of_nat (a + n div 8))) = m (of_nat (a + n div 8))" by (rule boot_view_high)
  then show "bit (load64 (boot_view m) (k_ptov (of_nat a))) n = bit (load64 m (of_nat a)) n"
    by (simp add: load64_def bit_load_le k_ptov_def algebra_simps)
qed

lemma store32_apply: "x < 2 ^ 64 \<Longrightarrow> a + 4 \<le> 2 ^ 64 \<Longrightarrow> store32 m (of_nat a) v (of_nat x) =
   (if a \<le> x \<and> x < a + 4 then ucast (drop_bit (8 * (x - a)) v) else m (of_nat x))"
  using near [of x a 4] unat_diff_nat [of a x] by (auto simp: store32_def store_le_apply)

lemma clear_dwords_apply:
  assumes "n \<le> 4096" "x < 2 ^ 64"
  shows "clear_dwords n m (of_nat x) = (if 0x10000 \<le> x \<and> x < 0x10000 + 4 * n then 0 else m (of_nat x))"
  using assms(1)
proof (induction n)
  case (Suc n)
  have "clear_dwords (Suc n) m (of_nat x) = store32 (clear_dwords n m) (of_nat (0x10000 + 4 * n)) 0 (of_nat x)"
    by (simp add: clear_dwords_def)
  also have "\<dots> = (if 0x10000 + 4 * n \<le> x \<and> x < 0x10000 + 4 * n + 4 then 0 else clear_dwords n m (of_nat x))"
    using Suc.prems assms(2) by (subst store32_apply) simp_all
  finally show ?case using Suc by auto
qed (auto simp: clear_dwords_def)

text \<open>An entry is eight bytes: the value and zero.\<close>

lemma put_entry_outside:
  assumes "a + 8 \<le> 2 ^ 64" "x < 2 ^ 64" "\<not> (a \<le> x \<and> x < a + 8)"
  shows "put_entry (of_nat a) v m (of_nat x) = m (of_nat x)"
proof -
  have "put_entry (of_nat a) v m (of_nat x) = store32 (store32 m (of_nat a) v) (of_nat (a + 4)) 0 (of_nat x)"
    by (simp add: put_entry_def add.commute)
  also have "\<dots> = m (of_nat x)" using assms by (subst store32_apply; (subst store32_apply)?) auto
  finally show ?thesis .
qed

lemma load64_of_nat_cong:
  assumes "b + 8 \<le> 2 ^ 64" "\<And>x. b \<le> x \<Longrightarrow> x < b + 8 \<Longrightarrow> m' (of_nat x) = m (of_nat x)"
  shows "load64 m' (of_nat b) = load64 m (of_nat b)"
  unfolding load64_def using assms(2) [of "b + _"] by (intro load_le_cong) (simp add: of_nat_add [symmetric] del: of_nat_add)

lemma put_entry_load:
  assumes "a + 8 \<le> 2 ^ 64" "b + 8 \<le> 2 ^ 64" "a = b \<or> a + 8 \<le> b \<or> b + 8 \<le> a"
  shows "load64 (put_entry (of_nat a) v m) (of_nat b) = (if a = b then ucast v else load64 m (of_nat b))"
proof (cases "a = b")
  case True
  have "load32 (put_entry (of_nat a) v m) (of_nat a) = v" unfolding put_entry_def
    by (subst load32_store32_other) simp_all
  moreover have "load32 (put_entry (of_nat a) v m) (of_nat a + 4) = 0" by (simp add: put_entry_def)
  ultimately show ?thesis using True by (simp add: load64_words)
next
  case False
  have "load64 (put_entry (of_nat a) v m) (of_nat b) = load64 m (of_nat b)"
    using assms False by (intro load64_of_nat_cong put_entry_outside) auto
  then show ?thesis using False by simp
qed

lemma set_entries_load:
  assumes "n \<le> 512" "b + 8 \<le> 2 ^ 64" "8 dvd b"
  shows "load64 (set_entries n m) (of_nat b) =
    (if 0x14000 \<le> b \<and> b < 0x14000 + 8 * n then of_nat (3 + 4096 * ((b - 0x14000) div 8)) else load64 m (of_nat b))"
  using assms(1)
proof (induction n)
  case (Suc n)
  have apart: "0x14000 + 8 * n = b \<or> 0x14000 + 8 * n + 8 \<le> b \<or> b + 8 \<le> 0x14000 + 8 * n" using assms(3) by presburger
  have "load64 (set_entries (Suc n) m) (of_nat b) =
      load64 (put_entry (of_nat (0x14000 + 8 * n)) (3 + of_nat (4096 * n)) (set_entries n m)) (of_nat b)"
    by (simp add: set_entries_def)
  also have "\<dots> = (if 0x14000 + 8 * n = b then ucast (3 + of_nat (4096 * n) :: u32) else load64 (set_entries n m) (of_nat b))"
    using Suc.prems assms(2) apart by (intro put_entry_load) simp_all
  also have "ucast (3 + of_nat (4096 * n) :: u32) = (of_nat (3 + 4096 * n) :: u64)"
    using Suc.prems by (simp add: word_unat_eq_iff unsigned_ucast_eq unat_word_ariths unat_of_nat take_bit_nat_eq_self)
  finally show ?case using Suc apart by auto
qed (auto simp: set_entries_def)

lemma set_entries_outside:
  assumes "n \<le> 512" "x < 2 ^ 64" "\<not> (0x14000 \<le> x \<and> x < 0x14000 + 8 * n)"
  shows "set_entries n m (of_nat x) = m (of_nat x)"
  using assms(1,3)
proof (induction n)
  case (Suc n)
  have "set_entries (Suc n) m (of_nat x) = put_entry (of_nat (0x14000 + 8 * n)) (3 + of_nat (4096 * n)) (set_entries n m) (of_nat x)"
    by (simp add: set_entries_def)
  also have "\<dots> = set_entries n m (of_nat x)" using Suc.prems assms(2) by (intro put_entry_outside) auto
  finally show ?case using Suc by auto
qed (simp add: set_entries_def)

text \<open>The tables as the processor reads them.\<close>

definition boot_entry :: "nat \<Rightarrow> u64" where
  "boot_entry b = (if b = 0x10000 then 0x11003 else if b = 0x10FF8 then 0x12003 else if b = 0x11000 then 0x13003
     else if b = 0x12FF0 then 0x13003 else if b = 0x13000 then 0x14003
     else if 0x14000 \<le> b then of_nat (3 + 4096 * ((b - 0x14000) div 8)) else 0)"

lemma boot_tables_load:
  assumes "0x10000 \<le> b" "b < 0x15000" "8 dvd b"
  shows "load64 (boot_tables m) (of_nat b) = boot_entry b"
proof -
  have apart: "a = b \<or> a + 8 \<le> b \<or> b + 8 \<le> a" if "8 dvd a" for a :: nat using that assms(3) by presburger
  have ld: "load64 (put_entry (of_nat a) v m) (of_nat b) = (if a = b then ucast v else load64 m (of_nat b))"
    if "8 dvd a" "a < 0x20000" for a v m
    using put_entry_load [of a b v m] apart [OF that(1)] that(2) assms(2) by simp
  note put = ld [of "0x10000", simplified] ld [of "0x10FF8", simplified] ld [of "0x11000", simplified]
    ld [of "0x12FF0", simplified] ld [of "0x13000", simplified]
  have zero: "load64 (clear_dwords 4096 m) (of_nat b) = 0" if "b < 0x14000"
  proof -
    have "load64 (clear_dwords 4096 m) (of_nat b) = load64 (\<lambda>_. 0) (of_nat b)"
      using assms that by (intro load64_of_nat_cong) (auto simp: clear_dwords_apply elim!: dvdE)
    then show ?thesis by (simp add: load64_def load_le_zero)
  qed
  define up where "up = put_entry 0x13000 0x14003 (put_entry 0x12FF0 0x13003 (put_entry 0x11000 0x13003
    (put_entry 0x10FF8 0x12003 (put_entry 0x10000 0x11003 (clear_dwords 4096 m)))))"
  have "load64 up (of_nat b) = (if b = 0x13000 then ucast (0x14003 :: u32) else if b = 0x12FF0 then ucast (0x13003 :: u32)
      else if b = 0x11000 then ucast (0x13003 :: u32) else if b = 0x10FF8 then ucast (0x12003 :: u32)
      else if b = 0x10000 then ucast (0x11003 :: u32) else load64 (clear_dwords 4096 m) (of_nat b))"
    unfolding up_def put ..
  note up = this
  have "boot_tables m = set_entries 512 up" by (simp add: boot_tables_def up_def Let_def)
  then have eq: "load64 (boot_tables m) (of_nat b) =
      (if 0x14000 \<le> b then of_nat (3 + 4096 * ((b - 0x14000) div 8)) else load64 up (of_nat b))"
    using assms by (simp add: set_entries_load)
  show ?thesis unfolding eq boot_entry_def up using assms zero by auto
qed

lemma boot_tables_outside:
  assumes "\<not> (0x10000 \<le> unat x \<and> unat x < 0x15000)"
  shows "boot_tables m x = m x"
proof -
  define a where "a = unat x"
  have x: "x = of_nat a" "a < 2 ^ 64" using unat_u64_less [of x] by (simp_all add: a_def)
  have out: "put_entry (of_nat b) v m (of_nat a) = m (of_nat a)" if "0x10000 \<le> b" "b + 8 \<le> 0x15000" for b v m
    using put_entry_outside [of b a v m] x(2) that assms by (auto simp: a_def)
  note put = out [of "0x10000", simplified] out [of "0x10FF8", simplified] out [of "0x11000", simplified]
    out [of "0x12FF0", simplified] out [of "0x13000", simplified]
  have "set_entries 512 m' (of_nat a) = m' (of_nat a)" for m' using assms x(2) by (intro set_entries_outside) (auto simp: a_def)
  moreover have "clear_dwords 4096 m (of_nat a) = m (of_nat a)" using assms x(2) by (subst clear_dwords_apply) (auto simp: a_def)
  ultimately show ?thesis unfolding x(1) boot_tables_def Let_def by (simp add: put)
qed

text \<open>Memory in which the tables stand; a write anywhere else leaves them standing.\<close>

definition tables_stand :: "memory \<Rightarrow> bool" where
  "tables_stand m \<longleftrightarrow> boot_tables m = m"

lemma boot_tables_same:
  assumes "0x10000 \<le> unat x" "unat x < 0x15000"
  shows "boot_tables m x = boot_tables m' x"
proof (rule bit_word_eqI)
  fix n assume n: "n < LENGTH(8)"
  define b r where "b = 8 * (unat x div 8)" and "r = unat x mod 8"
  have "b + r = unat x" by (simp add: b_def r_def)
  then have x: "x = of_nat b + of_nat r" "r < 8" by (simp_all add: r_def of_nat_add [symmetric] del: of_nat_add)
  have b: "0x10000 \<le> b" "b < 0x15000" "8 dvd b" using assms by (auto simp: b_def)
  have "bit (w x) n = bit (load64 w (of_nat b)) (8 * r + n)" for w
    using n x(2) by (simp add: load64_def bit_load_le x(1))
  then show "bit (boot_tables m x) n = bit (boot_tables m' x) n" using boot_tables_load [OF b] by simp
qed

lemma tables_stand_boot: "tables_stand (boot_tables m)"
  unfolding tables_stand_def using boot_tables_same boot_tables_outside by (intro ext) metis

lemma tables_stand_write:
  assumes "tables_stand m" "0x15000 \<le> unat p"
  shows "tables_stand (m(p := b))"
  unfolding tables_stand_def
proof
  fix x
  show "boot_tables (m(p := b)) x = (m(p := b)) x"
  proof (cases "0x10000 \<le> unat x \<and> unat x < 0x15000")
    case True
    then have "x \<noteq> p" using assms(2) by auto
    moreover have "boot_tables (m(p := b)) x = boot_tables m x" using True by (intro boot_tables_same) simp_all
    ultimately show ?thesis using assms(1) by (simp add: tables_stand_def)
  qed (simp add: boot_tables_outside)
qed

section \<open>The boot map\<close>

lemma unat_GET_BITS: "n < 2 ^ 64 \<Longrightarrow> unat (GET_BITS (of_nat n) pos len) = n div 2 ^ pos mod 2 ^ len"
proof -
  assume "n < 2 ^ 64"
  then have "unat (of_nat n :: u64) = n" by (rule unat_of_nat_u64)
  moreover have "GET_BITS (of_nat n) pos len = take_bit len (drop_bit pos (of_nat n))"
    by (rule bit_word_eqI) (auto simp: bit_GET_BITS bit_take_bit_iff bit_drop_bit_eq)
  ultimately show ?thesis by (simp only: unsigned_take_bit_eq unat_drop_bit_eq) (simp add: take_bit_eq_mod drop_bit_eq_div)
qed

lemma entry_target_table_word:
  assumes "i < 2 ^ 20"
  shows "entry_target (of_nat (3 + 4096 * i)) = Some (of_nat (4096 * i))"
proof -
  have n: "3 + 4096 * i < 2 ^ 64" using assms by simp
  have "3 + 4096 * i = 1 + (1 + 2048 * i) * 2" by simp
  then have "(3 + 4096 * i) mod 2 = 1" by (simp only: mod_mult_self1) simp
  moreover have "(3 + 4096 * i) div 4096 = i" by simp
  ultimately have parts: "(3 + 4096 * i) div 2 ^ 0 mod 2 ^ 1 = 1" "(3 + 4096 * i) div 2 ^ 12 mod 2 ^ 39 = i" using assms by simp_all
  have "GET_BITS (of_nat (3 + 4096 * i)) 0 1 \<noteq> 0"
    using unat_GET_BITS [OF n, of 0 1] unfolding parts(1) by (metis unat_0 zero_neq_one)
  moreover have "GET_BITS (of_nat (3 + 4096 * i)) 12 39 = of_nat i"
    using unat_GET_BITS [OF n, of 12 39] unfolding parts(2) by (metis of_nat_unat ucast_id)
  ultimately have "entry_target (of_nat (3 + 4096 * i)) = Some (push_bit 12 (of_nat i))" by (simp only: entry_target_def if_False)
  then show ?thesis by (simp only:) (simp add: push_bit_eq_mult)
qed

lemmas boot_targets = entry_target_table_word [of 17, simplified] entry_target_table_word [of 18, simplified]
  entry_target_table_word [of 19, simplified] entry_target_table_word [of 20, simplified]

lemma walk_boot:
  assumes "r + 8 * k < 0x15000" "0x10000 \<le> r" "8 dvd r"
  shows "walk (boot_view (boot_tables m)) (of_nat r) (k # ks) =
    (case entry_target (boot_entry (r + 8 * k)) of None \<Rightarrow> None | Some a \<Rightarrow> walk (boot_view (boot_tables m)) a ks)"
proof -
  have "k_ptov (of_nat r) + of_nat (8 * k) = k_ptov (of_nat (r + 8 * k))" by (simp add: k_ptov_def)
  then have "load64 (boot_view (boot_tables m)) (k_ptov (of_nat r) + of_nat (8 * k)) = boot_entry (r + 8 * k)"
    using boot_tables_load [of "r + 8 * k" m] load_boot_view [of "r + 8 * k" "boot_tables m"] assms by simp
  then show ?thesis by simp
qed

lemma path_low:
  assumes "a < 2 ^ 21"
  shows "path (of_nat a) = [0, 0, 0, a div 4096]"
proof -
  have "unat (of_nat a :: u64) = a" using assms by (intro unat_of_nat_u64) simp
  moreover have "a div 4096 < 512" using assms by (simp add: div_less_iff_less_mult)
  ultimately show ?thesis using assms
    unfolding path_def GET_PML4_OFS_def GET_PML3_OFS_def GET_PML2_OFS_def GET_PML1_OFS_def list.map unat_index by simp
qed

text \<open>From the last table every page of the first two megabytes leads to itself; the other slots of the upper tables are empty.\<close>

lemma walk_boot_top:
  assumes "k < 512"
  shows "walk (boot_view (boot_tables m)) 0x14000 [k] = Some (of_nat (4096 * k))"
    "walk (boot_view (boot_tables m)) 0x13000 (k # ks) = (if k = 0 then walk (boot_view (boot_tables m)) 0x14000 ks else None)"
    "walk (boot_view (boot_tables m)) 0x12000 (k # ks) = (if k = 510 then walk (boot_view (boot_tables m)) 0x13000 ks else None)"
    "walk (boot_view (boot_tables m)) 0x11000 (k # ks) = (if k = 0 then walk (boot_view (boot_tables m)) 0x13000 ks else None)"
    "walk (boot_view (boot_tables m)) 0x10000 (k # ks) = (if k = 0 then walk (boot_view (boot_tables m)) 0x11000 ks
       else if k = 511 then walk (boot_view (boot_tables m)) 0x12000 ks else None)"
proof -
  have last: "entry_target (boot_entry (0x14000 + 8 * k)) = Some (of_nat (4096 * k))"
    using entry_target_table_word [of k] assms by (simp add: boot_entry_def)
  show "walk (boot_view (boot_tables m)) 0x14000 [k] = Some (of_nat (4096 * k))"
    using walk_boot [of "0x14000" k m "[]"] last assms by simp
  show "walk (boot_view (boot_tables m)) 0x13000 (k # ks) = (if k = 0 then walk (boot_view (boot_tables m)) 0x14000 ks else None)"
    using walk_boot [of "0x13000" k m ks] assms by (auto simp: boot_entry_def boot_targets)
  show "walk (boot_view (boot_tables m)) 0x12000 (k # ks) = (if k = 510 then walk (boot_view (boot_tables m)) 0x13000 ks else None)"
    using walk_boot [of "0x12000" k m ks] assms by (auto simp: boot_entry_def boot_targets)
  show "walk (boot_view (boot_tables m)) 0x11000 (k # ks) = (if k = 0 then walk (boot_view (boot_tables m)) 0x13000 ks else None)"
    using walk_boot [of "0x11000" k m ks] assms by (auto simp: boot_entry_def boot_targets)
  show "walk (boot_view (boot_tables m)) 0x10000 (k # ks) = (if k = 0 then walk (boot_view (boot_tables m)) 0x11000 ks
       else if k = 511 then walk (boot_view (boot_tables m)) 0x12000 ks else None)"
    using walk_boot [of "0x10000" k m ks] assms by (auto simp: boot_entry_def boot_targets)
qed

lemma boot_map:
  assumes "a < 2 ^ 31"
  shows "translate (boot_view (boot_tables m)) 0x10000 (k_ptov (of_nat a)) = (if a < 2 ^ 21 then Some (of_nat a) else None)"
    "a < 2 ^ 21 \<Longrightarrow> translate (boot_view (boot_tables m)) 0x10000 (of_nat a) = Some (of_nat a)"
proof -
  define k where "k = a div 4096"
  have sum: "of_nat (4096 * k) + of_nat (a mod 4096) = (of_nat a :: u64)"
    by (simp add: k_def of_nat_add [symmetric] del: of_nat_add of_nat_mult)
  show "translate (boot_view (boot_tables m)) 0x10000 (k_ptov (of_nat a)) = (if a < 2 ^ 21 then Some (of_nat a) else None)"
  proof (cases "a < 2 ^ 21")
    case True
    then have "path (k_ptov (of_nat a)) = [511, 510, 0, k]" "k < 512"
      using path_k_ptov [OF assms] by (auto simp: direct_path_def k_def div_less_iff_less_mult)
    then show ?thesis using True sum offset_k_ptov [OF assms] by (simp add: translate_def walk_boot_top del: walk.simps)
  next
    case False
    have p: "path (k_ptov (of_nat a)) = [511, 510 + a div 2 ^ 30, a div 2 ^ 21 mod 512, a div 2 ^ 12 mod 512]"
      using path_k_ptov [OF assms] by (simp add: direct_path_def)
    have "a div 2 ^ 30 < 2" using assms by (simp add: div_less_iff_less_mult)
    moreover have "0 < a div 2 ^ 21 mod 512" if "a div 2 ^ 30 = 0"
    proof -
      have "a div 2 ^ 21 < 512" "0 < a div 2 ^ 21" using that False by (simp_all add: div_eq_0_iff div_less_iff_less_mult div_greater_zero_iff)
      then show ?thesis by simp
    qed
    ultimately show ?thesis using False unfolding translate_def p by (simp add: walk_boot_top del: walk.simps)
  qed
  show "translate (boot_view (boot_tables m)) 0x10000 (of_nat a) = Some (of_nat a)" if "a < 2 ^ 21"
  proof -
    have "(0xFFF :: u64) = mask 12" by (simp add: mask_numeral)
    then have "GET_OFS (of_nat a) = take_bit 12 (of_nat a)" by (simp only: GET_OFS_def take_bit_eq_mask)
    moreover have "unat (of_nat a :: u64) = a" "unat (of_nat (a mod 4096) :: u64) = a mod 4096"
      using that mod_less_divisor [of 4096 a] by (intro unat_of_nat_u64; simp)+
    ultimately have ofs: "GET_OFS (of_nat a) = of_nat (a mod 4096)" by (simp add: word_unat_eq_iff take_bit_eq_mod unat_mod)
    have "k < 512" using that by (simp add: k_def div_less_iff_less_mult)
    then show ?thesis
      unfolding translate_def path_low [OF that] k_def [symmetric] ofs using sum by (simp add: walk_boot_top del: walk.simps)
  qed
qed

text \<open>All of the canonical address space: the first two megabytes, at their own addresses and at the kernel's, and
  nothing else.\<close>

lemma path_indices:
  "path v = [unat v div 2 ^ 39 mod 512, unat v div 2 ^ 30 mod 512, unat v div 2 ^ 21 mod 512, unat v div 2 ^ 12 mod 512]"
  unfolding path_def GET_PML4_OFS_def GET_PML3_OFS_def GET_PML2_OFS_def GET_PML1_OFS_def list.map unat_index by simp

lemma boot_walk_none:
  assumes "i4 < 512" "i3 < 512" "i2 < 512" "i4 = 0 \<Longrightarrow> i3 = 0 \<Longrightarrow> i2 \<noteq> 0" "i4 = 511 \<Longrightarrow> i3 \<noteq> 510"
  shows "walk (boot_view (boot_tables m)) 0x10000 [i4, i3, i2, i1] = None"
  using assms by (auto simp: walk_boot_top simp del: walk.simps)

text \<open>The indices of a canonical address outside both windows: not all three upper ones zero, not those of the kernel.\<close>

lemma outside_indices:
  fixes u :: nat
  assumes "u < 2 ^ 47 \<or> 2 ^ 64 - 2 ^ 47 \<le> u" "2 ^ 21 \<le> u" "u < 2 ^ 64 - 2 ^ 31"
  shows "u div 2 ^ 39 mod 512 = 0 \<Longrightarrow> u div 2 ^ 30 mod 512 = 0 \<Longrightarrow> u div 2 ^ 21 mod 512 \<noteq> 0"
    "u div 2 ^ 39 mod 512 = 511 \<Longrightarrow> u div 2 ^ 30 mod 512 \<noteq> 510"
proof -
  define q where "q = u div 2 ^ 21"
  have parts: "u div 2 ^ 30 = q div 512" "u div 2 ^ 39 = q div 512 div 512"
    by (simp_all add: q_def div_mult2_eq [symmetric])
  have split: "q = 512 * (q div 512) + q mod 512" "q div 512 = 512 * (q div 512 div 512) + q div 512 mod 512"
    "q div 512 div 512 = 512 * (q div 512 div 512 div 512) + q div 512 div 512 mod 512" by simp_all
  have u: "2097152 * q \<le> u" "u < 2097152 * q + 2097152"
    using mult_div_mod_eq [of 2097152 u] mod_less_divisor [of 2097152 u] by (simp_all add: q_def)
  note bounds = assms [simplified]
  define k where "k = q div 512 div 512 div 512"
  have k: "k = 0 \<or> 1 \<le> k \<and> k \<le> 65534 \<or> k = 65535 \<or> 65536 \<le> k" by linarith
  show "u div 2 ^ 21 mod 512 \<noteq> 0" if "u div 2 ^ 39 mod 512 = 0" "u div 2 ^ 30 mod 512 = 0"
  proof
    assume "u div 2 ^ 21 mod 512 = 0"
    then have "q = 134217728 * k" using split that unfolding parts q_def [symmetric] k_def by linarith
    then show False using k u bounds by linarith
  qed
  show "u div 2 ^ 30 mod 512 \<noteq> 510" if "u div 2 ^ 39 mod 512 = 511"
  proof
    assume "u div 2 ^ 30 mod 512 = 510"
    then have "q div 512 = 262144 * k + 262142" using split that unfolding parts k_def by linarith
    moreover have "512 * (q div 512) \<le> q" "q < 512 * (q div 512) + 512" using split(1) mod_less_divisor [of 512 q] by linarith+
    ultimately show False using k u bounds by linarith
  qed
qed

lemma boot_map_all:
  assumes "unat v < 2 ^ 47 \<or> 2 ^ 64 - 2 ^ 47 \<le> unat v"
  shows "translate (boot_view (boot_tables m)) 0x10000 v =
    (if unat v < 2 ^ 21 then Some v else if PHYS_BASE \<le> v \<and> unat (k_vtop v) < 2 ^ 21 then Some (k_vtop v) else None)"
proof -
  define u where "u = unat v"
  have lt: "u < 2 ^ 64" unfolding u_def by (rule unat_u64_less)
  consider "u < 2 ^ 21" | "2 ^ 21 \<le> u" "u < 2 ^ 64 - 2 ^ 31" | "2 ^ 64 - 2 ^ 31 \<le> u" by linarith
  then show ?thesis
  proof cases
    case 1
    then show ?thesis using boot_map(2) [of u m] by (simp add: u_def)
  next
    case 2
    have "walk (boot_view (boot_tables m)) 0x10000 (path v) = None"
      unfolding path_indices u_def [symmetric]
      by (rule boot_walk_none) (use outside_indices [OF assms [folded u_def] 2] in simp_all)
    moreover have "\<not> PHYS_BASE \<le> v" using 2(2) by (simp add: word_le_nat_alt u_def)
    ultimately show ?thesis using 2(1) by (simp add: translate_def u_def)
  next
    case 3
    define a where "a = u - (2 ^ 64 - 2 ^ 31)"
    have a: "a < 2 ^ 31" "unat (k_vtop v) = a" "k_ptov (of_nat a) = v" "of_nat a = k_vtop v"
    proof -
      show "a < 2 ^ 31" using lt by (simp add: a_def)
      show "unat (k_vtop v) = a" using 3 unfolding k_vtop_def by (subst unat_sub) (simp_all add: word_le_nat_alt a_def u_def)
      then show "of_nat a = k_vtop v" by auto
      then show "k_ptov (of_nat a) = v" by simp
    qed
    have "PHYS_BASE \<le> v" using 3 by (simp add: word_le_nat_alt u_def)
    then show ?thesis using boot_map(1) [OF a(1), of m] a 3 by (simp add: u_def)
  qed
qed

lemma tables_stand_map:
  assumes "tables_stand m" "a < 2 ^ 21"
  shows "translate (boot_view m) 0x10000 (k_ptov (of_nat a)) = Some (of_nat a)"
  using boot_map(1) [of a m] assms by (simp add: tables_stand_def)

end
