(* ===== verification/Bootimage.thy ===== *)
theory Bootimage
  imports Bootmap
begin

text \<open>
  The run of the second stage of the boot loader (\<^verbatim>\<open>src/loader/boot1/main.c\<close>) from the kernel's
  image on the disk to the jump into the kernel. The specification is the image as one sequence of bytes:
  the headers and segments the loader finds are those of the image, and what it leaves in memory are the
  sectors of the segments and the boot information.
\<close>

section \<open>Definitions\<close>

text \<open>The kernel's image: the bytes of the disk from \<^verbatim>\<open>KERNEL_START_SECTOR\<close> on.\<close>

definition image :: "machine \<Rightarrow> memory" where
  "image mc a = sector_byte mc KERNEL_START_SECTOR (unat a)"

definition image_ehdr :: "machine \<Rightarrow> Elf64_Ehdr" where
  "image_ehdr mc = load_ehdr (image mc) 0"

definition image_phdr :: "machine \<Rightarrow> nat \<Rightarrow> Elf64_Phdr" where
  "image_phdr mc i = load_phdr (image mc) (e_phoff (image_ehdr mc) + of_nat (i * unat (e_phentsize (image_ehdr mc))))"

definition segment_of :: "Elf64_Phdr \<Rightarrow> load_info_t" where
  "segment_of p = \<lparr>bytes = ucast (p_filesz p), load_addr = ucast (p_paddr p), offset = ucast (p_offset p)\<rparr>"

text \<open>The loadable segments among the first \<open>n\<close> program headers.\<close>

definition segments_upto :: "machine \<Rightarrow> nat \<Rightarrow> load_info_t list" where
  "segments_upto mc n = map segment_of (filter (\<lambda>p. p_type p = PT_LOAD) (map (image_phdr mc) [0..<n]))"

definition segments :: "machine \<Rightarrow> load_info_t list" where
  "segments mc = segments_upto mc (unat (e_phnum (image_ehdr mc)))"

text \<open>The multiboot header in \<^verbatim>\<open>src/kernel/startup.S\<close>, as the 32-bit words it assembles to.\<close>

definition multiboot_hdr :: "u32 list" where
  "multiboot_hdr =
     [MULTIBOOT2_HEADER_MAGIC, 0, 88, - (MULTIBOOT2_HEADER_MAGIC + 0 + 88),
      1, 16, MULTIBOOT_TAG_TYPE_BASIC_MEMINFO, MULTIBOOT_TAG_TYPE_MMAP,
      6, 8,
      4, 12, 3, 0,
      5, 20, 0, 0, 32, 0,
      0, 8]"

section \<open>Equal bytes at two places\<close>

definition agree :: "memory \<Rightarrow> addr \<Rightarrow> memory \<Rightarrow> addr \<Rightarrow> nat \<Rightarrow> bool" where
  "agree m a m' b n \<longleftrightarrow> (\<forall>i<n. m (a + of_nat i) = m' (b + of_nat i))"

lemma agree_load:
  assumes "agree m a m' b n" "j + k \<le> n"
  shows "(load_le k m (a + of_nat j) :: 'a::len word) = load_le k m' (b + of_nat j)"
proof (rule bit_word_eqI)
  fix i
  have "m (a + of_nat (j + i div 8)) = m' (b + of_nat (j + i div 8))" if "i < 8 * k"
  proof -
    have "j + i div 8 < n" using that assms(2) by auto
    then show ?thesis using assms(1) unfolding agree_def by blast
  qed
  then show "bit (load_le k m (a + of_nat j) :: 'a word) i = bit (load_le k m' (b + of_nat j) :: 'a word) i"
    by (auto simp: bit_load_le add.assoc)
qed

lemmas agree_fields = agree_load [where j = "numeral _", simplified]

lemma agree_phdr: "agree m a m' b 56 \<Longrightarrow> load_phdr m a = load_phdr m' b"
  using agree_load [of m a m' b 56 0 4]
  by (simp add: load_phdr_def load32_def load64_def agree_fields)

lemma agree_ehdr: "agree m a m' b 64 \<Longrightarrow> load_ehdr m a = load_ehdr m' b"
  by (simp add: load_ehdr_def load16_def load32_def load64_def agree_fields) (simp add: agree_def)

lemma load16_low: "load16 m a = ucast (load32 m a)"
  by (rule bit_word_eqI) (auto simp: load16_def load32_def bit_load_le bit_ucast_iff)

section \<open>Reading the headers\<close>

text \<open>Memory outside the disk buffer.\<close>

definition buffered :: "memory \<Rightarrow> memory \<Rightarrow> bool" where
  "buffered m m' \<longleftrightarrow> (\<forall>x. \<not> (0x8000 \<le> unat x \<and> unat x < 0xB000) \<longrightarrow> m' x = m x)"

lemma buffered_refl [simp]: "buffered m m"
  by (simp add: buffered_def)

lemma buffered_trans: "buffered m m' \<Longrightarrow> buffered m' m'' \<Longrightarrow> buffered m m''"
  by (auto simp: buffered_def)

lemma all_addr: "(\<forall>x. P x) \<longleftrightarrow> (\<forall>a < 2 ^ 64. P (of_nat a :: addr))"
  by (metis of_nat_unat ucast_id unat_u64_less)

lemma unat_image: "d < 2 ^ 64 \<Longrightarrow> image mc (of_nat d) = sector_byte mc 12 d"
  by (simp add: image_def unat_of_nat_u64)

lemma sectors_image:
  assumes "unat c \<le> 24" "disk_works mc"
  shows "\<exists>m'. load_sector_asm mc 12 c m = Inr m' \<and> agree m' 0x8000 (image mc) 0 (512 * unat c) \<and> buffered m m'"
proof -
  obtain m' where m': "load_sector_asm mc 12 c m = Inr m'" and read: "\<And>a. a < 2 ^ 64 \<Longrightarrow> m' (of_nat a) =
      (if 0x8000 \<le> a \<and> a < 0x8000 + 512 * unat c then sector_byte mc 12 (a - 0x8000) else m (of_nat a))"
    using load_sector_asm_reads [of 12 c mc m] assms by auto
  have "m' (0x8000 + of_nat i) = image mc (0 + of_nat i)" if "i < 512 * unat c" for i
    using read [of "0x8000 + i"] that assms by (simp add: unat_image)
  moreover have "buffered m m'" unfolding buffered_def using read assms by (subst all_addr) (auto simp: unat_of_nat_u64)
  ultimately show ?thesis using m' by (simp add: agree_def)
qed

text \<open>What the loader changes while it reads the headers: the disk buffer and the trace.\<close>

definition only_read :: "loader \<Rightarrow> loader \<Rightarrow> bool" where
  "only_read s s' \<longleftrightarrow> buffered (ld_mem s) (ld_mem s') \<and> mmap_calls s' = mmap_calls s"

lemma only_read_refl [simp]: "only_read s s"
  by (simp add: only_read_def)

lemma only_read_trans: "only_read s s' \<Longrightarrow> only_read s' s'' \<Longrightarrow> only_read s s''"
  by (auto simp: only_read_def intro: buffered_trans)

definition talks :: "machine \<Rightarrow> bool" where
  "talks mc \<longleftrightarrow> (\<forall>str args t. \<exists>t'. console mc str args t = Inr t')"

lemma say_returns:
  assumes "talks mc"
  obtains t where "say mc str args s = Inr (s\<lparr>ld_io := t\<rparr>)"
  using assms unfolding talks_def say_def by (metis bindR_simps(2))

text \<open>The program headers lie in the first sector, behind the file header.\<close>

definition phdrs_fit :: "machine \<Rightarrow> bool" where
  "phdrs_fit mc \<longleftrightarrow> 56 \<le> unat (e_phentsize (image_ehdr mc)) \<and> 64 \<le> unat (e_phoff (image_ehdr mc)) \<and>
     unat (e_phoff (image_ehdr mc)) + unat (e_phnum (image_ehdr mc)) * unat (e_phentsize (image_ehdr mc)) \<le> 512"

lemma ptr_buffer:
  assumes "d < 512"
  shows "ptr (ucast (0x8000 + of_nat d :: u64)) = 0x8000 + of_nat d"
proof -
  have "unat (0x8000 + of_nat d :: u64) = 0x8000 + d" using assms by (simp add: unat_word_ariths unat_of_nat)
  then show ?thesis
    using assms by (simp add: word_unat_eq_iff unat_ptr unsigned_ucast_eq take_bit_nat_eq_self)
qed

lemma agree_shift:
  assumes "agree m a m' b n" "d + k \<le> n"
  shows "agree m (a + of_nat d) m' (b + of_nat d) k"
  unfolding agree_def
proof (intro allI impI)
  fix i assume "i < k"
  then have "m (a + of_nat (d + i)) = m' (b + of_nat (d + i))" using assms unfolding agree_def by (metis add_less_cancel_left order_less_le_trans)
  then show "m (a + of_nat d + of_nat i) = m' (b + of_nat d + of_nat i)" by (simp add: add.assoc)
qed

lemma read_phdr_image:
  assumes disk: "disk_works mc" and fit: "phdrs_fit mc" and i: "i < unat (e_phnum (image_ehdr mc))" and talk: "talks mc"
    and room: "length linfo < 5 \<or> p_type (image_phdr mc i) \<noteq> PT_LOAD"
  shows "\<exists>s'. read_phdr mc (image_ehdr mc) i (linfo, s) =
      Inr (linfo @ (if p_type (image_phdr mc i) = PT_LOAD then [segment_of (image_phdr mc i)] else []), s') \<and> only_read s s'"
proof -
  let ?e = "image_ehdr mc"
  define z off pos where "z = unat (e_phentsize ?e)" and "off = unat (e_phoff ?e)" and "pos = i * z"
  have z: "56 \<le> z" "64 \<le> off" "off + unat (e_phnum ?e) * z \<le> 512" using fit by (simp_all add: phdrs_fit_def z_def off_def)
  have "pos + z \<le> unat (e_phnum ?e) * z" using mult_le_mono1 [of "Suc i" "unat (e_phnum ?e)" z] i by (simp add: pos_def)
  then have pos: "off + pos + 56 \<le> 512" "pos < 512" "z < 512" using z by simp_all
  obtain m where m: "load_sector_asm mc 12 2 (ld_mem s) = Inr m" "agree m 0x8000 (image mc) 0 1024" "buffered (ld_mem s) m"
    using sectors_image [of 2 mc "ld_mem s"] disk by auto
  have "unat ((e_phoff ?e + of_nat pos) mod 512) = off + pos"
    using pos z(2) by (simp add: unat_mod unat_word_ariths off_def unat_of_nat)
  then have "(e_phoff ?e + of_nat pos) mod 512 = of_nat (off + pos)" by (metis of_nat_unat ucast_id)
  then have at: "ptr (ucast (0x8000 + (e_phoff ?e + of_nat pos) mod 512)) = 0x8000 + of_nat (off + pos)"
    using ptr_buffer [of "off + pos"] pos by simp
  have "agree m (0x8000 + of_nat (off + pos)) (image mc) (of_nat (off + pos)) 56"
    using m(2) agree_shift [of m "0x8000" "image mc" 0 1024 "off + pos" 56] pos by simp
  then have ph: "load_phdr m (ptr (ucast (0x8000 + (e_phoff ?e + of_nat pos) mod 512))) = image_phdr mc i"
    unfolding at by (simp add: agree_phdr image_phdr_def z_def [symmetric] pos_def [symmetric] off_def)
  have code: "read_phdr mc ?e i (linfo, s) =
      (if p_type (image_phdr mc i) = PT_LOAD then
         if length linfo < 5 then
           bindR (say mc (''Linfo[%d] = %x'' @ [LF, CR]) [of_nat (length linfo), ucast (load_addr (segment_of (image_phdr mc i)))] (s\<lparr>ld_mem := m\<rparr>))
             (\<lambda>s. Inr (linfo @ [segment_of (image_phdr mc i)], s))
         else Inl Out_of_bounds
       else Inr (linfo, s\<lparr>ld_mem := m\<rparr>))"
    using m(1) pos(2,3) unfolding read_phdr_def z_def [symmetric] pos_def [symmetric]
    by (simp add: ph segment_of_def Let_def)
  obtain t where t: "say mc (''Linfo[%d] = %x'' @ [LF, CR]) [of_nat (length linfo), ucast (load_addr (segment_of (image_phdr mc i)))]
      (s\<lparr>ld_mem := m\<rparr>) = Inr (s\<lparr>ld_mem := m, ld_io := t\<rparr>)"
    using say_returns [OF talk] by blast
  show ?thesis
  proof (cases "p_type (image_phdr mc i) = PT_LOAD")
    case True
    then show ?thesis using code room m(3) t
      by (intro exI [of _ "s\<lparr>ld_mem := m, ld_io := t\<rparr>"]) (simp add: only_read_def)
  next
    case False
    then show ?thesis using code m(3) by (intro exI [of _ "s\<lparr>ld_mem := m\<rparr>"]) (simp add: only_read_def)
  qed
qed

lemma segments_upto_Suc:
  "segments_upto mc (Suc k) = segments_upto mc k @ (if p_type (image_phdr mc k) = PT_LOAD then [segment_of (image_phdr mc k)] else [])"
  by (simp add: segments_upto_def)

lemma read_phdrs:
  assumes disk: "disk_works mc" and "phdrs_fit mc" "talks mc" "k \<le> unat (e_phnum (image_ehdr mc))" "length (segments_upto mc k) \<le> 5"
  shows "\<exists>s'. foldR (read_phdr mc (image_ehdr mc)) [0..<k] ([], s) = Inr (segments_upto mc k, s') \<and> only_read s s'"
  using assms(4,5)
proof (induction k)
  case 0
  then show ?case by (simp add: segments_upto_def)
next
  case (Suc k)
  obtain s1 where s1: "foldR (read_phdr mc (image_ehdr mc)) [0..<k] ([], s) = Inr (segments_upto mc k, s1)" "only_read s s1"
    using Suc by (auto simp: segments_upto_Suc split: if_splits)
  have "length (segments_upto mc k) < 5 \<or> p_type (image_phdr mc k) \<noteq> PT_LOAD"
    using Suc.prems(2) by (auto simp: segments_upto_Suc split: if_splits)
  then obtain s' where "read_phdr mc (image_ehdr mc) k (segments_upto mc k, s1) = Inr (segments_upto mc (Suc k), s')" "only_read s1 s'"
    using read_phdr_image [OF disk assms(2) _ assms(3), of k "segments_upto mc k" s1] Suc.prems(1) by (auto simp: segments_upto_Suc)
  then show ?case using s1 only_read_trans by (subst foldR_upt_Suc) auto
qed

section \<open>Loading the segments\<close>

text \<open>A segment is copied in whole sectors, from the sector its offset lies in.\<close>

definition footprint :: "load_info_t \<Rightarrow> nat" where
  "footprint li = 512 * (unat (bytes li) div 512 + 1)"

definition covers :: "load_info_t \<Rightarrow> addr \<Rightarrow> bool" where
  "covers li x \<longleftrightarrow> unat (load_addr li) \<le> unat x \<and> unat x < unat (load_addr li) + footprint li"

definition segment_fits :: "load_info_t \<Rightarrow> bool" where
  "segment_fits li \<longleftrightarrow> 0x100000 \<le> unat (load_addr li) \<and> unat (load_addr li) + footprint li < 2 ^ 32 \<and>
     12 + unat (offset li) div 512 + unat (bytes li) div 512 + 1 \<le> 2 ^ 15"

definition loaded :: "machine \<Rightarrow> memory \<Rightarrow> load_info_t \<Rightarrow> bool" where
  "loaded mc m li \<longleftrightarrow> (\<forall>i < footprint li.
     m (ptr (load_addr li) + of_nat i) = image mc (of_nat (512 * (unat (offset li) div 512) + i)))"

lemma load_segment_image:
  assumes disk: "disk_works mc" and fits: "segment_fits li"
  shows "\<exists>s'. load_segment mc li s = Inr s' \<and> loaded mc (ld_mem s') li \<and> mmap_calls s' = mmap_calls s \<and>
    (\<forall>x. \<not> covers li x \<and> \<not> (0x8000 \<le> unat x \<and> unat x < 0xB000) \<longrightarrow> ld_mem s' x = ld_mem s x)"
proof -
  define sec n where "sec = (ucast (of_nat 12 + drop_bit 9 (offset li) :: u32) :: u16)"
    and "n = (ucast (drop_bit 9 (bytes li) + 1 :: u32) :: u16)"
  let ?a = "load_addr li"
  have q: "unat (drop_bit 9 w :: u32) = unat w div 512" for w by (simp add: drop_bit_eq_div unat_div)
  have lim: "unat (offset li) div 512 < 2 ^ 15" "unat (bytes li) div 512 < 2 ^ 15" using fits by (simp_all add: segment_fits_def)
  have sec: "unat sec = 12 + unat (offset li) div 512"
    using lim fits unfolding sec_def by (simp add: unsigned_ucast_eq unat_word_ariths q take_bit_nat_eq_self segment_fits_def)
  have n: "unat n = unat (bytes li) div 512 + 1"
    using lim fits unfolding n_def by (simp add: unsigned_ucast_eq unat_word_ariths q take_bit_nat_eq_self segment_fits_def)
  have fp: "footprint li = 512 * unat n" by (simp add: footprint_def n)
  obtain m' where m': "load_sector mc sec n ?a (ld_mem s) = Inr m'" and bytes: "\<And>x. x < 2 ^ 64 \<Longrightarrow>
     (unat ?a \<le> x \<and> x < unat ?a + 512 * unat n \<longrightarrow> m' (of_nat x) = sector_byte mc (unat sec) (x - unat ?a)) \<and>
     (\<not> (unat ?a \<le> x \<and> x < unat ?a + 512 * unat n) \<and> \<not> (0x8000 \<le> x \<and> x < 0xB000) \<longrightarrow> m' (of_nat x) = ld_mem s (of_nat x))"
    using load_sector_copies [OF disk, of sec n ?a "ld_mem s"] fits sec n by (auto simp: segment_fits_def footprint_def)
  have "loaded mc m' li" unfolding loaded_def
  proof (intro allI impI)
    fix i assume i: "i < footprint li"
    have small: "unat ?a + i < 2 ^ 64" "512 * (unat (offset li) div 512) + i < 2 ^ 64"
      using i fits lim fp n unfolding segment_fits_def by simp_all
    have "m' (of_nat (unat ?a + i)) = sector_byte mc (unat sec) i"
      using bytes [OF small(1)] i fp by simp
    also have "\<dots> = image mc (of_nat (512 * (unat (offset li) div 512) + i))"
      using unat_image [OF small(2)] by (simp add: sec sector_byte_skip)
    finally show "m' (ptr ?a + of_nat i) = image mc (of_nat (512 * (unat (offset li) div 512) + i))"
      by (simp add: ptr_of_nat)
  qed
  moreover have "m' x = ld_mem s x" if "\<not> covers li x" "\<not> (0x8000 \<le> unat x \<and> unat x < 0xB000)" for x
    using bytes [of "unat x"] that unat_u64_less [of x] fp by (simp add: covers_def)
  moreover have "load_segment mc li s = Inr (s\<lparr>ld_mem := m'\<rparr>)"
    using m' by (simp add: load_segment_def sec_def n_def)
  ultimately show ?thesis by (intro exI [of _ "s\<lparr>ld_mem := m'\<rparr>"]) simp
qed

definition segments_apart :: "load_info_t list \<Rightarrow> bool" where
  "segments_apart lis \<longleftrightarrow> sorted_wrt (\<lambda>p q. unat (load_addr p) + footprint p \<le> unat (load_addr q) \<or>
     unat (load_addr q) + footprint q \<le> unat (load_addr p)) lis"

lemma loaded_cong:
  assumes "segment_fits li" "\<And>x. covers li x \<Longrightarrow> m' x = m x"
  shows "loaded mc m' li = loaded mc m li"
proof -
  have "covers li (ptr (load_addr li) + of_nat i)" if "i < footprint li" for i
    using that assms(1) by (simp add: covers_def segment_fits_def unat_word_ariths unat_ptr unat_of_nat)
  then show ?thesis using assms(2) by (simp add: loaded_def)
qed

lemma load_segments:
  assumes disk: "disk_works mc" and "\<forall>li \<in> set lis. segment_fits li" "segments_apart lis"
  shows "\<exists>s'. foldR (load_segment mc) lis s = Inr s' \<and> (\<forall>li \<in> set lis. loaded mc (ld_mem s') li) \<and> mmap_calls s' = mmap_calls s \<and>
    (\<forall>x. (\<forall>li \<in> set lis. \<not> covers li x) \<and> \<not> (0x8000 \<le> unat x \<and> unat x < 0xB000) \<longrightarrow> ld_mem s' x = ld_mem s x)"
  using assms(2-)
proof (induction lis arbitrary: s)
  case (Cons li lis)
  obtain s1 where s1: "load_segment mc li s = Inr s1" "loaded mc (ld_mem s1) li" "mmap_calls s1 = mmap_calls s"
    "\<And>x. \<not> covers li x \<Longrightarrow> \<not> (0x8000 \<le> unat x \<and> unat x < 0xB000) \<Longrightarrow> ld_mem s1 x = ld_mem s x"
    using load_segment_image [OF disk, of li s] Cons.prems(1) by auto
  obtain s' where s': "foldR (load_segment mc) lis s1 = Inr s'" "\<forall>li \<in> set lis. loaded mc (ld_mem s') li" "mmap_calls s' = mmap_calls s1"
    "\<And>x. (\<forall>li \<in> set lis. \<not> covers li x) \<Longrightarrow> \<not> (0x8000 \<le> unat x \<and> unat x < 0xB000) \<Longrightarrow> ld_mem s' x = ld_mem s1 x"
    using Cons.IH [of s1] Cons.prems by (auto simp: segments_apart_def)
  have fit: "segment_fits li" using Cons.prems(1) by simp
  have "ld_mem s' x = ld_mem s1 x" if "covers li x" for x
    using that Cons.prems(2) fit by (intro s'(4)) (fastforce simp: segments_apart_def covers_def segment_fits_def)+
  then have "loaded mc (ld_mem s') li" using loaded_cong [OF fit, of "ld_mem s'" "ld_mem s1"] s1(2) by simp
  then show ?case using s1 s' by auto
qed simp

section \<open>The multiboot header\<close>

definition header_at :: "memory \<Rightarrow> addr \<Rightarrow> bool" where
  "header_at m a \<longleftrightarrow> map (\<lambda>k. load32 m (a + of_nat (4 * k))) [0..<22] = multiboot_hdr"

lemma header_words:
  assumes "header_at m 0x100000"
  shows "load32 m 0x100000 = 0xE85250D6" "load32 m 0x100004 = 0" "load32 m 0x100008 = 88" "load32 m 0x10000C = - (0xE85250D6 + 88)"
    "load32 m 0x100010 = 1" "load32 m 0x100014 = 16" "load32 m 0x100018 = 4" "load32 m 0x10001C = 6"
    "load32 m 0x100020 = 6" "load32 m 0x100024 = 8" "load32 m 0x100028 = 4" "load32 m 0x10002C = 12"
    "load32 m 0x100038 = 5" "load32 m 0x10003C = 20" "load32 m 0x100050 = 0"
  using assms by (simp_all add: header_at_def multiboot_hdr_def upt_conv_Cons)

lemma header_accepted:
  assumes "header_at m 0x100000"
  shows "header_ok (load_multiboot_header m 0x100000)"
  using header_words [OF assms] by (simp add: header_ok_def load_multiboot_header_def)

lemma tags_requested_kernel:
  assumes "header_at m 0x100000"
  shows "tags_requested m 0x100000 = Inr 0x50"
proof -
  note w = header_words [OF assms]
  have req: "request_loop m 0x100010 0 0 = Some (Inr 0x50)"
    by (simp add: request_loop.simps [of m "0x100010"] header_tag_size_def header_tag_request_def w int_shl_def)
  have t: "header_tag_type m 0x100010 = 1" "header_tag_type m 0x100020 = 6" "header_tag_type m 0x100028 = 4"
    "header_tag_type m 0x100038 = 5" "header_tag_type m 0x100050 = 0"
    by (simp_all add: header_tag_type_def load16_low w)
  have n: "next_header_tag m 0x100010 = 0x100020" "next_header_tag m 0x100020 = 0x100028"
    "next_header_tag m 0x100028 = 0x100038" "next_header_tag m 0x100038 = 0x100050"
    by (simp_all add: next_header_tag_def header_tag_size_def ptr_def w)
  have "header_tag_loop m 0x100010 0 = Some (Inr 0x50)"
    by (simp add: header_tag_loop.simps [of m "0x100010"] header_tag_loop.simps [of m "0x100020"] header_tag_loop.simps [of m "0x100028"]
        header_tag_loop.simps [of m "0x100038"] header_tag_loop.simps [of m "0x100050"] t n ptr_def req)
  then show ?thesis by (simp add: tags_requested_def)
qed

section \<open>The whole run\<close>

text \<open>
  An image the loader can take over: an ELF file with its program headers in the first sector and one to
  five loadable segments, the first of them at one megabyte with the multiboot header at its start; each
  starts on a sector of the file and fits the 32-bit address space, and no two share memory.
\<close>

definition load_phdrs :: "machine \<Rightarrow> Elf64_Phdr list" where
  "load_phdrs mc = filter (\<lambda>p. p_type p = PT_LOAD) (map (image_phdr mc) [0..<unat (e_phnum (image_ehdr mc))])"

definition phdr_fits :: "Elf64_Phdr \<Rightarrow> bool" where
  "phdr_fits p \<longleftrightarrow> unat (p_filesz p) < 2 ^ 32 \<and> unat (p_paddr p) < 2 ^ 32 \<and> unat (p_offset p) < 2 ^ 32 \<and>
     unat (p_offset p) mod 512 = 0 \<and> segment_fits (segment_of p)"

definition kernel_image :: "machine \<Rightarrow> bool" where
  "kernel_image mc \<longleftrightarrow> take 4 (e_ident (image_ehdr mc)) = ELFMAG \<and> phdrs_fit mc \<and>
     load_phdrs mc \<noteq> [] \<and> length (load_phdrs mc) \<le> 5 \<and> list_all phdr_fits (load_phdrs mc) \<and>
     segments_apart (map segment_of (load_phdrs mc)) \<and> p_paddr (hd (load_phdrs mc)) = 0x100000 \<and>
     header_at (image mc) (p_offset (hd (load_phdrs mc)))"

text \<open>A segment in memory, as the ELF format has it: the bytes of the file at \<^verbatim>\<open>p_offset\<close> are at \<^verbatim>\<open>p_paddr\<close>.\<close>

definition segment_in_memory :: "machine \<Rightarrow> memory \<Rightarrow> Elf64_Phdr \<Rightarrow> bool" where
  "segment_in_memory mc m p \<longleftrightarrow> (\<forall>i < unat (p_filesz p). m (p_paddr p + of_nat i) = image mc (p_offset p + of_nat i))"

lemma segments_phdrs: "segments mc = map segment_of (load_phdrs mc)"
  by (simp add: segments_def segments_upto_def load_phdrs_def)

lemma segment_of_fields:
  assumes "phdr_fits p"
  shows "ptr (load_addr (segment_of p)) = p_paddr p" "unat (bytes (segment_of p)) = unat (p_filesz p)"
    "512 * (unat (offset (segment_of p)) div 512) = unat (p_offset p)"
proof -
  have u: "unat (ucast w :: u32) = unat w" if "unat w < 2 ^ 32" for w :: u64
    using that by (simp add: unsigned_ucast_eq take_bit_nat_eq_self)
  show "ptr (load_addr (segment_of p)) = p_paddr p" "unat (bytes (segment_of p)) = unat (p_filesz p)"
    using assms by (simp_all add: word_unat_eq_iff unat_ptr segment_of_def u phdr_fits_def)
  have "unat (offset (segment_of p)) = unat (p_offset p)" using assms by (simp add: segment_of_def u phdr_fits_def)
  then show "512 * (unat (offset (segment_of p)) div 512) = unat (p_offset p)"
    using assms mult_div_mod_eq [of 512 "unat (p_offset p)"] by (simp add: phdr_fits_def)
qed

lemma loaded_sectors:
  assumes "phdr_fits p" "loaded mc m (segment_of p)"
  shows "agree m (p_paddr p) (image mc) (p_offset p) (footprint (segment_of p))"
  using assms(2) unfolding agree_def loaded_def segment_of_fields [OF assms(1)] by simp

lemma footprint_bounds: "unat (bytes li) < footprint li" "512 \<le> footprint li"
proof -
  have "unat (bytes li) < unat (bytes li) div 512 * 512 + 512"
    by (metis add_less_cancel_left div_mult_mod_eq mod_less_divisor zero_less_numeral)
  then show "unat (bytes li) < footprint li" by (simp add: footprint_def)
qed (simp add: footprint_def)

lemma loaded_segment_in_memory:
  assumes "phdr_fits p" "loaded mc m (segment_of p)"
  shows "segment_in_memory mc m p"
  using loaded_sectors [OF assms] footprint_bounds(1) [of "segment_of p"] segment_of_fields(2) [OF assms(1)]
  unfolding segment_in_memory_def agree_def by simp

lemma header_at_agree:
  assumes "agree m a m' b 512" "header_at m' b"
  shows "header_at m a"
proof -
  have "load32 m (a + of_nat (4 * k)) = load32 m' (b + of_nat (4 * k))" if "k < 22" for k
    unfolding load32_def using that by (intro agree_load [OF assms(1)]) simp
  then have "map (\<lambda>k. load32 m (a + of_nat (4 * k))) [0..<22] = map (\<lambda>k. load32 m' (b + of_nat (4 * k))) [0..<22]"
    by (intro map_cong) auto
  then show ?thesis using assms(2) by (simp only: header_at_def)
qed

text \<open>The bytes of low memory behind the disk buffer, where the boot information is written.\<close>

definition low_kept :: "memory \<Rightarrow> memory \<Rightarrow> bool" where
  "low_kept m m' \<longleftrightarrow> (\<forall>x. 0xC000 \<le> unat x \<and> unat x < 0x10000 \<longrightarrow> m' x = m x)"

lemma low_kept_load32: "low_kept m m' \<Longrightarrow> 0xC000 \<le> unat a \<Longrightarrow> unat a + 4 \<le> 0x10000 \<Longrightarrow> load32 m' a = load32 m a"
  using load32_cong [of "0xC000" "0x10000" m' m a] by (simp add: low_kept_def)

lemma only_read_low: "only_read s s' \<Longrightarrow> low_kept (ld_mem s) (ld_mem s')"
  by (simp add: only_read_def buffered_def low_kept_def)

lemma loader_reads_headers:
  assumes disk: "disk_works mc" and img: "kernel_image mc" and talk: "talks mc"
  shows "\<exists>m s2 s3. load_sector_asm mc 12 1 (ld_mem s) = Inr m \<and> load_ehdr m (ptr 0x8000) = image_ehdr mc \<and>
    say mc (''Elf header obtained!'' @ [LF]) [] (s\<lparr>ld_mem := m\<rparr>) = Inr s2 \<and>
    foldR (read_phdr mc (image_ehdr mc)) [0..<unat (e_phnum (image_ehdr mc))] ([], s2) = Inr (segments mc, s3) \<and> only_read s s3"
proof -
  obtain m where m: "load_sector_asm mc 12 1 (ld_mem s) = Inr m" "agree m 0x8000 (image mc) 0 512" "buffered (ld_mem s) m"
    using sectors_image [of 1 mc "ld_mem s"] disk by auto
  have ehdr: "load_ehdr m (ptr 0x8000) = image_ehdr mc"
    using m(2) unfolding image_ehdr_def by (intro agree_ehdr) (simp add: ptr_def agree_def)
  obtain t where t: "say mc (''Elf header obtained!'' @ [LF]) [] (s\<lparr>ld_mem := m\<rparr>) = Inr (s\<lparr>ld_mem := m, ld_io := t\<rparr>)"
    using say_returns [OF talk] by blast
  have few: "length (segments_upto mc (unat (e_phnum (image_ehdr mc)))) \<le> 5"
    using img by (simp add: kernel_image_def segments_phdrs segments_def [symmetric])
  obtain s3 where s3: "foldR (read_phdr mc (image_ehdr mc)) [0..<unat (e_phnum (image_ehdr mc))] ([], s\<lparr>ld_mem := m, ld_io := t\<rparr>) =
      Inr (segments mc, s3)" "only_read (s\<lparr>ld_mem := m, ld_io := t\<rparr>) s3"
    using read_phdrs [OF disk _ talk le_refl few] img unfolding kernel_image_def segments_def by blast
  have "only_read s (s\<lparr>ld_mem := m, ld_io := t\<rparr>)" using m(3) by (simp add: only_read_def)
  then show ?thesis using m(1) ehdr t s3 only_read_trans by blast
qed

lemma segments_fit: "kernel_image mc \<Longrightarrow> \<forall>li \<in> set (segments mc). segment_fits li"
  by (auto simp: kernel_image_def segments_phdrs list_all_iff phdr_fits_def)

lemma not_covered: "segment_fits li \<Longrightarrow> unat x < 0x100000 \<Longrightarrow> \<not> covers li x"
  by (simp add: segment_fits_def covers_def)

text \<open>The first segment brings the multiboot header, which asks for the two tags.\<close>

lemma loader_takes_header:
  assumes disk: "disk_works mc" and img: "kernel_image mc"
  shows "\<exists>s'. load_segment mc (hd (segments mc)) s = Inr s' \<and> load_addr (hd (segments mc)) = 0x100000 \<and>
    header_at (ld_mem s') 0x100000 \<and> mmap_calls s' = mmap_calls s \<and> low_kept (ld_mem s) (ld_mem s')"
proof -
  define p where "p = hd (load_phdrs mc)"
  have p: "hd (segments mc) = segment_of p" "p \<in> set (load_phdrs mc)" "p_paddr p = 0x100000" "header_at (image mc) (p_offset p)"
    using img by (auto simp: kernel_image_def segments_phdrs p_def hd_map)
  have fits: "phdr_fits p" using img p(2) by (simp add: kernel_image_def list_all_iff)
  then have seg: "segment_fits (segment_of p)" by (simp add: phdr_fits_def)
  obtain s' where s': "load_segment mc (segment_of p) s = Inr s'" "loaded mc (ld_mem s') (segment_of p)" "mmap_calls s' = mmap_calls s"
    "\<forall>x. \<not> covers (segment_of p) x \<and> \<not> (0x8000 \<le> unat x \<and> unat x < 0xB000) \<longrightarrow> ld_mem s' x = ld_mem s x"
    using load_segment_image [OF disk seg] by blast
  have "agree (ld_mem s') 0x100000 (image mc) (p_offset p) 512"
    using loaded_sectors [OF fits s'(2)] footprint_bounds(2) [of "segment_of p"] p(3) by (simp add: agree_def)
  then have "header_at (ld_mem s') 0x100000" using p(4) header_at_agree by blast
  moreover have "low_kept (ld_mem s) (ld_mem s')" using s'(4) not_covered [OF seg] by (simp add: low_kept_def)
  moreover have "load_addr (segment_of p) = 0x100000" using p(3) by (simp add: segment_of_def)
  ultimately show ?thesis using s' p(1) by auto
qed

text \<open>Loading the segments again leaves the boot information alone.\<close>

lemma loader_fills_memory:
  assumes disk: "disk_works mc" and img: "kernel_image mc" and tags: "boot_tags mc c n (ld_mem s)" "n \<le> 100"
  shows "\<exists>s'. foldR (load_segment mc) (segments mc) s = Inr s' \<and> boot_tags mc c n (ld_mem s') \<and>
    (\<forall>p \<in> set (load_phdrs mc). segment_in_memory mc (ld_mem s') p)"
proof -
  have apart: "segments_apart (segments mc)" using img by (simp add: kernel_image_def segments_phdrs)
  obtain s' where s': "foldR (load_segment mc) (segments mc) s = Inr s'" "\<forall>li \<in> set (segments mc). loaded mc (ld_mem s') li"
    "\<forall>x. (\<forall>li \<in> set (segments mc). \<not> covers li x) \<and> \<not> (0x8000 \<le> unat x \<and> unat x < 0xB000) \<longrightarrow> ld_mem s' x = ld_mem s x"
    using load_segments [OF disk segments_fit [OF img] apart] by blast
  have "boot_tags mc c n (ld_mem s')"
    using s'(3) segments_fit [OF img] not_covered by (intro boot_tags_cong [OF tags]) auto
  moreover have "segment_in_memory mc (ld_mem s') p" if "p \<in> set (load_phdrs mc)" for p
    using that s'(2) img by (intro loaded_segment_in_memory) (auto simp: kernel_image_def list_all_iff segments_phdrs)
  ultimately show ?thesis using s'(1) by blast
qed

text \<open>The tables of \<^verbatim>\<open>long_mode\<close> lie between the boot information and the kernel.\<close>

lemma long_mode_keeps:
  assumes "kernel_image mc" "boot_tags mc c n (ld_mem s)" "n \<le> 100" "\<forall>p \<in> set (load_phdrs mc). segment_in_memory mc (ld_mem s) p"
  shows "boot_tags mc c n (ld_mem (long_mode s))" "\<forall>p \<in> set (load_phdrs mc). segment_in_memory mc (ld_mem (long_mode s)) p"
proof -
  show "boot_tags mc c n (ld_mem (long_mode s))"
    by (rule boot_tags_cong [OF assms(2,3)]) (simp add: long_mode_def boot_tables_outside)
  show "\<forall>p \<in> set (load_phdrs mc). segment_in_memory mc (ld_mem (long_mode s)) p"
  proof
    fix p assume p: "p \<in> set (load_phdrs mc)"
    then have fits: "phdr_fits p" using assms(1) by (simp add: kernel_image_def list_all_iff)
    have "boot_tables (ld_mem s) (p_paddr p + of_nat i) = ld_mem s (p_paddr p + of_nat i)" if "i < unat (p_filesz p)" for i
    proof (rule boot_tables_outside)
      have "unat (p_paddr p) = unat (load_addr (segment_of p))" using segment_of_fields(1) [OF fits] unat_ptr by metis
      then have "0x100000 \<le> unat (p_paddr p)" "unat (p_paddr p) < 2 ^ 32" "i < 2 ^ 32"
        using fits that by (simp_all add: phdr_fits_def segment_fits_def)
      then show "\<not> (0x10000 \<le> unat (p_paddr p + of_nat i) \<and> unat (p_paddr p + of_nat i) < 0x15000)"
        by (simp add: unat_word_ariths unat_of_nat)
    qed
    then show "segment_in_memory mc (ld_mem (long_mode s)) p"
      using assms(4) p by (simp add: segment_in_memory_def long_mode_def)
  qed
qed

lemma loader_enters_kernel:
  assumes disk: "disk_works mc" and img: "kernel_image mc" and talk: "talks mc" and mode: "check_for_longmode mc = 1"
    and zero: "load32 (ld_mem s) 0xC00C = 0" "load32 (ld_mem s) 0xC01C = 0" and n: "n \<le> 100"
    and bios: "\<forall>k < n. \<not> snd (bios_mmap mc (mmap_calls s + k))" "snd (bios_mmap mc (mmap_calls s + n))"
      "\<forall>k \<le> n. bios_smap mc (mmap_calls s + k)" "bios_e801 mc \<noteq> None"
  shows "\<exists>t. loader_main mc s = Inr (long_mode t) \<and> kernel_entry t = e_entry (image_ehdr mc) \<and>
    boot_tags mc (mmap_calls s) n (ld_mem t) \<and> (\<forall>p \<in> set (load_phdrs mc). segment_in_memory mc (ld_mem t) p)"
proof -
  define s0 where "s0 = s\<lparr>ld_io := snd (serial_init (uart mc) COM1 (ld_io s))\<rparr>"
  obtain m s2 s3 where h: "load_sector_asm mc 12 1 (ld_mem s0) = Inr m" "load_ehdr m (ptr 0x8000) = image_ehdr mc"
    "say mc (''Elf header obtained!'' @ [LF]) [] (s0\<lparr>ld_mem := m\<rparr>) = Inr s2"
    "foldR (read_phdr mc (image_ehdr mc)) [0..<unat (e_phnum (image_ehdr mc))] ([], s2) = Inr (segments mc, s3)" "only_read s0 s3"
    using loader_reads_headers [OF disk img talk] by blast
  obtain s4 where s4: "load_segment mc (hd (segments mc)) s3 = Inr s4" "load_addr (hd (segments mc)) = 0x100000"
    "header_at (ld_mem s4) 0x100000" "mmap_calls s4 = mmap_calls s3" "low_kept (ld_mem s3) (ld_mem s4)"
    using loader_takes_header [OF disk img] by blast
  have low: "low_kept (ld_mem s) (ld_mem s4)" "mmap_calls s4 = mmap_calls s"
    using only_read_low [OF h(5)] s4(4,5) h(5) by (simp_all add: low_kept_def s0_def only_read_def)
  obtain t where t: "say mc (''Tags Requested: %d'' @ [LF]) [ucast (0x50 :: u32)] s4 = Inr (s4\<lparr>ld_io := t\<rparr>)"
    using say_returns [OF talk] by blast
  have "load32 (ld_mem (s4\<lparr>ld_io := t\<rparr>)) 0xC00C = 0" "load32 (ld_mem (s4\<lparr>ld_io := t\<rparr>)) 0xC01C = 0"
    using zero low_kept_load32 [OF low(1)] by simp_all
  then obtain s5 where s5: "multiboot_info mc 0x50 (s4\<lparr>ld_io := t\<rparr>) = Inr s5" "boot_tags mc (mmap_calls s) n (ld_mem s5)"
    using multiboot_info_tags [of "s4\<lparr>ld_io := t\<rparr>" n mc] n bios low(2) by auto
  obtain s6 where s6: "foldR (load_segment mc) (segments mc) s5 = Inr s6" "boot_tags mc (mmap_calls s) n (ld_mem s6)"
    "\<forall>p \<in> set (load_phdrs mc). segment_in_memory mc (ld_mem s6) p"
    using loader_fills_memory [OF disk img s5(2) n] by blast
  obtain t1 where t1: "say mc (''No CPUID!'' @ [LF]) [] s6 = Inr (s6\<lparr>ld_io := t1\<rparr>)" using say_returns [OF talk] by blast
  define s7 where "s7 = (if check_for_cpuid mc \<noteq> 1 then s6\<lparr>ld_io := t1\<rparr> else s6)"
  have s7: "(if check_for_cpuid mc \<noteq> 1 then say mc (''No CPUID!'' @ [LF]) [] s6 else Inr s6) = Inr s7" "ld_mem s7 = ld_mem s6"
    using t1 by (simp_all add: s7_def)
  obtain t2 where t2: "say mc (''Entering kernel at %x'' @ [LF]) [e_entry (image_ehdr mc)] s7 = Inr (s7\<lparr>ld_io := t2\<rparr>)"
    using say_returns [OF talk] by blast
  have magic: "take 4 (e_ident (image_ehdr mc)) = ELFMAG" and some: "segments mc \<noteq> []"
    using img by (simp_all add: kernel_image_def segments_phdrs)
  have ok: "header_ok (load_multiboot_header (ld_mem s4) (ptr 0x100000))" "tags_requested (ld_mem s4) 0x100000 = Inr 0x50"
    using header_accepted [OF s4(3)] tags_requested_kernel [OF s4(3)] by (simp_all add: ptr_def)
  have "loader_main mc s = Inr (long_mode (s7\<lparr>ld_io := t2, kernel_entry := e_entry (image_ehdr mc)\<rparr>))"
    unfolding loader_main_def Let_def s0_def [symmetric] of_nat_numeral h(1) bindR_simps h(2) magic h(3,4) prod.case s4(1,2) ok t s5(1) s6(1) s7(1)
    using some ok(1) mode t2 by simp
  then show ?thesis using s6(2,3) s7(2)
    by (intro exI [of _ "s7\<lparr>ld_io := t2, kernel_entry := e_entry (image_ehdr mc)\<rparr>"]) simp
qed

section \<open>Properties\<close>


text \<open>
  An image with two segments, the first at sector 8 of the file with the multiboot header, the second
  behind it; and a machine with this image on its disk whose BIOS reports four regions in descending order.
\<close>

definition sample_words :: "nat \<Rightarrow> u32" where
  "sample_words i =
     (if i < 46 then
        [0x464C457F, 0x10102, 0, 0, 0x3E0002, 1, 0x80100058, 0xFFFFFFFF, 64, 0, 0, 0, 0, 0x380040, 2, 0,
         1, 5, 0x1000, 0, 0x80100000, 0xFFFFFFFF, 0x100000, 0, 0x1800, 0, 0x1800, 0, 0x1000, 0,
         1, 6, 0x3000, 0, 0x80102000, 0xFFFFFFFF, 0x102000, 0, 0x400, 0, 0x800, 0, 0x1000, 0, 0, 0] ! i
      else if 0x400 \<le> i \<and> i < 0x416 then multiboot_hdr ! (i - 0x400)
      else of_nat i)"

definition sample_boot_machine :: machine where
  "sample_boot_machine =
     \<lparr>disk = (\<lambda>sec i. let d = 512 * (sec - 12) + i in ucast (drop_bit (8 * (d mod 4)) (sample_words (d div 4)))),
      bios_smap = (\<lambda>k. True),
      bios_mmap = (\<lambda>k. (\<lparr>entry_addr = of_nat (0x100000 * (3 - k)), entry_len = 0x80000, entry_type = 1, entry_zero = 0\<rparr>, k \<ge> 3)),
      bios_e801 = Some (0x3C00, 0x1C0), int13_extensions = True, int13_reads = True, eflags = 2, eflags_readback = (\<lambda>f. f),
      cpuid = (\<lambda>f. (0x80000008, 0x20000000)), uart = (\<lambda>t p. if p = 0x64 then 0 else latch t p), console = (\<lambda>_ _ t. Inr t)\<rparr>"

lemma sample_byte: "image sample_boot_machine a = ucast (drop_bit (8 * (unat a mod 4)) (sample_words (unat a div 4)))"
  by (simp add: image_def sector_byte_def sample_boot_machine_def Let_def)

lemma sample_word:
  assumes "unat a mod 4 = 0" "unat a + 4 < 2 ^ 64"
  shows "load32 (image sample_boot_machine) a = sample_words (unat a div 4)"
proof (rule bit_word_eqI)
  fix n assume "n < LENGTH(32)"
  define q where "q = n div 8"
  have q: "q < 4" "8 * q + n mod 8 = n" using \<open>n < LENGTH(32)\<close> by (simp_all add: q_def)
  then have "unat (a + of_nat q) = unat a + q" using assms(2) by (simp add: unat_word_ariths unat_of_nat)
  moreover have "(unat a + q) div 4 = unat a div 4" "(unat a + q) mod 4 = q" using assms(1) q(1) by auto
  ultimately show "bit (load32 (image sample_boot_machine) a) n = bit (sample_words (unat a div 4)) n"
    using \<open>n < LENGTH(32)\<close> q(2)
    by (simp add: load32_def bit_load_le sample_byte bit_ucast_iff bit_drop_bit_eq q_def [symmetric])
qed

lemma load16_high: "load16 m (a + 2) = ucast (drop_bit 16 (load32 m a))"
proof (rule bit_word_eqI)
  fix n :: nat
  have "(16 + n) div 8 = 2 + n div 8" "(16 + n) mod 8 = n mod 8" by presburger+
  then have "a + 2 + of_nat (n div 8) = a + of_nat ((16 + n) div 8)" "(16 + n) mod 8 = n mod 8" by simp_all
  then show "bit (load16 m (a + 2)) n = bit (ucast (drop_bit 16 (load32 m a)) :: u16) n"
    by (auto simp: load16_def load32_def bit_load_le bit_ucast_iff bit_drop_bit_eq add.assoc)
qed

lemma sample_ehdr:
  "take 4 (e_ident (image_ehdr sample_boot_machine)) = ELFMAG" "e_phnum (image_ehdr sample_boot_machine) = 2"
  "e_phentsize (image_ehdr sample_boot_machine) = 56" "e_phoff (image_ehdr sample_boot_machine) = 64"
  "e_entry (image_ehdr sample_boot_machine) = 0xFFFFFFFF80100058"
  using load16_high [of "image sample_boot_machine" 52]
  by (simp_all add: image_ehdr_def load_ehdr_def load64_words load16_low sample_word upt_conv_Cons sample_byte ELFMAG_def sample_words_def)

lemma sample_phdrs:
  "image_phdr sample_boot_machine 0 = \<lparr>p_type = 1, p_flags = 5, p_offset = 0x1000, p_vaddr = 0xFFFFFFFF80100000, p_paddr = 0x100000,
     p_filesz = 0x1800, p_memsz = 0x1800, p_align = 0x1000\<rparr>"
  "image_phdr sample_boot_machine 1 = \<lparr>p_type = 1, p_flags = 6, p_offset = 0x3000, p_vaddr = 0xFFFFFFFF80102000, p_paddr = 0x102000,
     p_filesz = 0x400, p_memsz = 0x800, p_align = 0x1000\<rparr>"
  by (simp_all add: image_phdr_def load_phdr_def sample_ehdr load64_words sample_word sample_words_def)

lemma sample_header: "header_at (image sample_boot_machine) 0x1000"
  by (simp add: header_at_def sample_word sample_words_def upt_conv_Cons multiboot_hdr_def)

lemma sample_kernel_image: "kernel_image sample_boot_machine"
proof -
  have "load_phdrs sample_boot_machine = map (image_phdr sample_boot_machine) [0, 1]"
    by (simp add: load_phdrs_def sample_ehdr upt_conv_Cons sample_phdrs sample_phdrs [unfolded One_nat_def])
  then show ?thesis
    using sample_header by (simp add: kernel_image_def phdrs_fit_def sample_ehdr sample_phdrs [unfolded One_nat_def] phdr_fits_def segment_of_def
        segment_fits_def footprint_def segments_apart_def)
qed

definition sample_loader :: loader where
  "sample_loader = \<lparr>ld_mem = (\<lambda>_. 0), ld_io = [], mmap_calls = 0, kernel_entry = 0, ld_cr3 = 0, ld_eax = 0, ld_ebx = 0\<rparr>"


end
