(* ===== verification/Firststage.thy ===== *)
theory Firststage
  imports Loader
begin

text \<open>
  The first stage of the boot loader (\<^verbatim>\<open>src/loader/boot0.S\<close>) and the entry of the second
  (\<^verbatim>\<open>_start\<close> of \<^verbatim>\<open>src/loader/boot1/boot1.S\<close>): the boot sector reads the second stage off the disk and prints a
  message; the second stage opens the A20 gate through the keyboard controller and runs \<^verbatim>\<open>main\<close>. The BIOS
  calls appear by their results; the mode switches have none that the model sees.
\<close>

section \<open>Definitions\<close>

definition sb0 :: string where
  "sb0 = ''Success boot0'' @ [LF, CR, CHR 0x00]"

definition fb0 :: string where
  "fb0 = ''Fail boot0'' @ [LF, CR, CHR 0x00]"

text \<open>The text \<^verbatim>\<open>_print\<close> sends to the screen, its terminator included; after the message of a failure it halts.\<close>

definition print_loop :: "string \<Rightarrow> string" where
  "print_loop str = takeWhile (\<lambda>c. c \<noteq> CHR 0x00) str @ [CHR 0x00]"

definition boot0_print :: "u8 \<Rightarrow> string outcome" where
  "boot0_print ah = (let str = print_loop (if ah \<noteq> 0 then fb0 else sb0) in if ah \<noteq> 0 then Inl Endless_loop else Inr str)"

text \<open>
  The disk address packet: seven sectors from sector 1 on, to segment 0100h. The \<^verbatim>\<open>xor\<close> before \<^verbatim>\<open>adc\<close> clears
  the carry, so AH is zero whatever the BIOS reported; a failure has already hung at \<^verbatim>\<open>jc .\<close>.
\<close>

definition boot0_read :: "machine \<Rightarrow> memory \<Rightarrow> memory" where
  "boot0_read mc m = (\<lambda>x. let d = unat (x - 0x1000) in if d < 512 * 7 then disk mc (1 + d div 512) (d mod 512) else m x)"

definition boot0 :: "machine \<Rightarrow> memory \<Rightarrow> (string \<times> memory) outcome" where
  "boot0 mc m =
     (if \<not> int13_extensions mc then Inl Endless_loop
      else if \<not> int13_reads mc then Inl Endless_loop
      else let m = boot0_read mc m; ah = 0
           in bindR (boot0_print ah) (\<lambda>str. Inr (str, m)))"

text \<open>The keyboard controller takes a command when bit 1 of its status is clear.\<close>

partial_function (option) lp_inp :: "device \<Rightarrow> io \<Rightarrow> io option" where
  "lp_inp dev t = (let (al, t) = inb dev 0x64 t in if al AND 0x02 \<noteq> 0 then lp_inp dev t else Some t)"

definition a20_gate :: "device \<Rightarrow> io \<Rightarrow> io outcome" where
  "a20_gate dev t =
     bindR (of_loop (lp_inp dev t)) (\<lambda>t.
     bindR (of_loop (lp_inp dev (outb 0x64 0xD1 t))) (\<lambda>t.
     Inr (outb 0x60 0xDF t)))"

definition boot1_start :: "machine \<Rightarrow> loader \<Rightarrow> loader outcome" where
  "boot1_start mc s = bindR (a20_gate (uart mc) (ld_io s)) (\<lambda>t. loader_main mc (s\<lparr>ld_io := t\<rparr>))"

text \<open>From the boot sector on.\<close>

definition power_on :: "machine \<Rightarrow> loader \<Rightarrow> loader outcome" where
  "power_on mc s = bindR (boot0 mc (ld_mem s)) (\<lambda>(str, m). boot1_start mc (s\<lparr>ld_mem := m\<rparr>))"

section \<open>The keyboard controller\<close>

definition kbd_ready :: "device \<Rightarrow> io \<Rightarrow> bool" where
  "kbd_ready dev t \<longleftrightarrow> dev t 0x64 AND 0x02 = 0"

definition kbd_live :: "device \<Rightarrow> bool" where
  "kbd_live dev \<longleftrightarrow> (\<forall>t. \<exists>k. kbd_ready dev (t @ replicate k (In 0x64)))"

lemma lp_inp_unfold: "lp_inp dev t = (if kbd_ready dev t then Some (t @ [In 0x64]) else lp_inp dev (t @ [In 0x64]))"
  by (subst lp_inp.simps) (simp add: inb_def kbd_ready_def)

lemma lp_inp_ready: "kbd_ready dev (t @ replicate k (In 0x64)) \<Longrightarrow> \<exists>j. lp_inp dev t = Some (t @ replicate j (In 0x64))"
proof (induction k arbitrary: t)
  case 0
  then have "lp_inp dev t = Some (t @ replicate 1 (In 0x64))" by (subst lp_inp_unfold) simp
  then show ?case by blast
next
  case (Suc k)
  show ?case
  proof (cases "kbd_ready dev t")
    case True
    then have "lp_inp dev t = Some (t @ replicate 1 (In 0x64))" by (subst lp_inp_unfold) simp
    then show ?thesis by blast
  next
    case False
    obtain j where "lp_inp dev (t @ [In 0x64]) = Some ((t @ [In 0x64]) @ replicate j (In 0x64))"
      using Suc.IH [of "t @ [In 0x64]"] Suc.prems by auto
    then have "lp_inp dev t = Some (t @ replicate (Suc j) (In 0x64))" using False by (subst lp_inp_unfold) simp
    then show ?thesis by blast
  qed
qed

text \<open>The gate opens, with the two commands in the trace between status reads.\<close>

lemma a20_gate_opens:
  assumes "kbd_live dev"
  shows "\<exists>i j. a20_gate dev t = Inr (t @ replicate i (In 0x64) @ [Out 0x64 0xD1] @ replicate j (In 0x64) @ [Out 0x60 0xDF])"
proof -
  have live: "\<exists>k. lp_inp dev u = Some (u @ replicate k (In 0x64))" for u
    using assms lp_inp_ready unfolding kbd_live_def by blast
  obtain i where i: "lp_inp dev t = Some (t @ replicate i (In 0x64))" using live by blast
  obtain j where "lp_inp dev (outb 0x64 0xD1 (t @ replicate i (In 0x64))) =
      Some (outb 0x64 0xD1 (t @ replicate i (In 0x64)) @ replicate j (In 0x64))" using live by blast
  then have "a20_gate dev t = Inr (t @ replicate i (In 0x64) @ [Out 0x64 0xD1] @ replicate j (In 0x64) @ [Out 0x60 0xDF])"
    by (simp add: a20_gate_def i outb_def)
  then show ?thesis by blast
qed

section \<open>The second stage in memory\<close>

lemma boot0_loads:
  assumes "int13_extensions mc" "int13_reads mc"
  shows "boot0 mc m = Inr (sb0, boot0_read mc m)"
  using assms by (simp add: boot0_def boot0_print_def print_loop_def sb0_def Let_def)

lemma boot0_read_bytes:
  "d < 3584 \<Longrightarrow> boot0_read mc m (0x1000 + of_nat d) = sector_byte mc 1 d"
  "\<not> (0x1000 \<le> unat x \<and> unat x < 0x1E00) \<Longrightarrow> boot0_read mc m x = m x"
proof -
  show "boot0_read mc m (0x1000 + of_nat d) = sector_byte mc 1 d" if "d < 3584"
    using that by (simp add: boot0_read_def sector_byte_def unat_of_nat_u64 Let_def)
  show "boot0_read mc m x = m x" if "\<not> (0x1000 \<le> unat x \<and> unat x < 0x1E00)"
  proof -
    have "\<not> unat (of_nat (unat x) - of_nat 0x1000 :: u64) < 3584"
      using that unat_u64_less [of x] by (subst near) auto
    then show ?thesis by (simp add: boot0_read_def Let_def)
  qed
qed

text \<open>Once the disk and the keyboard controller answer, what is left is \<^verbatim>\<open>main\<close>.\<close>

lemma power_on_main:
  assumes "int13_extensions mc" "int13_reads mc" "kbd_live (uart mc)"
  shows "\<exists>t. power_on mc s = loader_main mc (s\<lparr>ld_mem := boot0_read mc (ld_mem s), ld_io := t\<rparr>)"
  using boot0_loads [OF assms(1,2)] a20_gate_opens [OF assms(3), of "ld_io s"]
  by (auto simp: power_on_def boot1_start_def)

end
