(* ===== verification/Boot.thy ===== *)
theory Boot
  imports Irq Bootimage Firststage
begin

text \<open>
  From the disk to the running kernel: both stages of the loader, the entry \<^verbatim>\<open>_start\<close> of the kernel
  (\<^verbatim>\<open>src/kernel/startup.S\<close>) and \<^verbatim>\<open>kernel_main\<close> up to \<^verbatim>\<open>interrupts_enable\<close>, as one run. \<^verbatim>\<open>_start\<close> runs on the tables
  of the loader, so each byte it writes goes through them; the C variables it clears are the zero values of the
  components' states. The symbols of \<^verbatim>\<open>src/kernel/linker.ld\<close> and the labels of \<^verbatim>\<open>startup.S\<close> are arguments.
\<close>

section \<open>Definitions\<close>

record start_symbols =
  start_symbol :: addr
  mboot_magic_symbol :: addr
  mboot_tags_symbol :: addr
  bss_start :: addr
  bss_end :: addr
  stack_top :: addr
  next_symbol :: addr
  halt_symbol :: addr

text \<open>A byte written under the tables in CR3; an address they do not map is a page fault nobody handles yet.\<close>

definition boot_translate :: "loader \<Rightarrow> addr \<Rightarrow> addr option" where
  "boot_translate s a = translate (boot_view (ld_mem s)) (ptr (ld_cr3 s)) a"

definition put8 :: "addr \<Rightarrow> u8 \<Rightarrow> loader \<Rightarrow> loader outcome" where
  "put8 a b s = (case boot_translate s a of None \<Rightarrow> Inl Bad_pointer | Some p \<Rightarrow> Inr (s\<lparr>ld_mem := (ld_mem s)(p := b)\<rparr>))"

definition put_le :: "nat \<Rightarrow> addr \<Rightarrow> u64 \<Rightarrow> loader \<Rightarrow> loader outcome" where
  "put_le n a v = foldR (\<lambda>i. put8 (a + of_nat i) (ucast (drop_bit (8 * i) v))) [0..<n]"

text \<open>
  \<^verbatim>\<open>_start\<close>: the two registers are stored, the bss is cleared with \<^verbatim>\<open>rep stosb\<close>; the far return to \<^verbatim>\<open>next\<close> pops
  the two words pushed for it, and the call pushes its return address in their place.
\<close>

definition kernel_start :: "start_symbols \<Rightarrow> loader \<Rightarrow> loader outcome" where
  "kernel_start sy s =
     bindR (put_le 4 (mboot_magic_symbol sy) (ucast (ld_eax s)) s) (\<lambda>s.
     bindR (put_le 4 (mboot_tags_symbol sy) (ucast (ld_ebx s)) s) (\<lambda>s.
     bindR (foldR (\<lambda>i. put8 (bss_start sy + of_nat i) 0) [0..<unat (bss_end sy - bss_start sy)] s) (\<lambda>s.
     bindR (put_le 8 (stack_top sy - 8) 0x08 s) (\<lambda>s.
     bindR (put_le 8 (stack_top sy - 16) (next_symbol sy) s) (\<lambda>s.
     put_le 8 (stack_top sy - 8) (halt_symbol sy) s)))))"

text \<open>The kernel as \<^verbatim>\<open>kernel_main\<close> finds it: its static variables at their initial values.\<close>

definition cold_kernel :: "terminal \<Rightarrow> io \<Rightarrow> memory \<Rightarrow> kernel" where
  "cold_kernel screen t m =
     \<lparr>k_intr = cold_intr\<lparr>ipic := (ipic cold_intr)\<lparr>pic_io := t\<rparr>\<rparr>, k_paging = cold_paging m,
      k_heap = \<lparr>freelist_head = NULL, heap_start = NULL, heap_size = 0, wmem = m\<rparr>,
      k_term = screen\<lparr>term_col := 0, term_row := 0\<rparr>\<rparr>"

text \<open>The jump of the loader goes to \<^verbatim>\<open>_start\<close> or to code that is not the kernel's.\<close>

definition boot_kernel ::
  "machine \<Rightarrow> kernel_env \<Rightarrow> start_symbols \<Rightarrow> terminal \<Rightarrow> loader \<Rightarrow> (kernel_env \<times> kernel) outcome" where
  "boot_kernel mc env sy screen s =
     bindR (power_on mc s) (\<lambda>s.
     if kernel_entry s \<noteq> start_symbol sy \<or> boot_translate s (kernel_entry s) = None then Inl Bad_pointer
     else bindR (kernel_start sy s) (\<lambda>s.
       let m = boot_view (ld_mem s) in
       Inr (env\<lparr>mboot_magic := load32 m (mboot_magic_symbol sy), mboot_tags := load32 m (mboot_tags_symbol sy), ports := uart mc\<rparr>,
            cold_kernel screen (ld_io s) m)))"

definition boot_system :: "machine \<Rightarrow> kernel_env \<Rightarrow> start_symbols \<Rightarrow> terminal \<Rightarrow> loader \<Rightarrow> kernel outcome" where
  "boot_system mc env sy screen s = bindR (boot_kernel mc env sy screen s) (\<lambda>(env, k). kernel_init env k)"

section \<open>Writing through the boot map\<close>

text \<open>The state in which the loader has left the machine, and addresses its tables map.\<close>

definition in_boot_map :: "addr \<Rightarrow> bool" where
  "in_boot_map a \<longleftrightarrow> 2 ^ 64 - 2 ^ 31 + 0x15000 \<le> unat a \<and> unat a < 2 ^ 64 - 2 ^ 31 + 2 ^ 21"

definition boot_ready :: "loader \<Rightarrow> bool" where
  "boot_ready s \<longleftrightarrow> tables_stand (ld_mem s) \<and> ld_cr3 s = 0x10000"

lemma unat_k_vtop: "2 ^ 64 - 2 ^ 31 \<le> unat a \<Longrightarrow> unat (k_vtop a) = unat a - (2 ^ 64 - 2 ^ 31)"
  unfolding k_vtop_def by (subst unat_sub) (simp_all add: word_le_nat_alt)

lemma in_boot_map_vtop: "in_boot_map a \<Longrightarrow> 0x15000 \<le> unat (k_vtop a) \<and> unat (k_vtop a) < 2 ^ 21"
  using unat_k_vtop [of a] by (auto simp: in_boot_map_def)

lemma boot_ready_translate:
  assumes "boot_ready s" "in_boot_map a"
  shows "boot_translate s a = Some (k_vtop a)"
proof -
  have "k_ptov (of_nat (unat (k_vtop a))) = a" "(of_nat (unat (k_vtop a)) :: u64) = k_vtop a" by simp_all
  then show ?thesis
    using tables_stand_map [of "ld_mem s" "unat (k_vtop a)"] in_boot_map_vtop [OF assms(2)] assms(1)
    by (simp add: boot_translate_def boot_ready_def ptr_def)
qed

text \<open>A series of bytes written in order to addresses of the map.\<close>

lemma put8_mapped:
  assumes "boot_ready s" "in_boot_map a"
  shows "put8 a b s = Inr (s\<lparr>ld_mem := (ld_mem s)(k_vtop a := b)\<rparr>)" "boot_ready (s\<lparr>ld_mem := (ld_mem s)(k_vtop a := b)\<rparr>)"
  using boot_ready_translate [OF assms] tables_stand_write [of "ld_mem s" "k_vtop a" b] in_boot_map_vtop [OF assms(2)] assms(1)
  by (simp_all add: put8_def boot_ready_def)

lemma put_bytes_mapped:
  assumes "boot_ready s" "\<forall>i < n. in_boot_map (a + of_nat i)" "n < 2 ^ 64"
  shows "\<exists>m. foldR (\<lambda>i. put8 (a + of_nat i) (f i)) [0..<n] s = Inr (s\<lparr>ld_mem := m\<rparr>) \<and> boot_ready (s\<lparr>ld_mem := m\<rparr>) \<and>
    (\<forall>i < n. m (k_vtop a + of_nat i) = f i) \<and> (\<forall>x. n \<le> unat (x - k_vtop a) \<longrightarrow> m x = ld_mem s x)"
  using assms(2,3)
proof (induction n)
  case 0
  then show ?case using assms(1) by (intro exI [of _ "ld_mem s"]) simp
next
  case (Suc n)
  then obtain m where m: "foldR (\<lambda>i. put8 (a + of_nat i) (f i)) [0..<n] s = Inr (s\<lparr>ld_mem := m\<rparr>)" "boot_ready (s\<lparr>ld_mem := m\<rparr>)"
    "\<forall>i < n. m (k_vtop a + of_nat i) = f i" "\<forall>x. n \<le> unat (x - k_vtop a) \<longrightarrow> m x = ld_mem s x"
    by auto
  let ?p = "k_vtop a + of_nat n"
  define m' where "m' = m(?p := f n)"
  have p: "k_vtop (a + of_nat n) = ?p" by (simp add: k_vtop_def)
  have step: "put8 (a + of_nat n) (f n) (s\<lparr>ld_mem := m\<rparr>) = Inr (s\<lparr>ld_mem := m'\<rparr>)" "boot_ready (s\<lparr>ld_mem := m'\<rparr>)"
    using put8_mapped [OF m(2), of "a + of_nat n" "f n"] Suc.prems(1) by (simp_all add: p m'_def)
  have "k_vtop a + of_nat i \<noteq> ?p" if "i < n" for i
    using that Suc.prems(2) by (simp add: of_nat_u64_inj)
  then have new: "m' (k_vtop a + of_nat i) = f i" if "i < Suc n" for i
    using that m(3) by (cases "i = n") (auto simp: m'_def)
  have old: "m' x = ld_mem s x" if "Suc n \<le> unat (x - k_vtop a)" for x
  proof -
    have "unat (?p - k_vtop a) = n" using Suc.prems(2) by (simp add: unat_of_nat_u64)
    then show ?thesis using m(4) that by (auto simp: m'_def)
  qed
  have "foldR (\<lambda>i. put8 (a + of_nat i) (f i)) [0..<Suc n] s = Inr (s\<lparr>ld_mem := m'\<rparr>)"
    using m(1) step(1) by (subst foldR_upt_Suc) auto
  then show ?case using step(2) new old by blast
qed

text \<open>The same at the addresses of the kernel: the bytes read back, everything else is as before.\<close>

lemma in_boot_map_range:
  assumes "2 ^ 64 - 2 ^ 31 + 0x100000 \<le> unat a" "unat a + n \<le> 2 ^ 64 - 2 ^ 31 + 2 ^ 21" "i < n"
  shows "unat (a + of_nat i) = unat a + i" "in_boot_map (a + of_nat i)"
proof -
  show "unat (a + of_nat i) = unat a + i" using assms by (simp add: unat_word_ariths unat_of_nat_u64)
  then show "in_boot_map (a + of_nat i)" using assms by (simp add: in_boot_map_def)
qed

definition wrote :: "memory \<Rightarrow> memory \<Rightarrow> addr \<Rightarrow> nat \<Rightarrow> bool" where
  "wrote m m' a n \<longleftrightarrow>
     (\<forall>x. 2 ^ 64 - 2 ^ 31 \<le> unat x \<and> \<not> (unat a \<le> unat x \<and> unat x < unat a + n) \<longrightarrow> boot_view m' x = boot_view m x) \<and>
     (\<forall>x. unat x < 0x100000 \<longrightarrow> m' x = m x)"

lemma wrote_load32:
  assumes "wrote m m' a n" "2 ^ 64 - 2 ^ 31 \<le> unat c" "unat c + 4 \<le> unat a"
  shows "load32 (boot_view m') c = load32 (boot_view m) c"
proof (rule load32_cong [of "unat c" "unat a"])
  show "boot_view m' x = boot_view m x" if "unat c \<le> unat x" "unat x < unat a" for x
    using assms(1,2) that by (simp add: wrote_def)
qed (use assms(3) unat_u64_less [of a] in simp_all)

lemma put_range:
  assumes "boot_ready s" "2 ^ 64 - 2 ^ 31 + 0x100000 \<le> unat a" "unat a + n \<le> 2 ^ 64 - 2 ^ 31 + 2 ^ 21"
  shows "\<exists>m. foldR (\<lambda>i. put8 (a + of_nat i) (f i)) [0..<n] s = Inr (s\<lparr>ld_mem := m\<rparr>) \<and> boot_ready (s\<lparr>ld_mem := m\<rparr>) \<and>
    (\<forall>i < n. boot_view m (a + of_nat i) = f i) \<and> wrote (ld_mem s) m a n"
proof -
  note range = in_boot_map_range [OF assms(2,3)]
  define v where "v = unat (k_vtop a)"
  have v: "v + (2 ^ 64 - 2 ^ 31) = unat a" using unat_k_vtop [of a] assms(2) by (simp add: v_def)
  have av: "k_vtop a = of_nat v" by (simp add: v_def)
  obtain m where m: "foldR (\<lambda>i. put8 (a + of_nat i) (f i)) [0..<n] s = Inr (s\<lparr>ld_mem := m\<rparr>)" "boot_ready (s\<lparr>ld_mem := m\<rparr>)"
    "\<forall>i < n. m (k_vtop a + of_nat i) = f i" "\<forall>x. n \<le> unat (x - k_vtop a) \<longrightarrow> m x = ld_mem s x"
    using put_bytes_mapped [OF assms(1), of n a f] range(2) assms(3) by auto
  have high: "boot_view w x = w (k_vtop x)" if "2 ^ 64 - 2 ^ 31 \<le> unat x" for w x
    using that by (simp add: boot_view_def word_le_nat_alt)
  have kept: "m x = ld_mem s x" if "\<not> (v \<le> unat x \<and> unat x < v + n)" for x
  proof -
    have "\<not> unat (x - k_vtop a) < n"
      using near [of "unat x" v n] that unat_u64_less [of x] v assms(3) by (simp add: av)
    then show ?thesis using m(4) by simp
  qed
  have "boot_view m (a + of_nat i) = f i" if "i < n" for i
  proof -
    have "k_vtop (a + of_nat i) = k_vtop a + of_nat i" by (simp add: k_vtop_def)
    then show ?thesis using m(3) that high [of "a + of_nat i"] range(1) [OF that] assms(2) by simp
  qed
  moreover have "boot_view m x = boot_view (ld_mem s) x"
    if x: "2 ^ 64 - 2 ^ 31 \<le> unat x" "\<not> (unat a \<le> unat x \<and> unat x < unat a + n)" for x
  proof -
    have "\<not> (v \<le> unat (k_vtop x) \<and> unat (k_vtop x) < v + n)" unfolding unat_k_vtop [OF x(1)] using x v by linarith
    then show ?thesis using high [OF x(1)] kept by simp
  qed
  moreover have "m x = ld_mem s x" if "unat x < 0x100000" for x
    using that v assms(2) by (intro kept) simp
  ultimately show ?thesis using m(1,2) unfolding wrote_def by blast
qed

lemma load32_bytes:
  assumes "\<forall>i < 4. m (a + of_nat i) = ucast (drop_bit (8 * i) (ucast v :: u64))"
  shows "load32 m a = v"
proof (rule bit_word_eqI)
  fix n assume n: "n < LENGTH(32)"
  then have "n div 8 < 4" "8 * (n div 8) + n mod 8 = n" by auto
  then show "bit (load32 m a) n = bit v n"
    using assms n by (simp add: load32_def bit_load_le bit_ucast_iff bit_drop_bit_eq)
qed

lemma put_le_range:
  assumes "boot_ready s" "2 ^ 64 - 2 ^ 31 + 0x100000 \<le> unat a" "unat a + n \<le> 2 ^ 64 - 2 ^ 31 + 2 ^ 21"
  shows "\<exists>m. put_le n a v s = Inr (s\<lparr>ld_mem := m\<rparr>) \<and> boot_ready (s\<lparr>ld_mem := m\<rparr>) \<and> wrote (ld_mem s) m a n"
  using put_range [OF assms, of "\<lambda>i. ucast (drop_bit (8 * i) v)"] unfolding put_le_def by blast

lemma put_le_word:
  assumes "boot_ready s" "2 ^ 64 - 2 ^ 31 + 0x100000 \<le> unat a" "unat a + 4 \<le> 2 ^ 64 - 2 ^ 31 + 2 ^ 21"
  shows "\<exists>m. put_le 4 a (ucast w) s = Inr (s\<lparr>ld_mem := m\<rparr>) \<and> boot_ready (s\<lparr>ld_mem := m\<rparr>) \<and> wrote (ld_mem s) m a 4 \<and>
    load32 (boot_view m) a = (w :: u32)"
  using put_range [OF assms, of "\<lambda>i. ucast (drop_bit (8 * i) (ucast w :: u64))"] load32_bytes [of _ a w]
  unfolding put_le_def by blast

section \<open>The entry of the kernel\<close>

text \<open>The order of the sections in the linker script: the two variables in the data, then the bss, then the stack.\<close>

definition image_laid_out :: "start_symbols \<Rightarrow> addr \<Rightarrow> bool" where
  "image_laid_out sy kernel_end \<longleftrightarrow>
     2 ^ 64 - 2 ^ 31 + 0x100000 \<le> unat (mboot_magic_symbol sy) \<and>
     unat (mboot_magic_symbol sy) + 4 \<le> unat (mboot_tags_symbol sy) \<and> unat (mboot_tags_symbol sy) + 4 \<le> unat (bss_start sy) \<and>
     unat (bss_start sy) \<le> unat (bss_end sy) \<and> unat (bss_end sy) + 4096 \<le> unat (stack_top sy) \<and>
     unat (stack_top sy) \<le> unat kernel_end \<and> unat kernel_end \<le> 2 ^ 64 - 2 ^ 31 + 2 ^ 21"

lemma kernel_start_runs:
  assumes "boot_ready s" "image_laid_out sy kernel_end"
  shows "\<exists>m. kernel_start sy s = Inr (s\<lparr>ld_mem := m\<rparr>) \<and> boot_ready (s\<lparr>ld_mem := m\<rparr>) \<and>
    load32 (boot_view m) (mboot_magic_symbol sy) = ld_eax s \<and> load32 (boot_view m) (mboot_tags_symbol sy) = ld_ebx s \<and>
    (\<forall>x. unat x < 0x100000 \<longrightarrow> m x = ld_mem s x)"
proof -
  let ?a = "mboot_magic_symbol sy" and ?b = "mboot_tags_symbol sy" and ?t = "stack_top sy"
  define n where "n = unat (bss_end sy - bss_start sy)"
  note lay = assms(2) [unfolded image_laid_out_def]
  have n: "unat (bss_start sy) + n = unat (bss_end sy)" using lay by (simp add: n_def unat_sub word_le_nat_alt)
  have t: "unat (?t - 8) = unat ?t - 8" "unat (?t - 16) = unat ?t - 16"
    using lay by (simp_all add: unat_sub word_le_nat_alt)
  have top: "2 ^ 64 - 2 ^ 31 + 0x100000 \<le> unat (?t - 8)" "unat (?t - 8) + 8 \<le> 2 ^ 64 - 2 ^ 31 + 2 ^ 21"
    "2 ^ 64 - 2 ^ 31 + 0x100000 \<le> unat (?t - 16)" "unat (?t - 16) + 8 \<le> 2 ^ 64 - 2 ^ 31 + 2 ^ 21"
    unfolding t using lay by linarith+
  obtain m1 where 1: "put_le 4 ?a (ucast (ld_eax s)) s = Inr (s\<lparr>ld_mem := m1\<rparr>)" "boot_ready (s\<lparr>ld_mem := m1\<rparr>)"
    "wrote (ld_mem s) m1 ?a 4" "load32 (boot_view m1) ?a = ld_eax s"
    using put_le_word [OF assms(1), of ?a "ld_eax s"] lay by auto
  obtain m2 where 2: "put_le 4 ?b (ucast (ld_ebx s)) (s\<lparr>ld_mem := m1\<rparr>) = Inr (s\<lparr>ld_mem := m2\<rparr>)" "boot_ready (s\<lparr>ld_mem := m2\<rparr>)"
    "wrote m1 m2 ?b 4" "load32 (boot_view m2) ?b = ld_ebx s"
    using put_le_word [OF 1(2), of ?b "ld_ebx s"] lay by auto
  obtain m3 where 3: "foldR (\<lambda>i. put8 (bss_start sy + of_nat i) 0) [0..<n] (s\<lparr>ld_mem := m2\<rparr>) = Inr (s\<lparr>ld_mem := m3\<rparr>)"
    "boot_ready (s\<lparr>ld_mem := m3\<rparr>)" "wrote m2 m3 (bss_start sy) n"
    using put_range [OF 2(2), of "bss_start sy" n "\<lambda>_. 0"] lay n by auto
  obtain m4 where 4: "put_le 8 (?t - 8) 0x08 (s\<lparr>ld_mem := m3\<rparr>) = Inr (s\<lparr>ld_mem := m4\<rparr>)" "boot_ready (s\<lparr>ld_mem := m4\<rparr>)" "wrote m3 m4 (?t - 8) 8"
    using put_le_range [OF 3(2) top(1,2), of "0x08"] by auto
  obtain m5 where 5: "put_le 8 (?t - 16) (next_symbol sy) (s\<lparr>ld_mem := m4\<rparr>) = Inr (s\<lparr>ld_mem := m5\<rparr>)" "boot_ready (s\<lparr>ld_mem := m5\<rparr>)"
    "wrote m4 m5 (?t - 16) 8"
    using put_le_range [OF 4(2) top(3,4), of "next_symbol sy"] by auto
  obtain m where 6: "put_le 8 (?t - 8) (halt_symbol sy) (s\<lparr>ld_mem := m5\<rparr>) = Inr (s\<lparr>ld_mem := m\<rparr>)" "boot_ready (s\<lparr>ld_mem := m\<rparr>)" "wrote m5 m (?t - 8) 8"
    using put_le_range [OF 5(2) top(1,2), of "halt_symbol sy"] by auto
  have "kernel_start sy s = Inr (s\<lparr>ld_mem := m\<rparr>)"
    unfolding kernel_start_def n_def [symmetric] by (simp add: 1(1) 2(1) 3(1) 4(1) 5(1) 6(1))
  moreover have "load32 (boot_view m) c = load32 (boot_view m2) c" if "2 ^ 64 - 2 ^ 31 \<le> unat c" "unat c + 4 \<le> unat (bss_start sy)" for c
  proof -
    have "unat c + 4 \<le> unat (?t - 8)" "unat c + 4 \<le> unat (?t - 16)" unfolding t using lay that(2) by linarith+
    then show ?thesis
      using wrote_load32 [OF 3(3) that] wrote_load32 [OF 4(3) that(1)] wrote_load32 [OF 5(3) that(1)] wrote_load32 [OF 6(3) that(1)] by simp
  qed
  then have "load32 (boot_view m) ?a = ld_eax s" "load32 (boot_view m) ?b = ld_ebx s"
    using wrote_load32 [OF 2(3), of ?a] 1(4) 2(4) lay by simp_all
  moreover have "m x = ld_mem s x" if "unat x < 0x100000" for x
    using that 1(3) 2(3) 3(3) 4(3) 5(3) 6(3) by (simp add: wrote_def)
  ultimately show ?thesis using 6(2) by blast
qed

section \<open>The regions the kernel ends up with\<close>

definition region_end :: "mmap_entry \<Rightarrow> u64" where
  "region_end e = entry_addr e + entry_len e"

definition highest :: "mmap_entry \<Rightarrow> mmap_entry list \<Rightarrow> bool" where
  "highest h es \<longleftrightarrow> h \<in> set es \<and> (\<forall>e \<in> set es. entry_addr e \<le> entry_addr h)"

text \<open>Room for the pools, the kernel within what its own tables will map, and those tables within the two megabytes
  the loader maps.\<close>

definition boot_room :: "addr \<Rightarrow> u64 \<Rightarrow> bool" where
  "boot_room kernel_end phys_end \<longleftrightarrow> direct_room kernel_end phys_end \<and>
     unat (ROUND_UP_TO kernel_end 4096) + 4096 * table_limit (unat (total_pages kernel_end phys_end)) \<le> 2 ^ 64 - 2 ^ 31 + 2 ^ 21"

definition regions_usable :: "addr \<Rightarrow> mmap_entry list \<Rightarrow> bool" where
  "regions_usable kernel_end es \<longleftrightarrow>
     (\<forall>h \<in> set es. (\<forall>e \<in> set es. entry_addr e \<le> entry_addr h) \<longrightarrow>
        boot_room kernel_end (region_end h) \<and> (\<forall>e \<in> set es. entry_clear kernel_end (region_end h) e))"

lemma sorted_last_highest:
  assumes "addr_sorted es" "es \<noteq> []"
  shows "highest (last es) es"
proof -
  obtain l h where "es = l @ [h]" using assms(2) by (cases es rule: rev_cases) auto
  then show ?thesis using assms(1) by (auto simp: highest_def addr_sorted_def sorted_append)
qed

lemma regions_top:
  assumes "regions_taken mc c n pg" "3 \<le> n" "es = map (\<lambda>k. fst (bios_mmap mc (c + k))) [0..<n - 2]" "regions_usable kernel_end es"
  shows "\<exists>h. highest h es \<and> phys_mem_end_paddr pg = region_end h \<and> boot_room kernel_end (phys_mem_end_paddr pg) \<and>
    entries_apart kernel_end pg"
proof -
  let ?l = "take (n - 2) (memory_map pg)"
  have taken: "memory_map_len pg = int n - 2" "addr_sorted ?l" "mset ?l = mset es" "phys_mem_end_paddr pg = region_end (last ?l)"
    using assms(1) unfolding regions_taken_def assms(3) Let_def region_end_def by auto
  have len: "length ?l = n - 2" using mset_eq_length [OF taken(3)] by (simp add: assms(3))
  then have top: "highest (last ?l) ?l" using assms(2) by (intro sorted_last_highest taken(2)) auto
  have same: "set ?l = set es" using taken(3) by (rule mset_eq_setD)
  have high: "highest (last ?l) es" using top unfolding highest_def same .
  have use: "boot_room kernel_end (phys_mem_end_paddr pg)" "\<forall>e \<in> set es. entry_clear kernel_end (phys_mem_end_paddr pg) e"
    using assms(4) high unfolding regions_usable_def highest_def taken(4) by blast+
  have "nat (memory_map_len pg) = n - 2" using taken(1) assms(2) by simp
  moreover have "n - 2 \<le> length (memory_map pg)" using len by simp
  ultimately have "entries_apart kernel_end pg" using use(2) same by (simp add: entries_apart_def)
  then show ?thesis using high taken(4) use(1) by blast
qed

section \<open>The whole boot\<close>

text \<open>A machine whose disk, keyboard controller, console and processor do what the loader needs.\<close>

definition bootable :: "machine \<Rightarrow> bool" where
  "bootable mc \<longleftrightarrow> disk_works mc \<and> kbd_live (uart mc) \<and> talks mc \<and> bios_e801 mc \<noteq> None \<and>
     check_for_longmode mc = 1"

lemma boot_kernel_runs:
  assumes img: "kernel_image mc" "bootable mc"
    and zero: "load32 (ld_mem s) 0xC00C = 0" "load32 (ld_mem s) 0xC01C = 0" and n: "n \<le> 11"
    and bios: "\<forall>k < n - 1. \<not> snd (bios_mmap mc (mmap_calls s + k))" "snd (bios_mmap mc (mmap_calls s + (n - 1)))"
      "\<forall>k \<le> n - 1. bios_smap mc (mmap_calls s + k)"
    and sy: "start_symbol sy = e_entry (image_ehdr mc)" "in_boot_map (start_symbol sy)" "image_laid_out sy kernel_end"
  shows "\<exists>t m. boot_kernel mc env sy screen s =
      Inr (env\<lparr>mboot_magic := MULTIBOOT2_BOOTLOADER_MAGIC, mboot_tags := 0xC000, ports := uart mc\<rparr>, cold_kernel screen t (boot_view m)) \<and>
    tables_stand m \<and> boot_tags mc (mmap_calls s) (n - 1) (boot_view m)"
proof -
  have n100: "n - 1 \<le> 100" using n by simp
  have mc: "disk_works mc" "talks mc" "bios_e801 mc \<noteq> None" "check_for_longmode mc = 1" using img(2) by (simp_all add: bootable_def)
  obtain io where on: "power_on mc s = loader_main mc (s\<lparr>ld_mem := boot0_read mc (ld_mem s), ld_io := io\<rparr>)"
    using power_on_main [of mc s] img(2) by (auto simp: bootable_def disk_works_def)
  have "load32 (boot0_read mc (ld_mem s)) a = load32 (ld_mem s) a" if "0xC000 \<le> unat a" "unat a + 4 \<le> 0x10000" for a
    using that boot0_read_bytes(2) by (intro load32_cong [of "0xC000" "0x10000"]) auto
  then obtain t where t: "power_on mc s = Inr (long_mode t)" "kernel_entry t = e_entry (image_ehdr mc)"
    "boot_tags mc (mmap_calls s) (n - 1) (ld_mem t)" "\<forall>p \<in> set (load_phdrs mc). segment_in_memory mc (ld_mem t) p"
    using loader_enters_kernel [of mc "s\<lparr>ld_mem := boot0_read mc (ld_mem s), ld_io := io\<rparr>" "n - 1"] img(1) mc zero n100 bios on by auto
  define s' where "s' = long_mode t"
  have s': "boot_ready s'" "kernel_entry s' = start_symbol sy" "ld_eax s' = MULTIBOOT2_BOOTLOADER_MAGIC" "ld_ebx s' = 0xC000"
    using t(2) sy(1) tables_stand_boot by (simp_all add: s'_def long_mode_def boot_ready_def)
  obtain m where m: "kernel_start sy s' = Inr (s'\<lparr>ld_mem := m\<rparr>)" "boot_ready (s'\<lparr>ld_mem := m\<rparr>)"
    "load32 (boot_view m) (mboot_magic_symbol sy) = ld_eax s'" "load32 (boot_view m) (mboot_tags_symbol sy) = ld_ebx s'"
    "\<forall>x. unat x < 0x100000 \<longrightarrow> m x = ld_mem s' x"
    using kernel_start_runs [OF s'(1) sy(3)] by blast
  have "boot_tags mc (mmap_calls s) (n - 1) (boot_view m)"
  proof (rule boot_tags_cong [OF _ n100])
    show "boot_tags mc (mmap_calls s) (n - 1) (ld_mem s')" unfolding s'_def using long_mode_keeps(1) [OF img(1) t(3) n100 t(4)] .
    show "boot_view m x = ld_mem s' x" if "0xC000 \<le> unat x" "unat x < 0x10000" for x
      using m(5) that by (simp add: boot_view_low)
  qed
  moreover have "boot_kernel mc env sy screen s =
      Inr (env\<lparr>mboot_magic := MULTIBOOT2_BOOTLOADER_MAGIC, mboot_tags := 0xC000, ports := uart mc\<rparr>, cold_kernel screen (ld_io s') (boot_view m))"
    using t(1) m(1,3,4) s'(2-4) boot_ready_translate [OF s'(1) sy(2)]
    by (simp add: boot_kernel_def s'_def [symmetric] Let_def)
  ultimately show ?thesis using m(2) by (auto simp: boot_ready_def)
qed

text \<open>What \<^verbatim>\<open>paging_init\<close> writes before it loads CR3 is mapped by the tables it still runs on.\<close>

lemma boot_writes_mapped:
  assumes "tables_stand m" "memory_map_init mboot (cold_paging (boot_view m)) = Inr s1" "boot_room kernel_end (phys_mem_end_paddr s1)"
    "entries_apart kernel_end s1" "2 ^ 64 - 2 ^ 31 + 0x100000 \<le> unat kernel_end"
    "paging_init dev mboot kernel_end handler (cold_paging (boot_view m)) i = Inr (pg, i')" "pg_mem pg x \<noteq> boot_view m x"
  shows "translate (boot_view m) 0x10000 x = Some (k_vtop x)"
proof -
  define fs l where "fs = ROUND_UP_TO kernel_end 4096" and "l = table_limit (unat (total_pages kernel_end (phys_mem_end_paddr s1)))"
  have room: "memory_room kernel_end (phys_mem_end_paddr s1)" "unat fs + 4096 * l \<le> 2 ^ 64 - 2 ^ 31 + 2 ^ 21"
    using assms(3) by (simp_all add: boot_room_def direct_room_def fs_def l_def)
  obtain nodes where built: "paging_built fs (unat (total_pages kernel_end (phys_mem_end_paddr s1))) (boot_view m) pg nodes"
    using paging_init_result [OF assms(2) room(1) assms(4), of dev handler i] assms(6) by (auto simp: fs_def)
  have d: "unat (x - fs) < 4096 * l"
    using built assms(7) unfolding paging_built_def l_def [symmetric] by (meson linorder_not_less)
  have fs: "2 ^ 64 - 2 ^ 31 + 0x100000 \<le> unat fs" using assms(5) room_facts(6) [OF room(1)] by (simp add: fs_def)
  have "x = fs + (x - fs)" by simp
  then have "unat x = unat fs + unat (x - fs)" using d room(2) unat_word_ariths(1) [of fs "x - fs"] by simp
  then have map: "in_boot_map x" using fs d room(2) by (simp add: in_boot_map_def)
  have "k_ptov (of_nat (unat (k_vtop x))) = x" "(of_nat (unat (k_vtop x)) :: u64) = k_vtop x" by simp_all
  then show ?thesis using tables_stand_map [OF assms(1), of "unat (k_vtop x)"] in_boot_map_vtop [OF map] by simp
qed

section \<open>Properties\<close>


text \<open>The sample image: its data and bss in the second segment, the stack behind it.\<close>

definition sample_symbols :: start_symbols where
  "sample_symbols = \<lparr>start_symbol = 0xFFFFFFFF80100058, mboot_magic_symbol = 0xFFFFFFFF80102000, mboot_tags_symbol = 0xFFFFFFFF80102004,
     bss_start = 0xFFFFFFFF80102400, bss_end = 0xFFFFFFFF80102800, stack_top = 0xFFFFFFFF80104000,
     next_symbol = 0xFFFFFFFF801000A0, halt_symbol = 0xFFFFFFFF801000A5\<rparr>"

lemma sample_regions:
  "map (\<lambda>k. fst (bios_mmap sample_boot_machine (0 + k))) [0..<4 - 2] =
     [\<lparr>entry_addr = 0x300000, entry_len = 0x80000, entry_type = 1, entry_zero = 0\<rparr>,
      \<lparr>entry_addr = 0x200000, entry_len = 0x80000, entry_type = 1, entry_zero = 0\<rparr>]"
  by (simp add: sample_boot_machine_def upt_conv_Cons)

lemma sample_room: "boot_room 0xFFFFFFFF80104000 0x380000"
proof -
  have "total_pages 0xFFFFFFFF80104000 0x380000 = 636" by (simp add: total_pages_def k_ptov_def ROUND_UP_TO_def)
  then show ?thesis
    by (simp add: boot_room_def direct_room_def memory_room_def table_limit_def meta_pages_def bitmap_bytes_def ROUND_UP_TO_def)
qed


end
