(* ===== verification/Debugprint.thy ===== *)
theory Debugprint
  imports Wdrealloc Bitmap Printf
begin

text \<open>
  The two printing routines for debugging: \<^verbatim>\<open>wd_print_heap_state\<close> of \<^verbatim>\<open>src/kernel/mem/wdmalloc.c\<close>, which walks the
  heap block by block and the free list link by link and reports what looks wrong, and \<^verbatim>\<open>bitmap_print\<close> of
  \<^verbatim>\<open>src/kernel/drivers/bitmap.c\<close>. The first is only compiled for tests, with the \<^verbatim>\<open>printf\<close> of the host: what it
  prints is modelled as the sequence of its calls with their arguments. The second, in
  the kernel, prints with the kernel's.
\<close>

section \<open>Definitions\<close>

datatype heap_report =
    Heap_state u16
  | Block int addr u64 u16 u16 bool
  | Next addr
  | Magic bool
  | Prev_sz_mismatch u16 u16
  | Newline
  | Zero_size_block
  | Freelist
  | Node int addr u16 addr
  | Alloc_bit_set
  | Out_of_heap
  | End_of_state

text \<open>The lines on one block, the check of the size of its predecessor included.\<close>

definition print_block :: "wdm \<Rightarrow> int \<Rightarrow> addr \<Rightarrow> u64 \<Rightarrow> heap_report list" where
  "print_block w block cur off =
     (let raw_sz = WDM_ACTUAL_SIZE w cur;
          is_free = WDM_IS_FREE w cur
      in [Block block cur off (hdr_prev_sz w cur) raw_sz is_free] @
         (if is_free then [Next (hdr_lom w cur)] else [Magic (hdr_lom w cur = WDM_MAGIC)]) @
         (if off > 0
          then let prv = cur - ucast (hdr_prev_sz w cur) - 12;
                   prev_raw = WDM_ACTUAL_SIZE w prv
               in if prev_raw \<noteq> hdr_prev_sz w cur then [Prev_sz_mismatch prev_raw (hdr_prev_sz w cur)] else []
          else []) @
         [Newline])"

partial_function (option) print_blocks ::
  "wdm \<Rightarrow> int \<Rightarrow> addr \<Rightarrow> u64 \<Rightarrow> heap_report list \<Rightarrow> heap_report list option" where
  "print_blocks w block cur off out =
     (if WDM_IN_HEAP w cur
      then let out = out @ print_block w block cur off;
               step = 12 + ucast (WDM_ACTUAL_SIZE w cur)
           in if step = 12 then Some (out @ [Zero_size_block])
              else print_blocks w (block + 1) (cur + step) (off + step) out
      else Some out)"

partial_function (option) print_freelist :: "wdm \<Rightarrow> int \<Rightarrow> addr \<Rightarrow> heap_report list \<Rightarrow> heap_report list option" where
  "print_freelist w fi f out =
     (if f \<noteq> NULL
      then let out = out @ [Node fi f (WDM_ACTUAL_SIZE w f) (hdr_lom w f)] @ (if WDM_IS_FREE w f then [] else [Alloc_bit_set])
           in if \<not> WDM_IN_HEAP w f then Some (out @ [Out_of_heap])
              else print_freelist w (fi + 1) (hdr_lom w f) (out @ [Newline])
      else Some out)"

definition wd_print_heap_state :: "wdm \<Rightarrow> heap_report list outcome" where
  "wd_print_heap_state w =
     bindR (of_loop (print_blocks w 0 (heap_start w) 0 [Heap_state (heap_size w)])) (\<lambda>out.
     bindR (of_loop (print_freelist w 0 (freelist_head w) (out @ [Freelist]))) (\<lambda>out.
     Inr (out @ [End_of_state])))"

text \<open>The counter is an \<^verbatim>\<open>unsigned int\<close>, the bound has 64 bits.\<close>

definition bitmap_print :: "device \<Rightarrow> memory \<Rightarrow> bitmap_t \<Rightarrow> out_dev \<Rightarrow> out_dev outcome" where
  "bitmap_print dev m bmp s =
     (if unat (bmp_size bmp div 8) \<ge> 2 ^ 32 then Inl Endless_loop
      else foldR (\<lambda>i. printf dev (map of_char '' %lx '') [Vu64 (load64 m (bmp_buf bmp + of_nat (8 * i)))])
             [0..<unat (bmp_size bmp div 8)] s)"

section \<open>The heap as the report has it\<close>

text \<open>The report on the blocks \<open>bs\<close> from address \<open>a\<close> on, at offset \<open>d\<close> of the heap, behind a block of size \<open>p\<close>.\<close>

fun blocks_report :: "wdm \<Rightarrow> nat \<Rightarrow> nat \<Rightarrow> nat \<Rightarrow> nat \<Rightarrow> blk list \<Rightarrow> heap_report list" where
  "blocks_report w k a d p [] = []"
| "blocks_report w k a d p ((s, f) # bs) =
     [Block (int k) (ad a) (of_nat d) (of_nat p) (of_nat s) f,
      if f then Next (hdr_lom w (ad a)) else Magic (hdr_lom w (ad a) = WDM_MAGIC), Newline] @
     (if s = 0 then [Zero_size_block] else blocks_report w (Suc k) (a + 12 + s) (d + 12 + s) s bs)"

text \<open>The report on the free list: its nodes in order, each with the next one.\<close>

fun nodes_report :: "wdm \<Rightarrow> nat \<Rightarrow> nat list \<Rightarrow> heap_report list" where
  "nodes_report w k [] = []"
| "nodes_report w k (x # xs) =
     [Node (int k) (ad x) (WDM_ACTUAL_SIZE w (ad x)) (case xs of [] \<Rightarrow> NULL | y # _ \<Rightarrow> ad y), Newline] @ nodes_report w (Suc k) xs"

lemma print_block_chain:
  assumes "heap_bounds w (xs @ (s, f) # ys)" "chain w (unat (heap_start w)) 0 (xs @ (s, f) # ys)"
    "d = span xs" "a = unat (heap_start w) + d"
  shows "print_block w k (ad a) (of_nat d) =
    [Block k (ad a) (of_nat d) (of_nat (lastsz 0 xs)) (of_nat s) f,
     if f then Next (hdr_lom w (ad a)) else Magic (hdr_lom w (ad a) = WDM_MAGIC), Newline]"
proof -
  have s: "s < 2 ^ 15" by (rule block_size_bound [OF assms(1), of s f]) simp
  have "chain w a (lastsz 0 xs) ((s, f) # ys)" using assms(2-4) by simp
  note here = chain_block [OF this s]
  have "WDM_ACTUAL_SIZE w (ad a - ucast (hdr_prev_sz w (ad a)) - 12) = hdr_prev_sz w (ad a)" if "(of_nat d :: u64) > 0"
  proof -
    have "xs \<noteq> []" using that assms(3) by auto
    then obtain us t g where xs: "xs = us @ [(t, g)]" by (metis rev_exhaust surj_pair)
    have t: "t < 2 ^ 15" by (rule block_size_bound [OF assms(1), of t g]) (simp add: xs)
    have "chain w (unat (heap_start w) + span us) (lastsz 0 us) [(t, g)]" using assms(2) by (simp add: xs)
    note before = chain_block(2) [OF this t]
    have "ad a - ucast (of_nat t :: u16) - 12 = ad (unat (heap_start w) + span us)"
      using t by (simp add: ad_def ucast_of_nat_u16 assms(3,4) xs)
    then show ?thesis using before here(4) by (simp add: xs)
  qed
  then show ?thesis using here by (simp add: print_block_def Let_def)
qed

lemma print_blocks_chain:
  assumes "heap_bounds w (xs @ bs)" "chain w (unat (heap_start w)) 0 (xs @ bs)" "d = span xs" "a = unat (heap_start w) + d"
  shows "print_blocks w (int k) (ad a) (of_nat d) out = Some (out @ blocks_report w k a d (lastsz 0 xs) bs)"
  using assms
proof (induction bs arbitrary: xs k a d out)
  case Nil
  have "a < 2 ^ 64" using Nil by (simp add: heap_bounds_def)
  then have "\<not> WDM_IN_HEAP w (ad a)" using in_heap_ad [OF Nil(1), of a] Nil(3,4) by simp
  then show ?case by (subst print_blocks.simps) simp
next
  case (Cons b bs)
  obtain s f where b: "b = (s, f)" by (cases b)
  note prems = Cons.prems [unfolded b]
  have s: "s < 2 ^ 15" by (rule block_size_bound [OF prems(1), of s f]) simp
  have "a \<in> set (hdrs (unat (heap_start w)) (xs @ (s, f) # bs))" using prems(3,4) by simp
  then have "WDM_IN_HEAP w (ad a)" by (rule in_heap_hdr(1) [OF prems(1)])
  moreover have chain: "chain w a (lastsz 0 xs) ((s, f) # bs)" using prems(2-4) by simp
  have "(ucast (WDM_ACTUAL_SIZE w (ad a)) :: u64) = of_nat s" unfolding chain_block(2) [OF chain s] using s by (simp add: ucast_of_nat_u16)
  moreover have "(12 + of_nat s :: u64) = 12 \<longleftrightarrow> s = 0" using s of_nat_u64_inj [of s 0] by simp
  moreover have "ad a + (12 + of_nat s) = ad (a + 12 + s)" "(of_nat d + (12 + of_nat s) :: u64) = of_nat (d + 12 + s)"
    by (simp_all add: ad_def)
  moreover note print_block_chain [OF prems, of "int k"]
  moreover have "print_blocks w (int k + 1) (ad (a + 12 + s)) (of_nat (d + 12 + s)) out' =
      Some (out' @ blocks_report w (Suc k) (a + 12 + s) (d + 12 + s) s bs)" for out'
    using Cons.IH [of "xs @ [(s, f)]" "d + 12 + s" "a + 12 + s" "Suc k" out'] prems by (simp add: add.commute)
  ultimately show ?case by (subst print_blocks.simps) (simp add: b Let_def del: of_nat_Suc of_nat_add)
qed

lemma print_freelist_links:
  assumes "heap_bounds w bs" "flinks w p fl" "\<forall>x \<in> set fl. x \<in> set (hdrs (unat (heap_start w)) bs) \<and> WDM_IS_FREE w (ad x)"
  shows "print_freelist w (int k) p out = Some (out @ nodes_report w k fl)"
  using assms(2,3)
proof (induction fl arbitrary: p k out)
  case Nil
  then show ?case by (subst print_freelist.simps) simp
next
  case (Cons x fl)
  have x: "p = ad x" "WDM_IN_HEAP w (ad x)" "ad x \<noteq> NULL" "WDM_IS_FREE w (ad x)"
    using Cons.prems in_heap_hdr [OF assms(1), of x] by simp_all
  have "hdr_lom w (ad x) = (case fl of [] \<Rightarrow> NULL | y # _ \<Rightarrow> ad y)" using Cons.prems(1) by (cases fl) simp_all
  moreover have "print_freelist w (int (Suc k)) (hdr_lom w (ad x)) out' = Some (out' @ nodes_report w (Suc k) fl)" for out'
    using Cons.IH [of "hdr_lom w (ad x)" "Suc k" out'] Cons.prems by simp
  ultimately show ?case using x by (subst print_freelist.simps) (simp add: Let_def add.commute)
qed

lemma frees_free:
  assumes "heap_inv w bs fl" "x \<in> set fl"
  shows "x \<in> set (hdrs (unat (heap_start w)) bs)" "WDM_IS_FREE w (ad x)"
proof -
  have x: "x \<in> set (frees (unat (heap_start w)) bs)" using assms by (simp add: heap_inv_def)
  then show "x \<in> set (hdrs (unat (heap_start w)) bs)" by (rule frees_hdrs)
  obtain xs s ys where s: "bs = xs @ (s, True) # ys" "x = unat (heap_start w) + span xs" using x by (rule frees_split)
  have "s < 2 ^ 15" using assms(1) block_size_bound [of w bs s True] by (simp add: heap_inv_def s(1))
  then show "WDM_IS_FREE w (ad x)"
    using chain_block(1) [of w x "lastsz 0 xs" s True ys] assms(1) s by (simp add: heap_inv_def)
qed

section \<open>Properties\<close>



text \<open>\<^verbatim>\<open>bitmap_print\<close> uses a length modifier the kernel's \<^verbatim>\<open>printf\<close> does not know: whatever the words of the bitmap
  are, each comes out as the same four characters.\<close>

lemma bitmap_print_text:
  "render (map of_char '' %lx '') [Vu64 v] = (map of_char '' Xx '', None)"
  by (simp add: directive_def)

lemma bitmap_print_blind:
  assumes "bmp_size bmp' = bmp_size bmp"
  shows "bitmap_print dev m' bmp' s = bitmap_print dev m bmp s"
proof -
  have "length (map of_char '' %lx '' :: u8 list) < 0xFFFFFFFF" by simp
  then have eq: "printf dev (map of_char '' %lx '') [Vu64 v] = printf dev (map of_char '' %lx '') [Vu64 v']" for v v'
    unfolding printf_def vprintf_to_device_def
    by (intro ext) (simp only: vprintf_with_render bitmap_print_text)
  have "(\<lambda>i. printf dev (map of_char '' %lx '') [Vu64 (load64 m' (bmp_buf bmp' + of_nat (8 * i)))]) =
      (\<lambda>i. printf dev (map of_char '' %lx '') [Vu64 (load64 m (bmp_buf bmp + of_nat (8 * i)))])"
    by (rule ext) (rule eq)
  then show ?thesis unfolding bitmap_print_def assms by (simp only:)
qed

end
