(* ===== verification/Sched.thy ===== *)
theory Sched
  imports Kstring Interrupts
begin

text \<open>
  The task control blocks of \<^verbatim>\<open>src/kernel/sched/scheduler.c\<close> and \<^verbatim>\<open>scheduler.h\<close>: a block lies at
  the start of the page its task's stack lives in. The stack pointer and the address of the name
  literal are arguments.
\<close>

section \<open>Definitions\<close>

datatype thread_state_t = T_RUNNING | T_READY | T_BLOCKED | T_DYING

fun thread_state_value :: "thread_state_t \<Rightarrow> u32" where
  "thread_state_value T_RUNNING = 0"
| "thread_state_value T_READY = 1"
| "thread_state_value T_BLOCKED = 2"
| "thread_state_value T_DYING = 3"

definition TASK_MAGIC :: u32 where "TASK_MAGIC = 0xF0CACC1A"
abbreviation (input) TASK_NAME_SIZE :: nat where "TASK_NAME_SIZE \<equiv> 16"

text \<open>The fields of \<^verbatim>\<open>tcb_t\<close> at their offsets.\<close>

definition tcb_name :: "memory \<Rightarrow> addr \<Rightarrow> u8 list" where
  "tcb_name m t = map (\<lambda>i. m (t + of_nat i)) [0..<TASK_NAME_SIZE]"

definition tcb_tid :: "memory \<Rightarrow> addr \<Rightarrow> u16" where
  "tcb_tid m t = load16 m (t + 16)"

definition tcb_state :: "memory \<Rightarrow> addr \<Rightarrow> u32" where
  "tcb_state m t = load32 m (t + 20)"

definition tcb_magic :: "memory \<Rightarrow> addr \<Rightarrow> u32" where
  "tcb_magic m t = load32 m (t + 24)"

record sched =
  next_tid :: u32
  sc_mem :: memory

definition sched_task_init :: "addr \<Rightarrow> addr \<Rightarrow> thread_state_t \<Rightarrow> sched \<Rightarrow> sched" where
  "sched_task_init task name init_state s =
     (let m = memcpy (sc_mem s) task name (of_nat TASK_NAME_SIZE);
          m = store32 m (task + 24) TASK_MAGIC;
          m = store16 m (task + 16) (ucast (next_tid s));
          m = store32 m (task + 20) (thread_state_value init_state)
      in s\<lparr>sc_mem := m, next_tid := next_tid s + 1\<rparr>)"

definition sched_get_curr_task :: "addr \<Rightarrow> addr" where
  "sched_get_curr_task sp = ROUND_DOWN_TO sp 4096"

definition sched_setup_init_task :: "addr \<Rightarrow> addr \<Rightarrow> intr \<Rightarrow> sched \<Rightarrow> sched outcome" where
  "sched_setup_init_task sp init_name i s =
     ASSERT (interrupts_active i = False)
       (let curr_tcb = sched_get_curr_task sp
        in Inr (sched_task_init curr_tcb init_name T_RUNNING s))"

section \<open>The block of a new task\<close>

lemma tcb_fields:
  fixes m :: memory
  defines "m' t tid st \<equiv> store32 (store16 (store32 m (t + 24) TASK_MAGIC) (t + 16) tid) (t + 20) st"
  shows "tcb_tid (m' t tid st) t = tid" "tcb_state (m' t tid st) t = st" "tcb_magic (m' t tid st) t = TASK_MAGIC"
    and "\<not> unat (x - t) < 28 \<or> unat (x - t) < 16 \<Longrightarrow> m' t tid st x = m x"
proof -
  have skip: "(load_le n (store_le k m' (t + of_nat i) v) (t + of_nat j) :: 'b::len word) = load_le n m' (t + of_nat j)"
    if "i + k \<le> j \<or> j + n \<le> i" "i + k \<le> 28" "j + n \<le> 28" for n k m' i j and v :: "'a::len word"
    using that by (intro load_store_offsets) auto
  have same: "load_le 4 (store_le 4 m' b v) b = v" for m' b and v :: u32
    by (rule load_store_same) simp_all
  have same2: "load_le 2 (store_le 2 m' b v) b = v" for m' b and v :: u16
    by (rule load_store_same) simp_all
  note skips = skip [of 20 4 16 2, simplified] skip [of 20 4 24 4, simplified] skip [of 16 2 24 4, simplified]
  show "tcb_tid (m' t tid st) t = tid" "tcb_state (m' t tid st) t = st" "tcb_magic (m' t tid st) t = TASK_MAGIC"
    by (simp_all add: tcb_tid_def tcb_state_def tcb_magic_def m'_def load16_def load32_def store16_def store32_def
        same same2 skips)
  assume x: "\<not> unat (x - t) < 28 \<or> unat (x - t) < 16"
  define d where "d = unat (x - t)"
  have xd: "x = t + of_nat d" "d < 2 ^ 64" using unat_u64_less [of "x - t"] by (simp_all add: d_def)
  have out: "store_le k n (t + of_nat i) v x = n x" if "16 \<le> i" "i + k \<le> 28" for k n i and v :: "'a::len word"
  proof (rule store_le_outside)
    show "\<not> unat (x - (t + of_nat i)) < k"
      unfolding xd(1) using that x xd(2) by (subst unat_of_nat_diff) (auto simp: d_def)
  qed (use that in simp)
  show "m' t tid st x = m x"
    by (simp add: m'_def store16_def store32_def out [of 16 2, simplified] out [of 20 4, simplified] out [of 24 4, simplified])
qed

section \<open>Properties\<close>

text \<open>C39: \<^verbatim>\<open>sched_task_init\<close> gives the task the 16 bytes at the name pointer, the next task number cut to
  16 bits, the state and the magic number, and touches nothing outside the block. The 16 bytes are read
  whatever the length of the name, so a shorter literal is read past its end.\<close>

theorem sched_task_init_block:
  assumes "copy_safe task name 16" "s' = sched_task_init task name st s"
  shows "tcb_name (sc_mem s') task = map (\<lambda>i. sc_mem s (name + of_nat i)) [0..<16] \<and>
    tcb_tid (sc_mem s') task = ucast (next_tid s) \<and> next_tid s' = next_tid s + 1 \<and>
    tcb_state (sc_mem s') task = thread_state_value st \<and> tcb_magic (sc_mem s') task = TASK_MAGIC \<and>
    (\<forall>x. 28 \<le> unat (x - task) \<longrightarrow> sc_mem s' x = sc_mem s x)"
proof -
  define m where "m = memcpy (sc_mem s) task name 16"
  have m: "m x = (if unat (x - task) < 16 then sc_mem s (name + (x - task)) else sc_mem s x)" for x
    using memmove_apply [of task name 16 "sc_mem s" x] assms(1) by (simp add: m_def memcpy_def)
  have s': "sc_mem s' = store32 (store16 (store32 m (task + 24) TASK_MAGIC) (task + 16) (ucast (next_tid s)))
      (task + 20) (thread_state_value st)" "next_tid s' = next_tid s + 1"
    by (simp_all add: assms(2) sched_task_init_def m_def Let_def)
  have "sc_mem s' (task + of_nat i) = sc_mem s (name + of_nat i)" if "i < 16" for i
  proof -
    have "unat (of_nat i :: u64) = i" using that by (intro unat_of_nat_u64) simp
    then show ?thesis using that tcb_fields(4) [of "task + of_nat i" task] by (simp add: s' m)
  qed
  then have "tcb_name (sc_mem s') task = map (\<lambda>i. sc_mem s (name + of_nat i)) [0..<16]"
    unfolding tcb_name_def by (intro map_cong) auto
  moreover have "sc_mem s' x = sc_mem s x" if "28 \<le> unat (x - task)" for x
    using that tcb_fields(4) [of x task] by (simp add: s' m)
  ultimately show ?thesis using s'(2) by (simp add: s'(1) tcb_fields(1-3))
qed

theorem sched_task_init_block_witness:
  "tcb_tid (sc_mem (sched_task_init 0x5000 0x9000 T_READY \<lparr>next_tid = 0x10001, sc_mem = (\<lambda>_. 7)\<rparr>)) 0x5000 = 1"
  using sched_task_init_block [of "0x5000" "0x9000" _ T_READY "\<lparr>next_tid = 0x10001, sc_mem = (\<lambda>_. 7)\<rparr>", OF _ refl]
  by (simp add: copy_safe_def)

end
