(* ===== verification/Klist.thy ===== *)
theory Klist
  imports Prelude
begin

text \<open>
  The circular doubly linked list of \<^verbatim>\<open>src/kernel/sched/list.c\<close> over a store of list heads and
  list elements: a pointer that leads to no object is a fault, so that every dereference of the
  code is visible. The abstraction \<open>is_list\<close> relates the store to the sequence of element
  addresses; each operation is shown to do to that sequence what its name says.
\<close>

section \<open>Definitions\<close>

record list_head_t =
  first :: addr
  len :: int

record list_elem_t =
  head :: addr
  prev :: addr
  "next" :: addr

record lstore =
  heads :: "addr \<Rightarrow> list_head_t option"
  elems :: "addr \<Rightarrow> list_elem_t option"

definition deref :: "(addr \<Rightarrow> 'a option) \<Rightarrow> addr \<Rightarrow> 'a outcome" where
  "deref f p = (if p = NULL then Inl Bad_pointer
                else case f p of None \<Rightarrow> Inl Bad_pointer | Some x \<Rightarrow> Inr x)"

text \<open>\<^verbatim>\<open>p->field = ...\<close> on a list head or on an element.\<close>

definition upd_head :: "addr \<Rightarrow> (list_head_t \<Rightarrow> list_head_t) \<Rightarrow> lstore \<Rightarrow> lstore outcome" where
  "upd_head p f s = bindR (deref (heads s) p) (\<lambda>h. Inr (s\<lparr>heads := (heads s)(p \<mapsto> f h)\<rparr>))"

definition upd_elem :: "addr \<Rightarrow> (list_elem_t \<Rightarrow> list_elem_t) \<Rightarrow> lstore \<Rightarrow> lstore outcome" where
  "upd_elem p f s = bindR (deref (elems s) p) (\<lambda>e. Inr (s\<lparr>elems := (elems s)(p \<mapsto> f e)\<rparr>))"

text \<open>\<^verbatim>\<open>head->len++\<close> and \<^verbatim>\<open>head->len--\<close> on a 32-bit \<open>int\<close>.\<close>

definition int_checked :: "int \<Rightarrow> int outcome" where
  "int_checked n = (if - (2 ^ 31) \<le> n \<and> n < 2 ^ 31 then Inr n else Inl Signed_overflow)"

definition add_len :: "addr \<Rightarrow> int \<Rightarrow> lstore \<Rightarrow> lstore outcome" where
  "add_len h d s = bindR (deref (heads s) h) (\<lambda>hd.
     bindR (int_checked (len hd + d)) (\<lambda>n. upd_head h (\<lambda>hd. hd\<lparr>len := n\<rparr>) s))"

definition list_init :: "addr \<Rightarrow> lstore \<Rightarrow> lstore outcome" where
  "list_init h s = bindR (upd_head h (\<lambda>hd. hd\<lparr>first := NULL\<rparr>) s) (upd_head h (\<lambda>hd. hd\<lparr>len := 0\<rparr>))"

definition list_insert_between :: "addr \<Rightarrow> addr \<Rightarrow> addr \<Rightarrow> addr \<Rightarrow> lstore \<Rightarrow> lstore outcome" where
  "list_insert_between h p n new s =
     bindR (deref (elems s) p) (\<lambda>pe. ASSERT (next pe = n)
    (bindR (deref (elems s) n) (\<lambda>ne. ASSERT (prev ne = p)
    (bindR (deref (elems s) new) (\<lambda>e. ASSERT (head e = NULL)
    (bindR (upd_elem p (\<lambda>e. e\<lparr>next := new\<rparr>) s) (\<lambda>s.
     bindR (upd_elem n (\<lambda>e. e\<lparr>prev := new\<rparr>) s) (\<lambda>s.
     bindR (upd_elem new (\<lambda>e. e\<lparr>prev := p\<rparr>) s) (\<lambda>s.
     bindR (upd_elem new (\<lambda>e. e\<lparr>next := n\<rparr>) s) (\<lambda>s.
     bindR (upd_elem new (\<lambda>e. e\<lparr>head := h\<rparr>) s) (\<lambda>s.
     add_len h 1 s)))))))))))"

definition list_remove_elem :: "addr \<Rightarrow> addr \<Rightarrow> lstore \<Rightarrow> (addr \<times> lstore) outcome" where
  "list_remove_elem h e s =
     bindR (deref (elems s) e) (\<lambda>el.
       let p = prev el; n = next el in
     bindR (upd_elem p (\<lambda>x. x\<lparr>next := n\<rparr>) s) (\<lambda>s.
     bindR (upd_elem n (\<lambda>x. x\<lparr>prev := p\<rparr>) s) (\<lambda>s.
     bindR (upd_elem e (\<lambda>x. x\<lparr>next := NULL\<rparr>) s) (\<lambda>s.
     bindR (upd_elem e (\<lambda>x. x\<lparr>prev := NULL\<rparr>) s) (\<lambda>s.
     bindR (upd_elem e (\<lambda>x. x\<lparr>head := NULL\<rparr>) s) (\<lambda>s.
     bindR (add_len h (- 1) s) (\<lambda>s. Inr (e, s))))))))"

text \<open>
  The walk of \<^verbatim>\<open>list_get\<close>: \<open>k\<close> steps towards \<^verbatim>\<open>prev\<close> or \<^verbatim>\<open>next\<close>. The counter starts
  at 0 or at \<open>len\<close> and moves by one towards the index, so the loop makes that many steps.
\<close>

primrec list_walk :: "nat \<Rightarrow> bool \<Rightarrow> addr \<Rightarrow> lstore \<Rightarrow> addr outcome" where
  "list_walk 0 backwards cur s = Inr cur"
| "list_walk (Suc k) backwards cur s =
     bindR (deref (elems s) cur) (\<lambda>e. list_walk k backwards (if backwards then prev e else next e) s)"

definition list_get :: "addr \<Rightarrow> int \<Rightarrow> lstore \<Rightarrow> addr outcome" where
  "list_get h index s =
     ASSERT (h \<noteq> NULL) (ASSERT (index \<ge> 0)
    (bindR (deref (heads s) h) (\<lambda>hd. ASSERT (index < len hd)
       (let backwards = index > len hd div 2;
            ctr = (if backwards then len hd else 0)
        in list_walk (nat \<bar>ctr - index\<bar>) backwards (first hd) s))))"

definition list_push :: "addr \<Rightarrow> addr \<Rightarrow> lstore \<Rightarrow> lstore outcome" where
  "list_push h new s =
     ASSERT (h \<noteq> NULL) (ASSERT (new \<noteq> NULL)
    (bindR (deref (heads s) h) (\<lambda>hd.
       if len hd = 0 then
         bindR (upd_head h (\<lambda>hd. hd\<lparr>first := new\<rparr>) s) (\<lambda>s.
         bindR (upd_elem new (\<lambda>e. e\<lparr>next := new\<rparr>) s) (\<lambda>s.
         bindR (upd_elem new (\<lambda>e. e\<lparr>prev := new\<rparr>) s) (\<lambda>s.
         bindR (upd_elem new (\<lambda>e. e\<lparr>head := h\<rparr>) s) (\<lambda>s.
         add_len h 1 s))))
       else bindR (deref (elems s) (first hd)) (\<lambda>fe.
         list_insert_between h (prev fe) (first hd) new s))))"

definition list_push_first :: "addr \<Rightarrow> addr \<Rightarrow> lstore \<Rightarrow> lstore outcome" where
  "list_push_first h new s =
     ASSERT (h \<noteq> NULL) (ASSERT (new \<noteq> NULL)
    (bindR (list_push h new s) (\<lambda>s.
     bindR (deref (heads s) h) (\<lambda>hd.
     bindR (deref (elems s) (first hd)) (\<lambda>fe.
       upd_head h (\<lambda>hd. hd\<lparr>first := prev fe\<rparr>) s)))))"

definition list_pop :: "addr \<Rightarrow> lstore \<Rightarrow> lstore outcome" where
  "list_pop h s =
     ASSERT (h \<noteq> NULL)
    (bindR (deref (heads s) h) (\<lambda>hd. ASSERT (len hd > 0)
    (bindR (deref (elems s) (first hd)) (\<lambda>fe.
     bindR (list_remove_elem h (prev fe) s) (\<lambda>(_, s).
     bindR (deref (heads s) h) (\<lambda>hd.
       if len hd = 0 then upd_head h (\<lambda>hd. hd\<lparr>first := NULL\<rparr>) s else Inr s))))))"

definition list_pop_first :: "addr \<Rightarrow> lstore \<Rightarrow> lstore outcome" where
  "list_pop_first h s =
     ASSERT (h \<noteq> NULL)
    (bindR (deref (heads s) h) (\<lambda>hd. ASSERT (len hd > 0)
    (bindR (deref (elems s) (first hd)) (\<lambda>fe.
     let new_first = next fe in
     bindR (list_remove_elem h (first hd) s) (\<lambda>(_, s).
     bindR (deref (heads s) h) (\<lambda>hd.
       upd_head h (\<lambda>hd. hd\<lparr>first := (if len hd = 0 then NULL else new_first)\<rparr>) s))))))"

definition list_insert :: "addr \<Rightarrow> addr \<Rightarrow> int \<Rightarrow> lstore \<Rightarrow> lstore outcome" where
  "list_insert h new index s =
     ASSERT (h \<noteq> NULL) (ASSERT (index \<ge> 0)
    (bindR (deref (heads s) h) (\<lambda>hd. ASSERT (index \<le> len hd) (ASSERT (new \<noteq> NULL)
       (if index = 0 then list_push_first h new s
        else if index = len hd then list_push h new s
        else bindR (list_get h index s) (\<lambda>e.
             bindR (deref (elems s) e) (\<lambda>el. list_insert_between h (prev el) e new s)))))))"

definition list_remove :: "addr \<Rightarrow> int \<Rightarrow> lstore \<Rightarrow> lstore outcome" where
  "list_remove h index s =
     ASSERT (h \<noteq> NULL) (ASSERT (index \<ge> 0)
    (bindR (deref (heads s) h) (\<lambda>hd. ASSERT (index < len hd)
       (if index = 0 then list_pop_first h s
        else if index = len hd - 1 then list_pop h s
        else bindR (list_get h index s) (\<lambda>e.
             bindR (list_remove_elem h e s) (\<lambda>(_, s). Inr s))))))"

text \<open>
  \<^verbatim>\<open>list_foreach\<close> calls back with the element and its position; the callback may change the
  store and a state of its own (\<^verbatim>\<open>aux\<close>). \<open>k\<close> bounds the iterations by the largest \<open>int\<close>,
  the loop condition re-reads \<^verbatim>\<open>head->len\<close>.
\<close>

primrec list_foreach_loop ::
  "nat \<Rightarrow> addr \<Rightarrow> (addr \<Rightarrow> int \<Rightarrow> lstore \<times> 'x \<Rightarrow> (lstore \<times> 'x) outcome) \<Rightarrow> addr \<Rightarrow> int
     \<Rightarrow> lstore \<times> 'x \<Rightarrow> (lstore \<times> 'x) outcome" where
  "list_foreach_loop 0 h f cur i sx = Inl Signed_overflow"
| "list_foreach_loop (Suc k) h f cur i sx =
     bindR (deref (heads (fst sx)) h) (\<lambda>hd.
       if i < len hd \<and> cur \<noteq> NULL then
         bindR (f cur i sx) (\<lambda>sx.
         bindR (deref (elems (fst sx)) cur) (\<lambda>e.
           list_foreach_loop k h f (next e) (i + 1) sx))
       else Inr sx)"

definition list_foreach ::
  "addr \<Rightarrow> (addr \<Rightarrow> int \<Rightarrow> lstore \<times> 'x \<Rightarrow> (lstore \<times> 'x) outcome) \<Rightarrow> lstore \<times> 'x
     \<Rightarrow> (lstore \<times> 'x) outcome" where
  "list_foreach h f sx =
     ASSERT (h \<noteq> NULL)
    (bindR (deref (heads (fst sx)) h) (\<lambda>hd. list_foreach_loop (2 ^ 31) h f (first hd) 0 sx))"

section \<open>Rings of elements\<close>

text \<open>The pairs of neighbours of a sequence read as a circle.\<close>

definition adjacent :: "'a list \<Rightarrow> ('a \<times> 'a) list" where
  "adjacent xs = zip xs (tl xs)"

definition circle :: "'a list \<Rightarrow> ('a \<times> 'a) list" where
  "circle xs = zip xs (rotate1 xs)"

definition linked :: "lstore \<Rightarrow> addr \<Rightarrow> addr \<Rightarrow> addr \<Rightarrow> bool" where
  "linked s h a b \<longleftrightarrow>
     (\<exists>p. elems s a = Some \<lparr>head = h, prev = p, next = b\<rparr>) \<and>
     (\<exists>n. elems s b = Some \<lparr>head = h, prev = a, next = n\<rparr>)"

definition ring :: "lstore \<Rightarrow> addr \<Rightarrow> addr list \<Rightarrow> bool" where
  "ring s h xs \<longleftrightarrow> distinct xs \<and> NULL \<notin> set xs \<and> (\<forall>(a, b) \<in> set (circle xs). linked s h a b)"

lemma circle_adjacent: "xs \<noteq> [] \<Longrightarrow> circle xs = adjacent xs @ [(last xs, hd xs)]"
proof (cases xs)
  case (Cons x ys)
  let ?b = "butlast (x # ys)" and ?l = "last (x # ys)"
  have "zip (?b @ [?l]) (ys @ [x]) = zip ?b ys @ [(?l, x)]" by simp
  moreover have "zip (?b @ [?l]) ys = zip ?b ys" by (subst zip_append1) simp
  ultimately have "zip (x # ys) (ys @ [x]) = zip (x # ys) ys @ [(?l, x)]"
    by (simp only: append_butlast_last_id [OF list.distinct(2)])
  then show ?thesis by (simp add: circle_def adjacent_def Cons)
qed simp

lemma adjacent_snoc: "xs \<noteq> [] \<Longrightarrow> adjacent (xs @ [x]) = adjacent xs @ [(last xs, x)]"
proof (induction xs)
  case (Cons a xs)
  then show ?case by (cases xs) (auto simp: adjacent_def)
qed simp

lemma adjacent_in: "(a, b) \<in> set (adjacent xs) \<Longrightarrow> a \<in> set (butlast xs) \<and> b \<in> set (tl xs)"
proof -
  have "adjacent xs = zip (butlast xs) (tl xs)"
    unfolding adjacent_def by (cases xs rule: rev_cases) (auto simp: zip_append1 tl_append split: list.splits)
  then show "(a, b) \<in> set (adjacent xs) \<Longrightarrow> a \<in> set (butlast xs) \<and> b \<in> set (tl xs)"
    by (auto dest: set_zip_leftD set_zip_rightD)
qed

lemma adjacent_distinct:
  assumes "(a, b) \<in> set (adjacent xs)" "distinct xs"
  shows "a \<in> set xs" "b \<in> set xs" "a \<noteq> last xs" "b \<noteq> hd xs"
proof -
  note ab = adjacent_in [OF assms(1)]
  show "a \<in> set xs" "b \<in> set xs"
    using ab by (auto dest: in_set_butlastD) (metis list.set_sel(2) tl_Nil)
  show "a \<noteq> last xs" using ab assms(2) by (cases xs rule: rev_cases) auto
  show "b \<noteq> hd xs" using ab assms(2) by (cases xs) auto
qed

lemma circle_rotate1: "circle (rotate1 xs) = rotate1 (circle xs)"
proof (cases xs)
  case (Cons x ys)
  show ?thesis
  proof (cases ys)
    case (Cons y zs)
    then show ?thesis
      using zip_append [of "y # zs" "zs @ [x]" "[x]" "[y]"] \<open>xs = x # ys\<close>
      by (simp add: circle_def)
  qed (simp add: circle_def Cons)
qed (simp add: circle_def)

lemma ring_rotate1: "ring s h (rotate1 xs) \<longleftrightarrow> ring s h xs"
  by (simp add: ring_def circle_rotate1)

lemma ring_rotate: "ring s h (rotate k xs) \<longleftrightarrow> ring s h xs"
  by (induction k) (simp_all add: ring_rotate1)

lemma deref_Some [simp]: "f p = Some x \<Longrightarrow> p \<noteq> NULL \<Longrightarrow> deref f p = Inr x"
  by (simp add: deref_def)

lemma deref_eq_Inr: "deref f p = Inr x \<longleftrightarrow> p \<noteq> NULL \<and> f p = Some x"
  by (simp add: deref_def split: option.splits)

text \<open>What the ring says of its elements.\<close>

lemma ring_snoc:
  assumes "ring s h (xs @ [x])" "xs \<noteq> []"
  shows "linked s h (last xs) x" "linked s h x (hd xs)"
    "(a, b) \<in> set (adjacent xs) \<Longrightarrow> linked s h a b"
  using assms by (auto simp: ring_def circle_adjacent adjacent_snoc)

lemma ring_first:
  assumes "ring s h xs" "xs \<noteq> []"
  shows "hd xs \<noteq> NULL" "last xs \<noteq> NULL" "linked s h (last xs) (hd xs)"
    "linked s h (hd xs) (hd (rotate1 xs))"
proof -
  show "hd xs \<noteq> NULL" "last xs \<noteq> NULL"
    using assms unfolding ring_def by (metis hd_in_set, metis last_in_set)
  show "linked s h (last xs) (hd xs)" using assms by (auto simp: ring_def circle_adjacent)
  have "(hd xs, hd (rotate1 xs)) \<in> set (circle xs)"
  proof (cases xs)
    case (Cons x ys)
    then show ?thesis by (cases ys) (simp_all add: circle_def)
  qed (use assms(2) in simp)
  then show "linked s h (hd xs) (hd (rotate1 xs))" using assms(1) by (auto simp: ring_def)
qed

lemma ring_elem: "ring s h xs \<Longrightarrow> x \<in> set xs \<Longrightarrow> \<exists>p n. elems s x = Some \<lparr>head = h, prev = p, next = n\<rparr>"
proof -
  assume r: "ring s h xs" and "x \<in> set xs"
  then obtain i where "i < length xs" "x = xs ! i" by (auto simp: in_set_conv_nth)
  moreover from this have "xs \<noteq> []" by auto
  ultimately have "x = hd (rotate i xs)" "rotate i xs \<noteq> []" by (simp_all add: hd_rotate_conv_nth)
  with ring_first(4) [of s h "rotate i xs"] r show ?thesis by (auto simp: ring_rotate linked_def)
qed

lemma ring_walk_forward:
  "ring s h xs \<Longrightarrow> xs \<noteq> [] \<Longrightarrow> list_walk k False (hd xs) s = Inr (hd (rotate k xs))"
proof (induction k arbitrary: xs)
  case (Suc k)
  from ring_first [OF Suc.prems] obtain p where
    "elems s (hd xs) = Some \<lparr>head = h, prev = p, next = hd (rotate1 xs)\<rparr>" "hd xs \<noteq> NULL"
    by (auto simp: linked_def)
  then show ?case
    using Suc.IH [of "rotate1 xs"] Suc.prems by (simp add: ring_rotate1 rotate1_rotate_swap)
qed simp

lemma ring_walk_backward:
  "ring s h xs \<Longrightarrow> xs \<noteq> [] \<Longrightarrow> list_walk k True (hd (rotate k xs)) s = Inr (hd xs)"
proof (induction k)
  case (Suc k)
  let ?ys = "rotate k xs"
  have "ring s h ?ys" "ring s h (rotate1 ?ys)" "rotate1 ?ys \<noteq> []" "?ys \<noteq> []"
    using Suc.prems by (simp_all add: ring_rotate ring_rotate1)
  from ring_first(4) [OF this(1,4)] ring_first(1) [OF this(2,3)] obtain n where
    "elems s (hd (rotate1 ?ys)) = Some \<lparr>head = h, prev = hd ?ys, next = n\<rparr>"
    "hd (rotate1 ?ys) \<noteq> NULL"
    by (auto simp: linked_def)
  then show ?case using Suc by simp
qed simp

section \<open>Inserting into and removing from a ring\<close>

lemma add_len_eq:
  assumes "heads s h = Some hd0" "h \<noteq> NULL" "- (2 ^ 31) \<le> len hd0 + d" "len hd0 + d < 2 ^ 31"
  shows "add_len h d s = Inr (s\<lparr>heads := (heads s)(h \<mapsto> hd0\<lparr>len := len hd0 + d\<rparr>)\<rparr>)"
  using assms by (simp add: add_len_def upd_head_def int_checked_def)

lemma elem_set_all:
  "(e :: list_elem_t)\<lparr>prev := a, next := b, head := c\<rparr> = \<lparr>head = c, prev = a, next = b\<rparr>"
  "(e :: list_elem_t)\<lparr>next := b, prev := a, head := c\<rparr> = \<lparr>head = c, prev = a, next = b\<rparr>"
  by (cases e, simp)+

lemma ring_insert:
  assumes r: "ring s h xs" "xs \<noteq> []" and new: "new \<notin> set xs" "new \<noteq> NULL"
    "elems s new = Some e" "head e = NULL"
    and hd: "heads s h = Some hd0" "h \<noteq> NULL" "0 \<le> len hd0" "len hd0 + 1 < 2 ^ 31"
  shows "\<exists>s'. list_insert_between h (last xs) (hd xs) new s = Inr s' \<and> ring s' h (xs @ [new]) \<and>
    heads s' = (heads s)(h \<mapsto> hd0\<lparr>len := len hd0 + 1\<rparr>) \<and>
    (\<forall>x. x \<notin> set (new # xs) \<longrightarrow> elems s' x = elems s x)"
proof -
  obtain p n where l: "elems s (last xs) = Some \<lparr>head = h, prev = p, next = hd xs\<rparr>"
    and f: "elems s (hd xs) = Some \<lparr>head = h, prev = last xs, next = n\<rparr>"
    and nn: "hd xs \<noteq> NULL" "last xs \<noteq> NULL"
    using ring_first [OF r] by (auto simp: linked_def)
  have ne: "new \<noteq> hd xs" "new \<noteq> last xs" using new(1) r(2) by (metis hd_in_set, metis last_in_set)
  define s1 where "s1 = (elems s)(last xs \<mapsto> \<lparr>head = h, prev = p, next = new\<rparr>)"
  define s2 where "s2 = s1(hd xs \<mapsto> (the (s1 (hd xs)))\<lparr>prev := new\<rparr>)"
  define s3 where "s3 = s2(new \<mapsto> \<lparr>head = h, prev = last xs, next = hd xs\<rparr>)"
  have s1: "s1 (hd xs) = Some (the (s1 (hd xs)))" using f by (auto simp: s1_def)
  have s2: "s2 new = Some e" using new(3) ne by (simp add: s1_def s2_def)
  have "list_insert_between h (last xs) (hd xs) new s =
      Inr (s\<lparr>elems := s3, heads := (heads s)(h \<mapsto> hd0\<lparr>len := len hd0 + 1\<rparr>)\<rparr>)"
    using l f nn ne new hd s1 s2
    by (simp add: list_insert_between_def upd_elem_def add_len_eq s1_def [symmetric]
        s2_def [symmetric] s3_def elem_set_all)
  moreover have "ring (s\<lparr>elems := s3, heads := H\<rparr>) h (xs @ [new])" for H
  proof -
    have "linked (s\<lparr>elems := s3, heads := H\<rparr>) h a b" if ab: "(a, b) \<in> set (adjacent xs)" for a b
    proof -
      have "linked s h a b" using r ab by (auto simp: ring_def circle_adjacent)
      moreover have "a \<noteq> last xs" "b \<noteq> hd xs" "a \<noteq> new" "b \<noteq> new"
        using adjacent_distinct [OF ab] r new(1) by (auto simp: ring_def)
      ultimately show ?thesis using l f by (auto simp: linked_def s1_def s2_def s3_def)
    qed
    moreover have "linked (s\<lparr>elems := s3, heads := H\<rparr>) h (last xs) new"
      "linked (s\<lparr>elems := s3, heads := H\<rparr>) h new (hd xs)"
      using l f ne by (auto simp: linked_def s1_def s2_def s3_def)
    ultimately show ?thesis using r new by (auto simp: ring_def circle_adjacent adjacent_snoc)
  qed
  ultimately show ?thesis
    using r(2) by (auto simp: s1_def s2_def s3_def)
qed

lemma ring_remove:
  assumes r: "ring s h (xs @ [x])"
    and hd: "heads s h = Some hd0" "h \<noteq> NULL" "0 < len hd0" "len hd0 < 2 ^ 31"
  shows "\<exists>s'. list_remove_elem h x s = Inr (x, s') \<and> ring s' h xs \<and>
    heads s' = (heads s)(h \<mapsto> hd0\<lparr>len := len hd0 - 1\<rparr>) \<and>
    elems s' x = Some \<lparr>head = NULL, prev = NULL, next = NULL\<rparr> \<and>
    (\<forall>y. y \<notin> set (x # xs) \<longrightarrow> elems s' y = elems s y)"
proof (cases "xs = []")
  case True
  have x: "x \<noteq> NULL" "elems s x = Some \<lparr>head = h, prev = x, next = x\<rparr>"
    using r True by (auto simp: ring_def circle_def linked_def)
  show ?thesis
    using True x hd
    by (auto simp: list_remove_elem_def upd_elem_def add_len_eq ring_def circle_def elem_set_all)
next
  case False
  have dist: "distinct xs" "x \<notin> set xs" "NULL \<notin> set xs" "x \<noteq> NULL" using r by (auto simp: ring_def)
  have nn: "hd xs \<noteq> NULL" "last xs \<noteq> NULL" "x \<noteq> hd xs" "x \<noteq> last xs"
    using dist False by (metis hd_in_set, metis last_in_set, metis hd_in_set, metis last_in_set)
  obtain p n where l: "elems s (last xs) = Some \<lparr>head = h, prev = p, next = x\<rparr>"
    and f: "elems s (hd xs) = Some \<lparr>head = h, prev = x, next = n\<rparr>"
    and x: "elems s x = Some \<lparr>head = h, prev = last xs, next = hd xs\<rparr>"
    using ring_snoc(1,2) [OF r False] by (auto simp: linked_def)
  define s1 where "s1 = (elems s)(last xs \<mapsto> \<lparr>head = h, prev = p, next = hd xs\<rparr>)"
  define s2 where "s2 = s1(hd xs \<mapsto> (the (s1 (hd xs)))\<lparr>prev := last xs\<rparr>)"
  define s3 where "s3 = s2(x \<mapsto> \<lparr>head = NULL, prev = NULL, next = NULL\<rparr>)"
  have s12: "s1 (hd xs) = Some (the (s1 (hd xs)))" "s2 x = elems s x"
    using f nn by (auto simp: s1_def s2_def)
  have "list_remove_elem h x s =
      Inr (x, s\<lparr>elems := s3, heads := (heads s)(h \<mapsto> hd0\<lparr>len := len hd0 - 1\<rparr>)\<rparr>)"
    using l f x nn dist hd s12
    by (simp add: list_remove_elem_def Let_def upd_elem_def add_len_eq s1_def [symmetric]
        s2_def [symmetric] s3_def elem_set_all)
  moreover have "ring (s\<lparr>elems := s3, heads := H\<rparr>) h xs" for H
  proof -
    have "linked (s\<lparr>elems := s3, heads := H\<rparr>) h a b" if ab: "(a, b) \<in> set (adjacent xs)" for a b
    proof -
      have "linked s h a b" using ring_snoc(3) [OF r False ab] .
      moreover have "a \<noteq> last xs" "b \<noteq> hd xs" "a \<noteq> x" "b \<noteq> x"
        using adjacent_distinct [OF ab dist(1)] dist(2) by auto
      ultimately show ?thesis using l f by (auto simp: linked_def s1_def s2_def s3_def)
    qed
    moreover have "linked (s\<lparr>elems := s3, heads := H\<rparr>) h (last xs) (hd xs)"
      using l f nn by (auto simp: linked_def s1_def s2_def s3_def)
    ultimately show ?thesis using False dist by (auto simp: ring_def circle_adjacent)
  qed
  ultimately show ?thesis using False by (auto simp: s1_def s2_def s3_def)
qed

section \<open>Lists as sequences\<close>

definition is_list :: "lstore \<Rightarrow> addr \<Rightarrow> addr list \<Rightarrow> bool" where
  "is_list s h xs \<longleftrightarrow> h \<noteq> NULL \<and> ring s h xs \<and> length xs < 2 ^ 31 \<and>
     heads s h = Some \<lparr>first = (if xs = [] then NULL else hd xs), len = int (length xs)\<rparr>"

text \<open>An element that is in no list and may be inserted.\<close>

definition detached :: "lstore \<Rightarrow> addr \<Rightarrow> bool" where
  "detached s x \<longleftrightarrow> x \<noteq> NULL \<and> (\<exists>e. elems s x = Some e \<and> head e = NULL)"

text \<open>Nothing but the list itself and the elements in \<open>X\<close> has changed.\<close>

definition only_changes :: "addr \<Rightarrow> addr set \<Rightarrow> lstore \<Rightarrow> lstore \<Rightarrow> bool" where
  "only_changes h X s s' \<longleftrightarrow>
     (\<forall>h'. h' \<noteq> h \<longrightarrow> heads s' h' = heads s h') \<and> (\<forall>x. x \<notin> X \<longrightarrow> elems s' x = elems s x)"

lemma is_list_detached: "is_list s h xs \<Longrightarrow> detached s x \<Longrightarrow> x \<notin> set xs"
  using ring_elem [of s h xs x] by (auto simp: is_list_def detached_def)

lemma list_init_correct:
  assumes "heads s h = Some hd0" "h \<noteq> NULL"
  shows "\<exists>s'. list_init h s = Inr s' \<and> is_list s' h [] \<and> only_changes h {} s s'"
  using assms
  by (cases hd0) (simp add: list_init_def upd_head_def is_list_def ring_def circle_def only_changes_def)

lemma only_changes_mono: "only_changes h A s s' \<Longrightarrow> A \<subseteq> B \<Longrightarrow> only_changes h B s s'"
  by (auto simp: only_changes_def)

lemma list_push_correct:
  assumes l: "is_list s h xs" and x: "detached s x" and len: "length xs + 1 < 2 ^ 31"
  shows "\<exists>s'. list_push h x s = Inr s' \<and> is_list s' h (xs @ [x]) \<and> only_changes h (set (x # xs)) s s'"
proof (cases "xs = []")
  case True
  obtain e where e: "elems s x = Some e" "x \<noteq> NULL" using x by (auto simp: detached_def)
  then show ?thesis
    using l True
    by (cases e) (auto simp: list_push_def is_list_def upd_head_def upd_elem_def add_len_eq
        only_changes_def ring_def circle_def linked_def)
next
  case False
  obtain e where e: "elems s x = Some e" "head e = NULL" "x \<noteq> NULL" using x by (auto simp: detached_def)
  have r: "ring s h xs" and h: "heads s h = Some \<lparr>first = hd xs, len = int (length xs)\<rparr>" "h \<noteq> NULL"
    using l False by (simp_all add: is_list_def)
  obtain n where f: "elems s (hd xs) = Some \<lparr>head = h, prev = last xs, next = n\<rparr>" "hd xs \<noteq> NULL"
    using ring_first [OF r False] by (auto simp: linked_def)
  have nin: "x \<notin> set xs" using is_list_detached [OF l x] .
  obtain s' where "list_insert_between h (last xs) (hd xs) x s = Inr s'" "ring s' h (xs @ [x])"
    "heads s' = (heads s)(h \<mapsto> \<lparr>first = hd xs, len = int (length xs) + 1\<rparr>)"
    "\<forall>y. y \<notin> set (x # xs) \<longrightarrow> elems s' y = elems s y"
    using ring_insert [OF r False nin e(3,1,2) h] len by auto
  with False h f e l len show ?thesis
    by (auto simp: list_push_def is_list_def only_changes_def)
qed

lemma list_push_first_correct:
  assumes l: "is_list s h xs" and x: "detached s x" and len: "length xs + 1 < 2 ^ 31"
  shows "\<exists>s'. list_push_first h x s = Inr s' \<and> is_list s' h (x # xs) \<and>
    only_changes h (set (x # xs)) s s'"
proof -
  obtain s1 where p: "list_push h x s = Inr s1" and l1: "is_list s1 h (xs @ [x])"
    and ch: "only_changes h (set (x # xs)) s s1"
    using list_push_correct [OF assms] by blast
  have r: "ring s1 h (xs @ [x])" and h: "h \<noteq> NULL"
    "heads s1 h = Some \<lparr>first = hd (xs @ [x]), len = int (length (xs @ [x]))\<rparr>"
    using l1 by (simp_all add: is_list_def)
  have ne: "xs @ [x] \<noteq> []" by simp
  obtain n where f: "elems s1 (hd (xs @ [x])) = Some \<lparr>head = h, prev = x, next = n\<rparr>"
    "hd (xs @ [x]) \<noteq> NULL"
    using ring_first(1,3) [OF r ne] by (auto simp: linked_def)
  define s2 where "s2 = s1\<lparr>heads := (heads s1)(h \<mapsto> \<lparr>first = x, len = int (length (x # xs))\<rparr>)\<rparr>"
  have "list_push_first h x s = Inr s2"
    using p h f x by (simp add: list_push_first_def upd_head_def s2_def detached_def)
  moreover have "ring s2 h (x # xs)"
    using r ring_rotate1 [of s2 h "x # xs"] by (simp add: ring_def linked_def s2_def)
  ultimately show ?thesis
    using ch h len by (auto simp: is_list_def only_changes_def s2_def)
qed

lemma is_list_remove_last:
  assumes l: "is_list s h xs" and r: "ring s h (ys @ [x])" and ys: "length xs = Suc (length ys)"
  shows "\<exists>s'. list_remove_elem h x s = Inr (x, s') \<and> ring s' h ys \<and>
    heads s' = (heads s)(h \<mapsto> \<lparr>first = hd xs, len = int (length ys)\<rparr>) \<and>
    elems s' x = Some \<lparr>head = NULL, prev = NULL, next = NULL\<rparr> \<and>
    only_changes h (set (x # ys)) s s'"
proof -
  have "heads s h = Some \<lparr>first = hd xs, len = int (length xs)\<rparr>" "h \<noteq> NULL" "length xs < 2 ^ 31"
    using l ys by (auto simp: is_list_def)
  then show ?thesis using ring_remove [OF r] ys by (fastforce simp: only_changes_def)
qed

text \<open>The element that a removal takes out is detached, as before its insertion.\<close>

definition cleared :: "lstore \<Rightarrow> addr \<Rightarrow> bool" where
  "cleared s x \<longleftrightarrow> elems s x = Some \<lparr>head = NULL, prev = NULL, next = NULL\<rparr>"

lemma list_pop_correct:
  assumes l: "is_list s h (xs @ [x])"
  shows "\<exists>s'. list_pop h s = Inr s' \<and> is_list s' h xs \<and> cleared s' x \<and> only_changes h (set (x # xs)) s s'"
proof -
  have r: "ring s h (xs @ [x])" and h: "h \<noteq> NULL" "length xs < 2 ^ 31"
    "heads s h = Some \<lparr>first = hd (xs @ [x]), len = int (length (xs @ [x]))\<rparr>"
    using l by (simp_all add: is_list_def)
  obtain n where f: "elems s (hd (xs @ [x])) = Some \<lparr>head = h, prev = x, next = n\<rparr>"
    "hd (xs @ [x]) \<noteq> NULL"
    using ring_first(1,3) [OF r] by (auto simp: linked_def)
  obtain s1 where s1: "list_remove_elem h x s = Inr (x, s1)" "ring s1 h xs" "cleared s1 x"
    "heads s1 = (heads s)(h \<mapsto> \<lparr>first = hd (xs @ [x]), len = int (length xs)\<rparr>)"
    "only_changes h (set (x # xs)) s s1"
    using is_list_remove_last [OF l r] by (auto simp: cleared_def)
  show ?thesis
  proof (cases "xs = []")
    case True
    then show ?thesis
      using s1 h f
      by (auto simp: list_pop_def upd_head_def is_list_def cleared_def only_changes_def ring_def circle_def)
  next
    case False
    then show ?thesis using s1 h f by (auto simp: list_pop_def is_list_def)
  qed
qed

lemma list_pop_first_correct:
  assumes l: "is_list s h (x # xs)"
  shows "\<exists>s'. list_pop_first h s = Inr s' \<and> is_list s' h xs \<and> cleared s' x \<and>
    only_changes h (set (x # xs)) s s'"
proof -
  have r: "ring s h (x # xs)" and h: "h \<noteq> NULL" "length xs < 2 ^ 31"
    "heads s h = Some \<lparr>first = x, len = int (length (x # xs))\<rparr>"
    using l by (simp_all add: is_list_def)
  have r': "ring s h (xs @ [x])" using r ring_rotate1 [of s h "x # xs"] by simp
  obtain p where f: "elems s x = Some \<lparr>head = h, prev = p, next = hd (xs @ [x])\<rparr>" "x \<noteq> NULL"
    using ring_first(1,4) [OF r] by (auto simp: linked_def)
  obtain s1 where s1: "list_remove_elem h x s = Inr (x, s1)" "ring s1 h xs" "cleared s1 x"
    "heads s1 = (heads s)(h \<mapsto> \<lparr>first = x, len = int (length xs)\<rparr>)"
    "only_changes h (set (x # xs)) s s1"
    using is_list_remove_last [OF l r'] by (auto simp: cleared_def)
  then show ?thesis
    using s1 h f
    by (cases xs) (auto simp: list_pop_first_def Let_def upd_head_def is_list_def cleared_def
        only_changes_def ring_def linked_def)
qed

lemma list_get_correct:
  assumes l: "is_list s h xs"
  shows "list_get h i s = (if 0 \<le> i \<and> i < int (length xs) then Inr (xs ! nat i) else Inl Assertion_hang)"
proof (cases "0 \<le> i \<and> i < int (length xs)")
  case True
  define k where "k = nat i"
  then have k: "i = int k" "k < length xs" using True by auto
  then have ne: "xs \<noteq> []" by auto
  have r: "ring s h xs" and h: "h \<noteq> NULL" "heads s h = Some \<lparr>first = hd xs, len = int (length xs)\<rparr>"
    using l ne by (simp_all add: is_list_def)
  have "hd (rotate k xs) = xs ! k" using k ne by (simp add: hd_rotate_conv_nth)
  then have "list_walk k False (hd xs) s = Inr (xs ! k)"
    using ring_walk_forward [OF r ne] by simp
  moreover have "list_walk (length xs - k) True (hd xs) s = Inr (xs ! k)"
    using ring_walk_backward [of s h "rotate k xs" "length xs - k"] r ne k
    by (simp add: ring_rotate rotate_rotate hd_rotate_conv_nth)
  moreover have "nat \<bar>int (length xs) - int k\<bar> = length xs - k" using k by simp
  ultimately show ?thesis using h k by (simp add: list_get_def Let_def)
qed (use l in \<open>auto simp: list_get_def is_list_def ASSERT_def\<close>)

lemma list_insert_correct:
  assumes l: "is_list s h xs" and x: "detached s x" and len: "length xs + 1 < 2 ^ 31"
    and i: "i \<le> length xs"
  shows "\<exists>s'. list_insert h x (int i) s = Inr s' \<and> is_list s' h (take i xs @ x # drop i xs) \<and>
    only_changes h (set (x # xs)) s s'"
proof -
  have h: "h \<noteq> NULL" "heads s h = Some \<lparr>first = (if xs = [] then NULL else hd xs), len = int (length xs)\<rparr>"
    and x0: "x \<noteq> NULL"
    using l x by (auto simp: is_list_def detached_def)
  consider "i = 0" | "0 < i" "i = length xs" | "0 < i" "i < length xs" using i by linarith
  then show ?thesis
  proof cases
    case 1
    then show ?thesis using list_push_first_correct [OF l x len] h x0 by (simp add: list_insert_def)
  next
    case 2
    then show ?thesis using list_push_correct [OF l x len] h x0 by (simp add: list_insert_def)
  next
    case 3
    then have ne: "xs \<noteq> []" by auto
    let ?ys = "rotate i xs"
    have ys: "?ys = drop i xs @ take i xs" using 3 by (simp add: rotate_drop_take)
    have r: "ring s h ?ys" "?ys \<noteq> []" using l ne by (simp_all add: is_list_def ring_rotate)
    have hd: "hd ?ys = xs ! i" using 3 ne by (simp add: hd_rotate_conv_nth)
    obtain n where f: "elems s (xs ! i) = Some \<lparr>head = h, prev = last ?ys, next = n\<rparr>" "xs ! i \<noteq> NULL"
      using ring_first(1,3) [OF r] hd by (auto simp: linked_def)
    obtain e where e: "elems s x = Some e" "head e = NULL" using x by (auto simp: detached_def)
    have nin: "x \<notin> set ?ys" using is_list_detached [OF l x] by simp
    obtain s' where s': "list_insert_between h (last ?ys) (xs ! i) x s = Inr s'" "ring s' h (?ys @ [x])"
      "heads s' = (heads s)(h \<mapsto> \<lparr>first = hd xs, len = int (length xs) + 1\<rparr>)"
      "\<forall>y. y \<notin> set (x # xs) \<longrightarrow> elems s' y = elems s y"
      using ring_insert [OF r nin x0 e h(2,1)] len ne hd by auto
    have "rotate (length (drop i xs)) (?ys @ [x]) = take i xs @ x # drop i xs"
      by (simp only: ys append.assoc rotate_append) simp
    then have "ring s' h (take i xs @ x # drop i xs)" using s'(2) by (metis ring_rotate)
    moreover have "hd (take i xs @ x # drop i xs) = hd xs" using 3 ne by (simp add: hd_append)
    moreover have "list_insert h x (int i) s = Inr s'"
      using 3 h x0 s'(1) f list_get_correct [OF l, of "int i"] by (simp add: list_insert_def)
    ultimately show ?thesis
      using s'(3,4) h len by (auto simp: is_list_def only_changes_def)
  qed
qed

lemma list_remove_correct:
  assumes l: "is_list s h xs" and i: "i < length xs"
  shows "\<exists>s'. list_remove h (int i) s = Inr s' \<and> is_list s' h (take i xs @ drop (Suc i) xs) \<and>
    cleared s' (xs ! i) \<and> only_changes h (set xs) s s'"
proof -
  have ne: "xs \<noteq> []" using i by auto
  have h: "h \<noteq> NULL" "heads s h = Some \<lparr>first = hd xs, len = int (length xs)\<rparr>" "length xs < 2 ^ 31"
    using l ne by (auto simp: is_list_def)
  consider "i = 0" | "0 < i" "i = length xs - 1" | "0 < i" "i < length xs - 1" using i by linarith
  then show ?thesis
  proof cases
    case 1
    obtain y ys where "xs = y # ys" using ne by (cases xs) auto
    then show ?thesis using list_pop_first_correct [of s h y ys] l h 1 by (simp add: list_remove_def)
  next
    case 2
    obtain ys y where xs: "xs = ys @ [y]" using ne by (cases xs rule: rev_cases) auto
    have "int i = int (length xs) - 1" using 2 ne by (simp add: of_nat_diff)
    then show ?thesis
      using list_pop_correct [of s h ys y] l h 2 xs by (auto simp: list_remove_def)
  next
    case 3
    let ?ys = "drop (Suc i) xs @ take i xs"
    have "rotate (Suc i) xs = ?ys @ [xs ! i]"
      using 3 i by (simp add: rotate_drop_take take_Suc_conv_app_nth)
    then have r: "ring s h (?ys @ [xs ! i])" using l by (metis is_list_def ring_rotate)
    have n: "length xs = Suc (length ?ys)" using i by simp
    obtain s' where s': "list_remove_elem h (xs ! i) s = Inr (xs ! i, s')" "ring s' h ?ys"
      "heads s' = (heads s)(h \<mapsto> \<lparr>first = hd xs, len = int (length ?ys)\<rparr>)"
      "cleared s' (xs ! i)" "only_changes h (set (xs ! i # ?ys)) s s'"
      using is_list_remove_last [OF l r n] unfolding cleared_def by blast
    have "ring s' h (take i xs @ drop (Suc i) xs)"
      using s'(2) ring_rotate [of s' h "length (drop (Suc i) xs)" ?ys] by (simp only: rotate_append)
    moreover have "hd (take i xs @ drop (Suc i) xs) = hd xs" using 3 ne by (simp add: hd_append)
    moreover have "only_changes h (set xs) s s'"
      by (rule only_changes_mono [OF s'(5)]) (use i in \<open>auto dest: in_set_takeD in_set_dropD\<close>)
    moreover have "int i \<noteq> int (length xs) - 1" using 3 by linarith
    then have "list_remove h (int i) s = Inr s'"
      using 3 i h s'(1) list_get_correct [OF l, of "int i"] by (simp add: list_remove_def)
    moreover have "take i xs \<noteq> []" using 3 ne by simp
    ultimately show ?thesis
      using s'(3,4) h i by (auto simp: is_list_def)
  qed
qed

text \<open>The calls \<^verbatim>\<open>list_foreach\<close> should make: one per element, in order, with its position.\<close>

primrec visit ::
  "(addr \<Rightarrow> int \<Rightarrow> 'y \<Rightarrow> 'y outcome) \<Rightarrow> int \<Rightarrow> addr list \<Rightarrow> 'y \<Rightarrow> 'y outcome" where
  "visit f i [] sx = Inr sx"
| "visit f i (x # xs) sx = bindR (f x i sx) (visit f (i + 1) xs)"

lemma list_foreach_loop_correct:
  assumes keep: "\<And>x i sx sx'. is_list (fst sx) h xs \<Longrightarrow> f x i sx = Inr sx' \<Longrightarrow> is_list (fst sx') h xs"
    and l: "is_list (fst sx) h xs" and j: "j \<le> length xs" "length xs - j < k" and ne: "xs \<noteq> []"
  shows "list_foreach_loop k h f (hd (rotate j xs)) (int j) sx = visit f (int j) (drop j xs) sx"
  using l j
proof (induction k arbitrary: j sx)
  case (Suc k)
  have h: "h \<noteq> NULL" "heads (fst sx) h = Some \<lparr>first = hd xs, len = int (length xs)\<rparr>"
    using Suc.prems ne by (auto simp: is_list_def)
  show ?case
  proof (cases "j = length xs")
    case True
    then show ?thesis using h by simp
  next
    case False
    then have j: "j < length xs" using Suc.prems by simp
    let ?x = "xs ! j"
    have hd: "hd (rotate j xs) = ?x" using j ne by (simp add: hd_rotate_conv_nth)
    have "?x \<noteq> NULL" using Suc.prems j by (auto simp: is_list_def ring_def in_set_conv_nth)
    have "bindR (deref (elems (fst sx')) ?x) (\<lambda>e. list_foreach_loop k h f (next e) (int j + 1) sx') =
        visit f (int j + 1) (drop (Suc j) xs) sx'" if "f ?x (int j) sx = Inr sx'" for sx'
    proof -
      have l': "is_list (fst sx') h xs" using keep [OF Suc.prems(1) that] .
      then have "ring (fst sx') h (rotate j xs)" by (simp add: is_list_def ring_rotate)
      from ring_first(4) [OF this] obtain p where
        "elems (fst sx') ?x = Some \<lparr>head = h, prev = p, next = hd (rotate (Suc j) xs)\<rparr>"
        using ne hd by (auto simp: linked_def)
      then have "deref (elems (fst sx')) ?x = Inr \<lparr>head = h, prev = p, next = hd (rotate (Suc j) xs)\<rparr>"
        using \<open>?x \<noteq> NULL\<close> by (simp add: deref_def)
      moreover have "list_foreach_loop k h f (hd (rotate (Suc j) xs)) (int (Suc j)) sx' =
          visit f (int (Suc j)) (drop (Suc j) xs) sx'"
        by (rule Suc.IH [OF l']) (use Suc.prems j in auto)
      moreover have "int j + 1 = int (Suc j)" by simp
      ultimately show ?thesis by (simp only: bindR_simps list_elem_t.simps)
    qed
    moreover have "drop j xs = ?x # drop (Suc j) xs" using j by (simp add: Cons_nth_drop_Suc)
    ultimately show ?thesis
      using h j hd \<open>?x \<noteq> NULL\<close> by (cases "f ?x (int j) sx") simp_all
  qed
qed simp


section \<open>The list as a double-ended queue\<close>

text \<open>
  What a client that keeps its objects on a list relies on: a state represents a sequence,
  an object not on the list is ready to be pushed, and each call acts on one end.
\<close>

locale deque =
  fixes rep :: "'s \<Rightarrow> 'x list \<Rightarrow> bool"
    and ready :: "'s \<Rightarrow> 'x \<Rightarrow> bool"
    and capacity :: nat
    and front :: "'s \<Rightarrow> 'x outcome"
    and push :: "'x \<Rightarrow> 's \<Rightarrow> 's outcome"
    and push_front :: "'x \<Rightarrow> 's \<Rightarrow> 's outcome"
    and pop :: "'s \<Rightarrow> 's outcome"
    and pop_front :: "'s \<Rightarrow> 's outcome"
  assumes front: "rep s (x # xs) \<Longrightarrow> front s = Inr x"
    and push: "rep s xs \<Longrightarrow> ready s x \<Longrightarrow> length xs < capacity \<Longrightarrow>
      \<exists>s'. push x s = Inr s' \<and> rep s' (xs @ [x]) \<and> (\<forall>y. ready s y \<longrightarrow> y \<noteq> x \<longrightarrow> ready s' y)"
    and push_front: "rep s xs \<Longrightarrow> ready s x \<Longrightarrow> length xs < capacity \<Longrightarrow>
      \<exists>s'. push_front x s = Inr s' \<and> rep s' (x # xs) \<and> (\<forall>y. ready s y \<longrightarrow> y \<noteq> x \<longrightarrow> ready s' y)"
    and pop: "rep s (xs @ [x]) \<Longrightarrow>
      \<exists>s'. pop s = Inr s' \<and> rep s' xs \<and> ready s' x \<and> (\<forall>y. ready s y \<longrightarrow> ready s' y)"
    and pop_front: "rep s (x # xs) \<Longrightarrow>
      \<exists>s'. pop_front s = Inr s' \<and> rep s' xs \<and> ready s' x \<and> (\<forall>y. ready s y \<longrightarrow> ready s' y)"
    and bounded: "rep s xs \<Longrightarrow> length xs \<le> capacity"
begin

primrec push_all :: "'x list \<Rightarrow> 's \<Rightarrow> 's outcome" where
  "push_all [] s = Inr s"
| "push_all (x # xs) s = bindR (push x s) (push_all xs)"

primrec drain :: "nat \<Rightarrow> 's \<Rightarrow> ('x list \<times> 's) outcome" where
  "drain 0 s = Inr ([], s)"
| "drain (Suc n) s = bindR (front s) (\<lambda>x. bindR (pop_front s) (\<lambda>s1.
     bindR (drain n s1) (\<lambda>(xs, s2). Inr (x # xs, s2))))"

text \<open>The front object goes to the back, \<open>n\<close> times: one pass of a round-robin scheduler.\<close>

primrec requeue :: "nat \<Rightarrow> 's \<Rightarrow> 's outcome" where
  "requeue 0 s = Inr s"
| "requeue (Suc n) s = bindR (front s) (\<lambda>x. bindR (pop_front s) (\<lambda>s1. bindR (push x s1) (requeue n)))"

lemma push_all_rep:
  assumes "rep s ys" "\<forall>x \<in> set xs. ready s x" "distinct xs" "length ys + length xs \<le> capacity"
  shows "\<exists>s'. push_all xs s = Inr s' \<and> rep s' (ys @ xs)"
  using assms
proof (induction xs arbitrary: s ys)
  case (Cons x xs)
  obtain s1 where s1: "push x s = Inr s1" "rep s1 (ys @ [x])" "\<forall>y. ready s y \<longrightarrow> y \<noteq> x \<longrightarrow> ready s1 y"
    using push [of s ys x] Cons.prems by auto
  moreover have "\<forall>y \<in> set xs. ready s1 y" using s1(3) Cons.prems by auto
  ultimately show ?case using Cons.IH [of s1 "ys @ [x]"] Cons.prems by auto
qed simp

lemma drain_rep:
  assumes "rep s (xs @ ys)"
  shows "\<exists>s'. drain (length xs) s = Inr (xs, s') \<and> rep s' ys"
  using assms
proof (induction xs arbitrary: s)
  case (Cons x xs)
  obtain s1 where "pop_front s = Inr s1" "rep s1 (xs @ ys)" using pop_front [of s x] Cons.prems by auto
  then show ?case using Cons.IH [of s1] front [of s x] Cons.prems by auto
qed simp

lemma fifo:
  assumes "rep s []" "\<forall>x \<in> set xs. ready s x" "distinct xs" "length xs \<le> capacity"
  shows "\<exists>s1 s2. push_all xs s = Inr s1 \<and> drain (length xs) s1 = Inr (xs, s2) \<and> rep s2 []"
  using push_all_rep [OF assms(1-3)] assms(4) drain_rep [of _ xs "[]"] by fastforce

lemma requeue_rep:
  assumes "rep s xs" "xs \<noteq> []"
  shows "\<exists>s'. requeue n s = Inr s' \<and> rep s' (rotate n xs)"
  using assms
proof (induction n arbitrary: s xs)
  case (Suc n)
  then obtain x ys where xs: "xs = x # ys" by (cases xs) auto
  obtain s1 where s1: "pop_front s = Inr s1" "rep s1 ys" "ready s1 x" using pop_front [of s x ys] Suc.prems xs by auto
  moreover have "length ys < capacity" using bounded [OF Suc.prems(1)] xs by simp
  ultimately obtain s2 where "push x s1 = Inr s2" "rep s2 (ys @ [x])" using push [of s1 ys x] by auto
  then show ?case
    using Suc.IH [of s2 "ys @ [x]"] front [of s x ys] Suc.prems xs s1
    by (auto simp: rotate1_rotate_swap)
qed simp

lemma lifo:
  assumes "rep s xs" "ready s x" "length xs < capacity"
  shows "\<exists>s1 s2. push_front x s = Inr s1 \<and> front s1 = Inr x \<and> pop_front s1 = Inr s2 \<and> rep s2 xs \<and> ready s2 x"
proof -
  obtain s1 where "push_front x s = Inr s1" "rep s1 (x # xs)" using push_front [OF assms] by auto
  then show ?thesis using front [of s1 x xs] pop_front [of s1 x xs] by auto
qed

end

lemma only_changes_detached:
  assumes "only_changes h X s s'" "detached s y" "y \<notin> X"
  shows "detached s' y"
  using assms by (auto simp: only_changes_def detached_def)

lemma cleared_detached: "is_list s h xs \<Longrightarrow> x \<in> set xs \<Longrightarrow> cleared s' x \<Longrightarrow> detached s' x"
  by (auto simp: cleared_def detached_def is_list_def ring_def)

lemma is_list_removed_keeps_detached:
  assumes "is_list s h xs" "only_changes h X s s'" "X \<subseteq> set xs" "detached s y"
  shows "detached s' y"
  using only_changes_detached [OF assms(2,4)] is_list_detached [OF assms(1,4)] assms(3) by blast

interpretation kdeque: deque
  "\<lambda>s xs. is_list s h xs" detached "2 ^ 31 - 1" "list_get h 0" "list_push h" "list_push_first h"
  "list_pop h" "list_pop_first h" for h
proof (unfold_locales, goal_cases)
  case (1 s x xs)
  then show ?case by (simp add: list_get_correct)
next
  case (2 s xs x)
  then have "length xs + 1 < 2 ^ 31" by simp
  from list_push_correct [OF 2(1,2) this] show ?case
    using 2 only_changes_detached is_list_detached [OF 2(1)] by fastforce
next
  case (3 s xs x)
  then have "length xs + 1 < 2 ^ 31" by simp
  from list_push_first_correct [OF 3(1,2) this] show ?case
    using 3 only_changes_detached is_list_detached [OF 3(1)] by fastforce
next
  case (4 s xs x)
  then show ?case
    using list_pop_correct [OF 4] cleared_detached [OF 4] is_list_removed_keeps_detached [OF 4] by fastforce
next
  case (5 s x xs)
  then show ?case
    using list_pop_first_correct [OF 5] cleared_detached [OF 5] is_list_removed_keeps_detached [OF 5] by fastforce
next
  case (6 s xs)
  then show ?case by (simp add: is_list_def)
qed

lemma list_foreach_correct:
  assumes keep: "\<And>x i sx sx'. is_list (fst sx) h xs \<Longrightarrow> f x i sx = Inr sx' \<Longrightarrow> is_list (fst sx') h xs"
    and l: "is_list (fst sx) h xs"
  shows "list_foreach h f sx = visit f 0 xs sx"
proof (cases "xs = []")
  case True
  have fuel: "(2 ^ 31 :: nat) = Suc (2 ^ 31 - 1)" by simp
  have "list_foreach_loop (Suc k) h f NULL 0 sx = Inr sx" for k
    using l True by (simp add: is_list_def)
  then have "list_foreach_loop (2 ^ 31) h f NULL 0 sx = Inr sx" by (subst fuel)
  then show ?thesis using l True by (simp add: list_foreach_def is_list_def)
next
  case False
  have "length xs < 2 ^ 31" using l by (simp add: is_list_def)
  then show ?thesis
    using list_foreach_loop_correct [OF keep l, where j = 0 and k = "2 ^ 31"] False l
    by (simp add: list_foreach_def is_list_def)
qed

text \<open>Taking the front element off with \<^verbatim>\<open>list_pop_first\<close> and pushing it at the back, any
  number of times, rotates the sequence: no element is lost, doubled or reordered.\<close>

lemma list_requeue_rotates:
  assumes "is_list s h xs" "xs \<noteq> []"
  shows "\<exists>s'. deque.requeue (list_get h 0) (list_push h) (list_pop_first h) n s = Inr s' \<and>
    is_list s' h (rotate n xs)"
  by (rule kdeque.requeue_rep [OF assms])

section \<open>Properties\<close>

text \<open>A store with one list head and some elements, all fresh; the properties are tried on it.\<close>

definition fresh_store :: "addr \<Rightarrow> addr list \<Rightarrow> lstore" where
  "fresh_store h ns = \<lparr>heads = [h \<mapsto> \<lparr>first = NULL, len = 0\<rparr>],
     elems = (\<lambda>a. if a \<in> set ns then Some \<lparr>head = NULL, prev = NULL, next = NULL\<rparr> else None)\<rparr>"

definition pair_store :: lstore where
  "pair_store = \<lparr>heads = [1 \<mapsto> \<lparr>first = 2, len = 2\<rparr>],
     elems = [2 \<mapsto> \<lparr>head = 1, prev = 3, next = 3\<rparr>, 3 \<mapsto> \<lparr>head = 1, prev = 2, next = 2\<rparr>,
              4 \<mapsto> \<lparr>head = NULL, prev = NULL, next = NULL\<rparr>]\<rparr>"

lemma fresh_store_facts:
  "h \<noteq> NULL \<Longrightarrow> is_list (fresh_store h ns) h []"
  "detached (fresh_store h ns) x \<longleftrightarrow> x \<in> set ns \<and> x \<noteq> NULL"
  by (auto simp: fresh_store_def is_list_def ring_def circle_def detached_def)

lemma pair_store_facts: "is_list pair_store 1 [2, 3]" "detached pair_store 4"
  by (simp_all add: pair_store_def is_list_def ring_def circle_def linked_def detached_def)

text \<open>C16: objects pushed with \<^verbatim>\<open>list_push\<close> on an empty list come off again in the order of the
  pushes, when each is read with \<^verbatim>\<open>list_get(head, 0)\<close> and removed with \<^verbatim>\<open>list_pop_first\<close>; no
  call hangs or follows a bad pointer, and the list is empty again at the end.\<close>

theorem list_fifo:
  assumes "is_list s h []" "\<forall>x \<in> set xs. detached s x" "distinct xs" "length xs < 2 ^ 31"
  shows "\<exists>s1 s2. deque.push_all (list_push h) xs s = Inr s1 \<and>
    deque.drain (list_get h 0) (list_pop_first h) (length xs) s1 = Inr (xs, s2) \<and> is_list s2 h []"
  using kdeque.fifo [OF assms(1-3)] assms(4) by simp

theorem list_fifo_witness:
  "\<exists>s1 s2. deque.push_all (list_push 1) [2, 3, 4] (fresh_store 1 [2, 3, 4]) = Inr s1 \<and>
    deque.drain (list_get 1 0) (list_pop_first 1) (length [2, 3, 4 :: addr]) s1 = Inr ([2, 3, 4], s2) \<and>
    is_list s2 1 []"
  by (rule list_fifo) (simp_all add: fresh_store_facts)

text \<open>C17: \<^verbatim>\<open>list_insert\<close> puts a detached element at the index given, shifts the rest by one,
  and touches no other list and no element outside this one; an index below 0 or above the length
  hangs in an \<^verbatim>\<open>ASSERT\<close>.\<close>

theorem list_insert_at:
  assumes "is_list s h xs" "detached s x" "length xs + 1 < 2 ^ 31"
  shows "if 0 \<le> i \<and> i \<le> int (length xs)
    then \<exists>s'. list_insert h x i s = Inr s' \<and> is_list s' h (take (nat i) xs @ x # drop (nat i) xs) \<and>
      only_changes h (set (x # xs)) s s'
    else list_insert h x i s = Inl Assertion_hang"
proof (cases "0 \<le> i \<and> i \<le> int (length xs)")
  case True
  then show ?thesis using list_insert_correct [OF assms, of "nat i"] by (simp add: nat_le_iff)
qed (use assms in \<open>auto simp: list_insert_def is_list_def ASSERT_def\<close>)

theorem list_insert_at_witness:
  "if 0 \<le> (1 :: int) \<and> 1 \<le> int (length [2, 3 :: addr])
    then \<exists>s'. list_insert 1 4 1 pair_store = Inr s' \<and>
      is_list s' 1 (take (nat 1) [2, 3] @ 4 # drop (nat 1) [2, 3]) \<and>
      only_changes 1 (set (4 # [2, 3])) pair_store s'
    else list_insert 1 4 1 pair_store = Inl Assertion_hang"
  by (rule list_insert_at) (simp_all add: pair_store_facts)

text \<open>C18: \<^verbatim>\<open>list_remove\<close> takes out the element at the index given, keeps the order of the rest,
  leaves the element with three NULL pointers, ready for the next insertion, and touches nothing
  else; an index outside the list hangs.\<close>

theorem list_remove_at:
  assumes "is_list s h xs"
  shows "if 0 \<le> i \<and> i < int (length xs)
    then \<exists>s'. list_remove h i s = Inr s' \<and> is_list s' h (take (nat i) xs @ drop (Suc (nat i)) xs) \<and>
      cleared s' (xs ! nat i) \<and> only_changes h (set xs) s s'
    else list_remove h i s = Inl Assertion_hang"
proof (cases "0 \<le> i \<and> i < int (length xs)")
  case True
  then show ?thesis using list_remove_correct [OF assms, of "nat i"] by auto
qed (use assms in \<open>auto simp: list_remove_def is_list_def ASSERT_def\<close>)

theorem list_remove_at_witness:
  "if 0 \<le> (1 :: int) \<and> 1 < int (length [2, 3 :: addr])
    then \<exists>s'. list_remove 1 1 pair_store = Inr s' \<and>
      is_list s' 1 (take (nat 1) [2, 3] @ drop (Suc (nat 1)) [2, 3]) \<and>
      cleared s' ([2, 3] ! nat 1) \<and> only_changes 1 (set [2, 3]) pair_store s'
    else list_remove 1 1 pair_store = Inl Assertion_hang"
  by (rule list_remove_at) (simp_all add: pair_store_facts)

text \<open>\<^verbatim>\<open>list_get\<close> returns the element at the index, whichever of the two directions it
  walks, and hangs for an index outside the list.\<close>

lemma list_get_nth:
  assumes "is_list s h xs"
  shows "list_get h i s = (if 0 \<le> i \<and> i < int (length xs) then Inr (xs ! nat i) else Inl Assertion_hang)"
  by (rule list_get_correct [OF assms])

end
